(* ===== verification/Telemetry_Prelude.thy ===== *)
theory Telemetry_Prelude
  imports "HOL-Library.Word" "HOL-Library.Monad_Syntax"
begin

unbundle bit_operations_syntax

text \<open>
  Shared vocabulary of the development: the machine integer types of the C++ code, checked
  accesses to spans and arrays, big-endian byte strings as the reference the protocol layer is
  compared with, decimal numerals as \<^verbatim>\<open>std::to_string\<close> and \<^verbatim>\<open>operator<<\<close> print them, and
  the generic lemmas about lists and words that the component theories use.

  \<^item> \<open>u8\<close>, \<open>u16\<close>, \<open>u32\<close>, \<open>u64\<close> are \<^verbatim>\<open>std::uint8_t\<close> to \<^verbatim>\<open>std::uint64_t\<close>: arithmetic wraps.
  \<^item> \<open>i32\<close> and \<open>i64\<close> are \<^verbatim>\<open>std::int32_t\<close> and \<^verbatim>\<open>std::int64_t\<close> as bit patterns, read by \<open>sint\<close>.
  \<^item> \<^verbatim>\<open>std::size_t\<close> indices and sizes are \<open>nat\<close>; none of them exceeds 68 in this code.
\<close>

type_synonym u8 = "8 word"
type_synonym u16 = "16 word"
type_synonym u32 = "32 word"
type_synonym u64 = "64 word"
type_synonym i32 = "32 word"
type_synonym i64 = "64 word"
type_synonym bytes = "u8 list"

named_theorems word_norm \<open>normal forms of masked and cast words\<close>

subsection \<open>Checked accesses\<close>

text \<open>
  \<^verbatim>\<open>operator[]\<close> of \<^verbatim>\<open>std::span\<close>, \<^verbatim>\<open>std::array\<close> and \<^verbatim>\<open>std::vector\<close> has undefined behaviour out of
  range. The checked accesses make that a value: \<open>None\<close>.
\<close>

definition index_at :: "'a list \<Rightarrow> nat \<Rightarrow> 'a option" where
  "index_at xs i = (if i < length xs then Some (xs ! i) else None)"

definition store_at :: "'a list \<Rightarrow> nat \<Rightarrow> 'a \<Rightarrow> 'a list option" where
  "store_at xs i v = (if i < length xs then Some (xs[i := v]) else None)"

subsection \<open>Big-endian byte strings\<close>

definition be_encode :: "nat \<Rightarrow> 'a::len word \<Rightarrow> bytes" where
  "be_encode n w = map (\<lambda>i. ucast (drop_bit (8 * (n - 1 - i)) w)) [0..<n]"

definition be_decode :: "bytes \<Rightarrow> 'a::len word" where
  "be_decode bs = foldl (\<lambda>v b. push_bit 8 v OR ucast b) 0 bs"

subsection \<open>Decimal numerals\<close>

text \<open>
  What \<^verbatim>\<open>std::to_string\<close> and stream insertion print for an integer in the default locale:
  decimal digits without padding, with a minus sign for a negative value.
\<close>

definition digit_char :: "nat \<Rightarrow> char" where
  "digit_char d = ''0123456789'' ! d"

fun show_nat :: "nat \<Rightarrow> string" where
  "show_nat n = (if n < 10 then [digit_char n] else show_nat (n div 10) @ [digit_char (n mod 10)])"

declare show_nat.simps [simp del]

definition show_int :: "int \<Rightarrow> string" where
  "show_int i = (if i < 0 then CHR ''-'' # show_nat (nat (- i)) else show_nat (nat i))"

definition digit_value :: "char \<Rightarrow> nat" where
  "digit_value c = of_char c - 48"

definition read_nat :: "string \<Rightarrow> nat" where
  "read_nat s = foldl (\<lambda>n c. 10 * n + digit_value c) 0 s"

subsection \<open>Lemmas on checked accesses\<close>

lemma index_at_in_range [simp]: "i < length xs \<Longrightarrow> index_at xs i = Some (xs ! i)"
  by (simp add: index_at_def)

lemma store_at_in_range [simp]: "i < length xs \<Longrightarrow> store_at xs i v = Some (xs[i := v])"
  by (simp add: store_at_def)

lemma index_at_None_iff: "index_at xs i = None \<longleftrightarrow> length xs \<le> i"
  by (auto simp: index_at_def)

lemma nth_append_offset: "(pre @ xs) ! (length pre + i) = xs ! i"
  by simp

lemma list_update_append_offset:
  "(pre @ xs)[length pre + i := v] = pre @ xs[i := v]"
  by (simp add: list_update_append)

lemma length_2_conv: "length xs = 2 \<longleftrightarrow> (\<exists>a b. xs = [a, b])"
  by (auto simp: numeral_eq_Suc length_Suc_conv)

lemma length_4_conv: "length xs = 4 \<longleftrightarrow> (\<exists>a b c d. xs = [a, b, c, d])"
  by (auto simp: numeral_eq_Suc length_Suc_conv)

lemma length_8_conv:
  "length xs = 8 \<longleftrightarrow> (\<exists>a b c d e f g h. xs = [a, b, c, d, e, f, g, h])"
  by (auto simp: numeral_eq_Suc length_Suc_conv)

subsection \<open>Lemmas on words\<close>

lemma mask_FF: "(0xFF :: 'a::len word) = mask 8"
  by (simp add: mask_eq_exp_minus_1)

lemma ucast_byte_mask [word_norm]: "(ucast (w AND 0xFF :: 'a::len word) :: u8) = ucast w"
  by (rule bit_word_eqI) (auto simp: mask_FF bit_simps dest: bit_imp_le_length)

lemma ucast_ucast_u8 [word_norm]:
  "LENGTH('b::len) \<ge> LENGTH('a::len) \<Longrightarrow> (ucast (ucast (w :: 'a word) :: 'b word) :: u8) = ucast w"
  by (rule bit_word_eqI) (auto simp: bit_simps dest: bit_imp_le_length)

lemma drop_bit_ucast_up [word_norm]:
  "LENGTH('b::len) \<ge> LENGTH('a::len) \<Longrightarrow>
    drop_bit n (ucast (w :: 'a word) :: 'b word) = ucast (drop_bit n w)"
  by (rule bit_word_eqI) (auto simp: bit_simps dest: bit_imp_le_length)

lemma xor_eq_0_iff: "(a :: 'a::len word) XOR b = 0 \<longleftrightarrow> a = b"
  by (metis xor.assoc xor.left_neutral xor_self_eq)

lemma xor_cancel_left [simp]: "a XOR b = a XOR c \<longleftrightarrow> b = (c :: 'a::len word)"
  by (metis xor.assoc xor.left_neutral xor_self_eq)

lemma xor_cancel_right [simp]: "b XOR a = c XOR a \<longleftrightarrow> b = (c :: 'a::len word)"
  by (metis xor.commute xor_cancel_left)

lemma unat_plus_one: "unat (w :: 'a::len word) + 1 < 2 ^ LENGTH('a) \<Longrightarrow> unat (w + 1) = unat w + 1"
  by (simp add: unat_word_ariths)

lemma unat_ucast_up:
  "LENGTH('a) \<le> LENGTH('b) \<Longrightarrow> unat (ucast (w :: 'a::len word) :: 'b::len word) = unat w"
proof -
  assume le: "LENGTH('a) \<le> LENGTH('b)"
  have "unat w < 2 ^ LENGTH('a)" by (rule unsigned_less)
  also have "\<dots> \<le> 2 ^ LENGTH('b)" using le by (rule power_increasing) simp
  finally show ?thesis by (simp add: unsigned_ucast_eq take_bit_nat_eq_self)
qed

lemma unat_plus_fits:
  "unat (a :: 'a::len word) + unat b < 2 ^ LENGTH('a) \<Longrightarrow> unat (a + b) = unat a + unat b"
  by (simp add: unat_word_ariths)

lemma sint_i32_bounds: "- (2 ^ 31) \<le> sint (t :: i32)" "sint (t :: i32) < 2 ^ 31"
  using sint_range_size [of t] by (simp_all add: word_size)

lemma sint_scast_i64: "sint (scast (t :: i32) :: i64) = sint t"
  by (simp add: sint_up_scast is_up)

lemma sint_plus_i64:
  "- (2 ^ 63) \<le> sint (a :: i64) + sint b \<Longrightarrow> sint a + sint b < 2 ^ 63 \<Longrightarrow>
    sint (a + b) = sint a + sint b"
  by (simp add: sint_word_ariths signed_take_bit_int_eq_self)

subsection \<open>Lemmas on big-endian byte strings\<close>

lemma length_be_encode [simp]: "length (be_encode n w) = n"
  by (simp add: be_encode_def)

lemma be_encode_Suc: "be_encode (Suc n) w = be_encode n (drop_bit 8 w) @ [ucast w]"
  by (auto simp: be_encode_def algebra_simps intro!: map_cong arg_cong [where f = ucast])

lemma be_encode_0 [simp]: "be_encode 0 w = []"
  by (simp add: be_encode_def)

lemma be_decode_Nil [simp]: "be_decode [] = 0"
  by (simp add: be_decode_def)

lemma be_decode_snoc: "be_decode (bs @ [b]) = push_bit 8 (be_decode bs) OR ucast b"
  by (simp add: be_decode_def)

lemma be_decode_encode: "be_decode (be_encode n w) = take_bit (8 * n) w"
proof (induction n arbitrary: w)
  case 0
  then show ?case by simp
next
  case (Suc n)
  show ?case
    unfolding be_encode_Suc be_decode_snoc Suc.IH
    by (rule bit_word_eqI) (auto simp: bit_simps)
qed

lemma be_decode_encode_full:
  "8 * n = LENGTH('a) \<Longrightarrow> be_decode (be_encode n w) = (w :: 'a::len word)"
  by (simp add: be_decode_encode)

lemma be_encode_inject:
  "8 * n = LENGTH('a) \<Longrightarrow> be_encode n v = be_encode n w \<longleftrightarrow> v = (w :: 'a::len word)"
  by (metis be_decode_encode_full)

lemma be_encode_take_bit: "8 * n \<le> m \<Longrightarrow> be_encode n (take_bit m w) = be_encode n w"
  unfolding be_encode_def
  by (intro map_cong refl bit_word_eqI) (auto simp: bit_simps)

lemma be_encode_decode:
  "8 * length bs \<le> LENGTH('a::len) \<Longrightarrow> be_encode (length bs) (be_decode bs :: 'a word) = bs"
proof (induction bs rule: rev_induct)
  case Nil
  then show ?case by simp
next
  case (snoc b bs)
  have "drop_bit 8 (be_decode (bs @ [b]) :: 'a word) = take_bit (LENGTH('a) - 8) (be_decode bs)"
    unfolding be_decode_snoc by (rule bit_word_eqI) (auto simp: bit_simps dest: bit_imp_le_length)
  moreover have "ucast (be_decode (bs @ [b]) :: 'a word) = b"
    unfolding be_decode_snoc using snoc.prems by (intro bit_word_eqI) (auto simp: bit_simps)
  ultimately show ?case using snoc by (simp add: be_encode_Suc be_encode_take_bit)
qed

subsection \<open>Lemmas on decimal numerals\<close>

lemma digit_value_digit_char: "d < 10 \<Longrightarrow> digit_value (digit_char d) = d"
  by (auto simp: digit_value_def digit_char_def less_Suc_eq numeral_eq_Suc)

lemma read_nat_snoc: "read_nat (s @ [c]) = 10 * read_nat s + digit_value c"
  by (simp add: read_nat_def)

lemma read_show_nat: "read_nat (show_nat n) = n"
proof (induction n rule: show_nat.induct)
  case (1 n)
  show ?case
  proof (cases "n < 10")
    case True
    then show ?thesis
      by (subst show_nat.simps) (simp add: read_nat_def digit_value_digit_char)
  next
    case False
    with 1 show ?thesis
      by (subst show_nat.simps) (simp add: read_nat_snoc digit_value_digit_char)
  qed
qed

lemma show_nat_inject: "show_nat m = show_nat n \<longleftrightarrow> m = n"
  by (metis read_show_nat)

end
