(* ===== verification/Protocol_Types.thy ===== *)
theory Protocol_Types
  imports Telemetry_Prelude
begin

unbundle bit_operations_syntax

text \<open>
  The data of the protocol core, from
  \<^verbatim>\<open>protocol/include/telemetry_protocol/protocol_types.hpp\<close>: the scoped enumerations with their
  underlying values, the sample, header and frame structures, and the layout constants of a
  version 1 frame.

  The enumerations \<open>ProtocolVersion\<close> and \<open>MessageType\<close> have one enumerator each. C++ lets a
  scoped enumeration with a fixed underlying type hold any value of that type; the code under
  \<^verbatim>\<open>src/\<close> only ever stores the enumerators, and the model has exactly those.
  A signed field is kept as its bit pattern (\<open>i32\<close>) and read with \<open>sint\<close>.
\<close>

subsection \<open>Enumerations\<close>

datatype ProtocolVersion = v1

datatype MessageType = telemetry_sample

datatype StatusFlag =
    SF_none
  | sensor_warning
  | voltage_warning
  | communication_warning
  | watchdog_event

definition version_value :: "ProtocolVersion \<Rightarrow> u8" where
  "version_value v = (case v of v1 \<Rightarrow> 1)"

definition message_type_value :: "MessageType \<Rightarrow> u8" where
  "message_type_value t = (case t of telemetry_sample \<Rightarrow> 1)"

fun flag_value :: "StatusFlag \<Rightarrow> u16" where
  "flag_value SF_none = 0"
| "flag_value sensor_warning = push_bit 0 1"
| "flag_value voltage_warning = push_bit 1 1"
| "flag_value communication_warning = push_bit 2 1"
| "flag_value watchdog_event = push_bit 3 1"

subsection \<open>Structures\<close>

record TelemetrySample =
  temperature_millicelsius :: i32
  pressure_pascal :: u32
  supply_millivolts :: u16
  status_flags :: u16

record FrameHeader =
  version :: ProtocolVersion
  message_type :: MessageType
  payload_size :: u16
  sequence :: u32
  timestamp_microseconds :: u64

record TelemetryFrame =
  header :: FrameHeader
  payload :: TelemetrySample

definition default_sample :: TelemetrySample where
  "default_sample = \<lparr>temperature_millicelsius = 0, pressure_pascal = 0,
     supply_millivolts = 0, status_flags = 0\<rparr>"

definition default_header :: FrameHeader where
  "default_header = \<lparr>version = v1, message_type = telemetry_sample, payload_size = 0,
     sequence = 0, timestamp_microseconds = 0\<rparr>"

definition default_frame :: TelemetryFrame where
  "default_frame = \<lparr>header = default_header, payload = default_sample\<rparr>"

subsection \<open>Layout constants\<close>

definition magic :: bytes where
  "magic = [0x54, 0x4C]"

definition magic_size :: nat where
  "magic_size = length magic"

definition header_size :: nat where
  "header_size = 18"

definition telemetry_payload_size :: u16 where
  "telemetry_payload_size = 12"

definition crc_size :: nat where
  "crc_size = 4"

definition frame_size :: nat where
  "frame_size = header_size + unat telemetry_payload_size + crc_size"

definition supported_version :: ProtocolVersion where
  "supported_version = v1"

definition supported_message_type :: MessageType where
  "supported_message_type = telemetry_sample"

definition version_offset :: nat where
  "version_offset = 2"

definition message_type_offset :: nat where
  "message_type_offset = 3"

definition payload_size_offset :: nat where
  "payload_size_offset = 4"

definition sequence_offset :: nat where
  "sequence_offset = 6"

definition timestamp_offset :: nat where
  "timestamp_offset = 10"

definition temperature_offset :: nat where
  "temperature_offset = 18"

definition pressure_offset :: nat where
  "pressure_offset = 22"

definition supply_voltage_offset :: nat where
  "supply_voltage_offset = 26"

definition status_flags_offset :: nat where
  "status_flags_offset = 28"

definition crc_offset :: nat where
  "crc_offset = 30"

subsection \<open>Facts about the layout\<close>

lemmas offset_defs =
  version_offset_def message_type_offset_def payload_size_offset_def sequence_offset_def
  timestamp_offset_def temperature_offset_def pressure_offset_def supply_voltage_offset_def
  status_flags_offset_def crc_offset_def

lemma frame_size_eq: "frame_size = 34"
  by (simp add: frame_size_def header_size_def telemetry_payload_size_def crc_size_def)

lemma crc_is_last: "crc_offset + crc_size = frame_size"
  by (simp add: crc_offset_def crc_size_def frame_size_eq)

lemma magic_size_eq: "magic_size = 2"
  by (simp add: magic_size_def magic_def)

lemmas layout_defs = offset_defs frame_size_eq magic_def telemetry_payload_size_def
  supported_version_def supported_message_type_def version_value_def message_type_value_def

lemma version_unique [simp]: "((v :: ProtocolVersion) = w) = True"
  by (cases v; cases w) simp

lemma message_type_unique [simp]: "((t :: MessageType) = u) = True"
  by (cases t; cases u) simp

lemma frame_eqI:
  assumes "payload_size (header f) = payload_size (header g)"
    and "sequence (header f) = sequence (header g)"
    and "timestamp_microseconds (header f) = timestamp_microseconds (header g)"
    and "payload f = payload g"
  shows "f = (g :: TelemetryFrame)"
  using assms by (cases f; cases g; cases "header f"; cases "header g") simp

end
