(* ===== verification/Kernel_Interface.thy ===== *)
theory Kernel_Interface
  imports Protocol_Types
begin

text \<open>
  The queue item of \<^verbatim>\<open>firmware/include/telemetry_firmware/firmware_types.hpp\<close> and the Zephyr
  kernel services that the firmware calls, which are not part of the repository: the message
  queue (\<^verbatim>\<open>k_msgq_put\<close>, \<^verbatim>\<open>k_msgq_get\<close>, \<^verbatim>\<open>k_msgq_purge\<close>, \<^verbatim>\<open>k_msgq_num_used_get\<close>) and the
  semaphores (\<^verbatim>\<open>k_sem_give\<close>, \<^verbatim>\<open>k_sem_take\<close>). They are records of functions, parameters of every
  definition that calls them. All calls use \<^verbatim>\<open>K_FOREVER\<close>: a call that waits is \<open>None\<close>; a call
  that ends returns the error code, 0 for success.

  The locale \<open>kernel_services\<close> is their documented behaviour: a message queue is a ring buffer
  of fixed capacity in first-in first-out order, a semaphore a counter up to its limit.
\<close>

subsection \<open>The queue item\<close>

datatype QueueItemKind = frame_item | end_of_stream

record TelemetryQueueItem =
  kind :: QueueItemKind
  item_bytes :: bytes

definition default_item :: TelemetryQueueItem where
  "default_item = \<lparr>kind = frame_item, item_bytes = replicate frame_size 0\<rparr>"

subsection \<open>The parameters\<close>

record ('q, 's) kernel_ops =
  k_msgq_purge :: "'q \<Rightarrow> 'q"
  k_msgq_put :: "TelemetryQueueItem \<Rightarrow> 'q \<Rightarrow> (int \<times> 'q) option"
  k_msgq_get :: "TelemetryQueueItem \<Rightarrow> 'q \<Rightarrow> (int \<times> TelemetryQueueItem \<times> 'q) option"
  k_msgq_num_used_get :: "'q \<Rightarrow> u32"
  k_sem_give :: "'s \<Rightarrow> 's"
  k_sem_take :: "'s \<Rightarrow> (int \<times> 's) option"

subsection \<open>The documented contract\<close>

locale kernel_services =
  fixes zephyr :: "('q, 's) kernel_ops"
    and messages :: "'q \<Rightarrow> TelemetryQueueItem list"
    and count :: "'s \<Rightarrow> nat"
    and max_msgs :: nat
    and limit :: nat
  assumes max_msgs_positive: "0 < max_msgs"
    and max_msgs_fits: "max_msgs < 2 ^ 32"
    and limit_positive: "0 < limit"
    and purge: "messages (k_msgq_purge zephyr q) = []"
    and put_room: "length (messages q) < max_msgs \<Longrightarrow>
      \<exists>q'. k_msgq_put zephyr item q = Some (0, q') \<and> messages q' = messages q @ [item]"
    and put_full: "max_msgs \<le> length (messages q) \<Longrightarrow> k_msgq_put zephyr item q = None"
    and get_message: "messages q = m # ms \<Longrightarrow>
      \<exists>q'. k_msgq_get zephyr item q = Some (0, m, q') \<and> messages q' = ms"
    and get_empty: "messages q = [] \<Longrightarrow> k_msgq_get zephyr item q = None"
    and num_used: "length (messages q) \<le> max_msgs \<Longrightarrow>
      k_msgq_num_used_get zephyr q = of_nat (length (messages q))"
    and give: "count (k_sem_give zephyr s) = min limit (count s + 1)"
    and take_available: "0 < count s \<Longrightarrow>
      \<exists>s'. k_sem_take zephyr s = Some (0, s') \<and> count s' = count s - 1"
    and take_waits: "count s = 0 \<Longrightarrow> k_sem_take zephyr s = None"

subsection \<open>Services that meet the contract\<close>

definition list_kernel :: "nat \<Rightarrow> nat \<Rightarrow> (TelemetryQueueItem list, nat) kernel_ops" where
  "list_kernel n l =
     \<lparr>k_msgq_purge = (\<lambda>q. []),
      k_msgq_put = (\<lambda>item q. if length q < n then Some (0, q @ [item]) else None),
      k_msgq_get = (\<lambda>item q. case q of [] \<Rightarrow> None | m # ms \<Rightarrow> Some (0, m, ms)),
      k_msgq_num_used_get = (\<lambda>q. of_nat (length q)),
      k_sem_give = (\<lambda>c. min l (c + 1)),
      k_sem_take = (\<lambda>c. if 0 < c then Some (0, c - 1) else None)\<rparr>"

lemma list_kernel_meets_contract:
  "0 < n \<Longrightarrow> n < 2 ^ 32 \<Longrightarrow> 0 < l \<Longrightarrow> kernel_services (list_kernel n l) (\<lambda>q. q) (\<lambda>c. c) n l"
  by unfold_locales (auto simp: list_kernel_def)

end
