(* ===== verification/Bounded_Channel.thy ===== *)
theory Bounded_Channel
  imports Telemetry_Prelude
begin

text \<open>
  The contract that the host's concurrent buffer and the firmware's message queue share while
  they are open: a bounded first-in first-out channel whose \<open>send\<close> waits when the channel is
  full and whose \<open>receive\<close> waits when it is empty. A call that waits is \<open>None\<close>: it is retried
  by a later step of its thread. \<open>items\<close> is the abstraction to the list of stored elements.
\<close>

locale bounded_channel =
  fixes send :: "'a \<Rightarrow> 'q \<Rightarrow> 'q option"
    and receive :: "'q \<Rightarrow> ('a \<times> 'q) option"
    and items :: "'q \<Rightarrow> 'a list"
    and capacity :: nat
    and valid :: "'q \<Rightarrow> bool"
  assumes capacity_positive: "0 < capacity"
    and send_room: "valid q \<Longrightarrow> length (items q) < capacity \<Longrightarrow>
      \<exists>q'. send x q = Some q' \<and> valid q' \<and> items q' = items q @ [x]"
    and send_full: "valid q \<Longrightarrow> capacity \<le> length (items q) \<Longrightarrow> send x q = None"
    and receive_item: "valid q \<Longrightarrow> items q = y # ys \<Longrightarrow>
      \<exists>q'. receive q = Some (y, q') \<and> valid q' \<and> items q' = ys"
    and receive_empty: "valid q \<Longrightarrow> items q = [] \<Longrightarrow> receive q = None"
begin

lemma send_SomeD:
  assumes "valid q" and "send x q = Some q'"
  shows "valid q' \<and> items q' = items q @ [x] \<and> length (items q) < capacity"
  using assms send_room [of q x] send_full [of q x] by (cases "length (items q) < capacity") auto

lemma receive_SomeD:
  assumes "valid q" and "receive q = Some (y, q')"
  shows "valid q' \<and> items q = y # items q'"
  using assms receive_item [of q] receive_empty [of q] by (cases "items q") auto

lemma send_blocks_iff: "valid q \<Longrightarrow> send x q = None \<longleftrightarrow> capacity \<le> length (items q)"
  using send_room [of q x] send_full [of q x] by (cases "length (items q) < capacity") auto

lemma receive_blocks_iff: "valid q \<Longrightarrow> receive q = None \<longleftrightarrow> items q = []"
  using receive_item [of q] receive_empty [of q] by (cases "items q") auto

lemma never_both_blocked: "valid q \<Longrightarrow> send x q \<noteq> None \<or> receive q \<noteq> None"
  using capacity_positive by (auto simp: send_blocks_iff receive_blocks_iff)

end

end
