(* ===== verification/Telemetry_Queue.thy ===== *)
theory Telemetry_Queue
  imports Kernel_Interface Bounded_Channel
begin

text \<open>
  \<^verbatim>\<open>TelemetryQueue\<close>, \<^verbatim>\<open>firmware/src/telemetry_queue.cpp\<close>, over the kernel's message queue. What
  its clients rely on is the contract \<open>bounded_channel\<close>: seen through its member functions, the
  queue is a bounded first-in first-out channel of frames (\<open>Some bytes\<close>) and end markers
  (\<open>None\<close>). The interpretation derives it from the kernel's contract.
\<close>

subsection \<open>The code\<close>

definition telemetry_queue_capacity :: nat where
  "telemetry_queue_capacity = 4"

definition construct_queue :: "('q, 's) kernel_ops \<Rightarrow> 'q \<Rightarrow> 'q" where
  "construct_queue zephyr q = k_msgq_purge zephyr q"

definition push_frame :: "('q, 's) kernel_ops \<Rightarrow> bytes \<Rightarrow> 'q \<Rightarrow> (bool \<times> 'q) option" where
  "push_frame zephyr fr q =
     (let item = \<lparr>kind = frame_item, item_bytes = fr\<rparr>
      in case k_msgq_put zephyr item q of None \<Rightarrow> None | Some (rc, q) \<Rightarrow> Some (rc = 0, q))"

definition push_end_of_stream :: "('q, 's) kernel_ops \<Rightarrow> 'q \<Rightarrow> (bool \<times> 'q) option" where
  "push_end_of_stream zephyr q =
     (let item = \<lparr>kind = end_of_stream, item_bytes = replicate frame_size 0\<rparr>
      in case k_msgq_put zephyr item q of None \<Rightarrow> None | Some (rc, q) \<Rightarrow> Some (rc = 0, q))"

definition pop_item :: "('q, 's) kernel_ops \<Rightarrow> TelemetryQueueItem \<Rightarrow> 'q \<Rightarrow>
    (bool \<times> TelemetryQueueItem \<times> 'q) option" where
  "pop_item zephyr item q =
     (case k_msgq_get zephyr item q of None \<Rightarrow> None | Some (rc, item, q) \<Rightarrow> Some (rc = 0, item, q))"

definition queue_empty :: "('q, 's) kernel_ops \<Rightarrow> 'q \<Rightarrow> bool" where
  "queue_empty zephyr q \<longleftrightarrow> k_msgq_num_used_get zephyr q = 0"

subsection \<open>The queue as a channel\<close>

definition signal_of :: "TelemetryQueueItem \<Rightarrow> bytes option" where
  "signal_of item = (case kind item of frame_item \<Rightarrow> Some (item_bytes item) | end_of_stream \<Rightarrow> None)"

definition queue_send :: "('q, 's) kernel_ops \<Rightarrow> bytes option \<Rightarrow> 'q \<Rightarrow> 'q option" where
  "queue_send zephyr signal q =
     (case (case signal of Some fr \<Rightarrow> push_frame zephyr fr q | None \<Rightarrow> push_end_of_stream zephyr q) of
        Some (True, q) \<Rightarrow> Some q | _ \<Rightarrow> None)"

definition queue_receive :: "('q, 's) kernel_ops \<Rightarrow> 'q \<Rightarrow> (bytes option \<times> 'q) option" where
  "queue_receive zephyr q =
     (case pop_item zephyr default_item q of
        Some (True, item, q) \<Rightarrow> Some (signal_of item, q) | _ \<Rightarrow> None)"

context kernel_services
begin

definition signals :: "'q \<Rightarrow> bytes option list" where
  "signals q = map signal_of (messages q)"

lemma push_frame_cases:
  "length (messages q) < max_msgs \<Longrightarrow>
    \<exists>q'. push_frame zephyr fr q = Some (True, q') \<and> signals q' = signals q @ [Some fr]"
  "max_msgs \<le> length (messages q) \<Longrightarrow> push_frame zephyr fr q = None"
  using put_room [of q "\<lparr>kind = frame_item, item_bytes = fr\<rparr>"]
  by (auto simp: push_frame_def put_full signals_def signal_of_def)

lemma push_end_cases:
  "length (messages q) < max_msgs \<Longrightarrow>
    \<exists>q'. push_end_of_stream zephyr q = Some (True, q') \<and> signals q' = signals q @ [None]"
  "max_msgs \<le> length (messages q) \<Longrightarrow> push_end_of_stream zephyr q = None"
  using put_room [of q "\<lparr>kind = end_of_stream, item_bytes = replicate frame_size 0\<rparr>"]
  by (auto simp: push_end_of_stream_def put_full signals_def signal_of_def)

lemma pop_item_cases:
  "signals q = x # xs \<Longrightarrow>
    \<exists>item q'. pop_item zephyr old q = Some (True, item, q') \<and> signal_of item = x \<and> signals q' = xs"
  "signals q = [] \<Longrightarrow> pop_item zephyr old q = None"
proof -
  assume "signals q = x # xs"
  then obtain m ms where m: "messages q = m # ms" "signal_of m = x" "map signal_of ms = xs"
    by (auto simp: signals_def)
  then obtain q' where "k_msgq_get zephyr old q = Some (0, m, q')" "messages q' = ms"
    using get_message by blast
  with m show "\<exists>item q'. pop_item zephyr old q = Some (True, item, q') \<and> signal_of item = x \<and> signals q' = xs"
    by (simp add: pop_item_def signals_def)
next
  assume "signals q = []"
  then show "pop_item zephyr old q = None" by (simp add: pop_item_def signals_def get_empty)
qed

lemma queue_empty_iff: "length (messages q) \<le> max_msgs \<Longrightarrow> queue_empty zephyr q \<longleftrightarrow> signals q = []"
proof -
  assume le: "length (messages q) \<le> max_msgs"
  then have "length (messages q) < 2 ^ 32" using max_msgs_fits by simp
  then have "(of_nat (length (messages q)) :: u32) = 0 \<longleftrightarrow> length (messages q) = 0"
    by (simp add: of_nat_eq_0_iff word_of_nat_eq_0_iff) (auto dest: dvd_imp_le)
  with le show ?thesis by (simp add: queue_empty_def num_used signals_def)
qed

lemma construct_empties: "signals (construct_queue zephyr q) = []"
  by (simp add: construct_queue_def signals_def purge)

end

sublocale kernel_services \<subseteq> channel: bounded_channel "queue_send zephyr" "queue_receive zephyr" signals
    max_msgs "\<lambda>_. True"
proof
  show "0 < max_msgs" by (rule max_msgs_positive)
next
  fix q x
  assume "length (signals q) < max_msgs"
  then have room: "length (messages q) < max_msgs" by (simp add: signals_def)
  show "\<exists>q'. queue_send zephyr x q = Some q' \<and> True \<and> signals q' = signals q @ [x]"
  proof (cases x)
    case None
    with push_end_cases(1) [OF room] show ?thesis by (auto simp: queue_send_def)
  next
    case (Some fr)
    with push_frame_cases(1) [OF room, of fr] show ?thesis by (auto simp: queue_send_def)
  qed
next
  fix q x
  assume "max_msgs \<le> length (signals q)"
  then have full: "max_msgs \<le> length (messages q)" by (simp add: signals_def)
  then show "queue_send zephyr x q = None"
    by (cases x) (simp_all add: queue_send_def push_frame_cases(2) push_end_cases(2))
next
  fix q y ys
  assume "signals q = y # ys"
  then show "\<exists>q'. queue_receive zephyr q = Some (y, q') \<and> True \<and> signals q' = ys"
    using pop_item_cases(1) [of q y ys default_item] by (auto simp: queue_receive_def)
next
  fix q
  assume "signals q = []"
  then show "queue_receive zephyr q = None"
    by (simp add: queue_receive_def pop_item_cases(2))
qed

context kernel_services
begin

lemma queue_contract:
  "bounded_channel (queue_send zephyr) (queue_receive zephyr) (\<lambda>q. map signal_of (messages q))
      max_msgs (\<lambda>_. True)
    \<and> map signal_of (messages (construct_queue zephyr q)) = []
    \<and> queue_empty zephyr (construct_queue zephyr q)"
  using channel.bounded_channel_axioms construct_empties [of q]
    queue_empty_iff [of "construct_queue zephyr q"]
  by (simp add: signals_def [abs_def])

end

interpretation firmware_queue: kernel_services "list_kernel telemetry_queue_capacity 1" "\<lambda>q. q" "\<lambda>c. c"
    telemetry_queue_capacity 1
  by (rule list_kernel_meets_contract) (simp_all add: telemetry_queue_capacity_def)

subsection \<open>Properties\<close>

text \<open>C39: the firmware's queue keeps its contract: over any kernel that meets its documentation,
  the member functions are a bounded first-in first-out channel of frames and end markers: a push
  stores at the back and succeeds while there is room and waits otherwise, a pop returns the front
  and waits on an empty queue, and construction leaves the queue empty.\<close>

theorem telemetry_queue_is_channel:
  assumes "kernel_services zephyr messages count n l"
  shows "bounded_channel (queue_send zephyr) (queue_receive zephyr)
      (\<lambda>q. map signal_of (messages q)) n (\<lambda>_. True)
    \<and> map signal_of (messages (construct_queue zephyr q)) = []
    \<and> queue_empty zephyr (construct_queue zephyr q)"
  by (rule kernel_services.queue_contract [OF assms])

theorem telemetry_queue_is_channel_witness:
  "bounded_channel (queue_send (list_kernel 4 1)) (queue_receive (list_kernel 4 1))
      (\<lambda>q. map signal_of q) 4 (\<lambda>_. True)
    \<and> map signal_of (construct_queue (list_kernel 4 1) [default_item]) = []
    \<and> queue_empty (list_kernel 4 1) (construct_queue (list_kernel 4 1) [default_item])"
  by (rule telemetry_queue_is_channel [OF list_kernel_meets_contract]) simp_all

end
