(* ===== verification/Sensor_Model.thy ===== *)
theory Sensor_Model
  imports Protocol_Types
begin

unbundle bit_operations_syntax

text \<open>
  The firmware's deterministic sensor, \<^verbatim>\<open>firmware/src/deterministic_sensor_model.cpp\<close>: the table
  of eight samples and the object that yields them one by one. \<open>next_frame\<close> is the member
  function \<^verbatim>\<open>next\<close>, which returns the frame and the updated object. The reference is
  \<open>sensor_frames\<close>, the table of \<^verbatim>\<open>docs/FIRMWARE.md\<close>.
\<close>

subsection \<open>The code\<close>

definition deterministic_sample_count :: nat where
  "deterministic_sample_count = 8"

definition initial_sequence :: u32 where
  "initial_sequence = 1000"

definition initial_timestamp_microseconds :: u64 where
  "initial_timestamp_microseconds = 1000000"

definition timestamp_increment_microseconds :: u64 where
  "timestamp_increment_microseconds = 250000"

definition combine_flags :: "StatusFlag \<Rightarrow> StatusFlag \<Rightarrow> u16" where
  "combine_flags first second = flag_value first OR flag_value second"

definition sample :: "i32 \<Rightarrow> u32 \<Rightarrow> u16 \<Rightarrow> u16 \<Rightarrow> TelemetrySample" where
  "sample t p v w = \<lparr>temperature_millicelsius = t, pressure_pascal = p, supply_millivolts = v,
     status_flags = w\<rparr>"

definition samples :: "TelemetrySample list" where
  "samples =
     [sample (- 5500) 98500 2900 (flag_value SF_none),
      sample 0 100000 3300 (flag_value sensor_warning),
      sample 12500 100800 3150 (flag_value voltage_warning),
      sample 23000 101325 3300 (flag_value communication_warning),
      sample 31500 102100 3250 (flag_value watchdog_event),
      sample 45000 99500 2800 (combine_flags sensor_warning voltage_warning),
      sample 18500 100500 3000 (combine_flags communication_warning watchdog_event),
      sample 27000 101800 3350 (flag_value SF_none)]"

record DeterministicSensorModel =
  next_index' :: nat

definition new_sensor_model :: DeterministicSensorModel where
  "new_sensor_model = \<lparr>next_index' = 0\<rparr>"

definition has_next :: "DeterministicSensorModel \<Rightarrow> bool" where
  "has_next s \<longleftrightarrow> next_index' s < length samples"

definition next_frame :: "DeterministicSensorModel \<Rightarrow> TelemetryFrame \<times> DeterministicSensorModel" where
  "next_frame s =
     (if \<not> has_next s then (default_frame, s)
      else
        let current_index = next_index' s;
            s = s\<lparr>next_index' := next_index' s + 1\<rparr>
        in (\<lparr>header =
               \<lparr>version = supported_version,
                message_type = supported_message_type,
                payload_size = telemetry_payload_size,
                sequence = initial_sequence + of_nat current_index,
                timestamp_microseconds = initial_timestamp_microseconds
                  + of_nat current_index * timestamp_increment_microseconds\<rparr>,
             payload = samples ! current_index\<rparr>, s))"

definition remaining :: "DeterministicSensorModel \<Rightarrow> nat" where
  "remaining s = length samples - next_index' s"

subsection \<open>The reference\<close>

text \<open>The rows of the documented table: sequence, timestamp, temperature, pressure, voltage, flags.\<close>

definition documented_rows :: "(nat \<times> nat \<times> int \<times> nat \<times> nat \<times> StatusFlag list) list" where
  "documented_rows =
     [(1000, 1000000, - 5500, 98500, 2900, []),
      (1001, 1250000, 0, 100000, 3300, [sensor_warning]),
      (1002, 1500000, 12500, 100800, 3150, [voltage_warning]),
      (1003, 1750000, 23000, 101325, 3300, [communication_warning]),
      (1004, 2000000, 31500, 102100, 3250, [watchdog_event]),
      (1005, 2250000, 45000, 99500, 2800, [sensor_warning, voltage_warning]),
      (1006, 2500000, 18500, 100500, 3000, [communication_warning, watchdog_event]),
      (1007, 2750000, 27000, 101800, 3350, [])]"

definition row_of :: "TelemetryFrame \<Rightarrow> nat \<times> nat \<times> int \<times> nat \<times> nat \<times> StatusFlag list" where
  "row_of f =
     (unat (sequence (header f)), unat (timestamp_microseconds (header f)),
      sint (temperature_millicelsius (payload f)), unat (pressure_pascal (payload f)),
      unat (supply_millivolts (payload f)),
      filter (\<lambda>flag. status_flags (payload f) AND flag_value flag \<noteq> 0)
        [sensor_warning, voltage_warning, communication_warning, watchdog_event])"

text \<open>Calling \<open>next_frame\<close> until the sensor has no next frame.\<close>

function drain :: "DeterministicSensorModel \<Rightarrow> TelemetryFrame list" where
  "drain s = (if has_next s then (case next_frame s of (f, s') \<Rightarrow> f # drain s') else [])"
  by pat_completeness auto

termination
  by (relation "measure remaining")
    (auto simp: remaining_def has_next_def next_frame_def Let_def split: prod.splits if_splits)

declare drain.simps [simp del]

definition sensor_frame :: "nat \<Rightarrow> TelemetryFrame" where
  "sensor_frame k = fst (next_frame \<lparr>next_index' = k\<rparr>)"

definition sensor_frames :: "TelemetryFrame list" where
  "sensor_frames = map sensor_frame [0..<deterministic_sample_count]"

subsection \<open>Lemmas\<close>

lemma length_samples: "length samples = deterministic_sample_count"
  by (simp add: samples_def deterministic_sample_count_def)

lemma has_next_iff: "has_next s \<longleftrightarrow> next_index' s < 8"
  by (simp add: has_next_def length_samples deterministic_sample_count_def)

lemma next_frame_eq:
  "next_index' s < 8 \<Longrightarrow> next_frame s = (sensor_frame (next_index' s), s\<lparr>next_index' := next_index' s + 1\<rparr>)"
  by (simp add: next_frame_def sensor_frame_def has_next_iff Let_def)

lemma length_sensor_frames [simp]: "length sensor_frames = 8"
  by (simp add: sensor_frames_def deterministic_sample_count_def)

lemma nth_sensor_frames: "k < 8 \<Longrightarrow> sensor_frames ! k = sensor_frame k"
  by (simp add: sensor_frames_def deterministic_sample_count_def)

lemma drain_from: "k \<le> 8 \<Longrightarrow> drain \<lparr>next_index' = k\<rparr> = drop k sensor_frames"
proof (induction "8 - k" arbitrary: k)
  case 0
  then show ?case by (subst drain.simps) (simp add: has_next_iff)
next
  case (Suc n)
  then have "k < 8" by simp
  moreover have "drain \<lparr>next_index' = k + 1\<rparr> = drop (k + 1) sensor_frames"
    using Suc by (intro Suc(1)) simp_all
  ultimately show ?case
    by (subst drain.simps)
      (simp add: has_next_iff next_frame_eq Cons_nth_drop_Suc [symmetric] nth_sensor_frames)
qed

lemma payload_size_sensor: "k < 8 \<Longrightarrow> payload_size (header (sensor_frame k)) = 12"
  by (simp add: sensor_frame_def next_frame_def has_next_iff telemetry_payload_size_def)

lemma rows_documented: "map row_of sensor_frames = documented_rows"
  by (simp add: sensor_frames_def deterministic_sample_count_def upt_rec row_of_def sensor_frame_def
      next_frame_def has_next_iff samples_def sample_def combine_flags_def documented_rows_def
      initial_sequence_def initial_timestamp_microseconds_def timestamp_increment_microseconds_def)

text \<open>\<open>remaining\<close> counts the frames still to come: in every state the sensor can be in, it is
  the number of frames that draining yields, and it is 0 exactly when there is no next frame.\<close>

lemma remaining_counts_frames:
  assumes "s = ((\<lambda>s. snd (next_frame s)) ^^ n) new_sensor_model"
  shows "remaining s = length (drain s) \<and> (remaining s = 0 \<longleftrightarrow> \<not> has_next s) \<and> remaining s = 8 - n"
proof -
  have "((\<lambda>s. snd (next_frame s)) ^^ n) new_sensor_model = \<lparr>next_index' = min n 8\<rparr>"
    by (induction n) (auto simp: new_sensor_model_def next_frame_def has_next_iff Let_def min_def)
  with assms show ?thesis
    using drain_from [of "min n 8"]
    by (auto simp: remaining_def has_next_iff length_samples deterministic_sample_count_def)
qed

subsection \<open>Properties\<close>

text \<open>The sensor yields exactly the documented table, in its order, and then has no next
  frame; asking again returns the default frame and changes nothing.\<close>

theorem sensor_yields_documented_table:
  "map row_of (drain new_sensor_model) = documented_rows
    \<and> next_frame \<lparr>next_index' = length (drain new_sensor_model)\<rparr>
      = (default_frame, \<lparr>next_index' = length (drain new_sensor_model)\<rparr>)"
  using drain_from [of 0] rows_documented
  by (simp add: new_sensor_model_def next_frame_def has_next_iff)

end
