(* ===== verification/Interleaving.thy ===== *)
theory Interleaving
  imports Telemetry_Prelude
begin

text \<open>
  Two threads update one object without a lock: in the host \<^verbatim>\<open>TelemetryMetrics\<close> (the ingesting
  thread and the consuming thread), in the firmware \<^verbatim>\<open>FirmwareMetrics\<close> (the producer and the
  transmitter). The contract that makes this sound is the locale \<open>independent_updates\<close>: an
  update of one thread commutes with an update of the other. Its consequence is that every
  interleaving of the two threads' updates ends in the same object. Both metrics theories
  interpret it on their own operations.
\<close>

subsection \<open>Interleaved runs\<close>

definition lefts :: "('e + 'd) list \<Rightarrow> 'e list" where
  "lefts zs = concat (map (\<lambda>z. case z of Inl e \<Rightarrow> [e] | Inr _ \<Rightarrow> []) zs)"

definition rights :: "('e + 'd) list \<Rightarrow> 'd list" where
  "rights zs = concat (map (\<lambda>z. case z of Inl _ \<Rightarrow> [] | Inr d \<Rightarrow> [d]) zs)"

fun run_interleaved ::
    "('e \<Rightarrow> 's \<Rightarrow> 's) \<Rightarrow> ('d \<Rightarrow> 's \<Rightarrow> 's) \<Rightarrow> ('e + 'd) list \<Rightarrow> 's \<Rightarrow> 's" where
  "run_interleaved f g [] s = s"
| "run_interleaved f g (Inl e # zs) s = run_interleaved f g zs (f e s)"
| "run_interleaved f g (Inr d # zs) s = run_interleaved f g zs (g d s)"

lemma lefts_simps [simp]:
  "lefts [] = []" "lefts (Inl e # zs) = e # lefts zs" "lefts (Inr d # zs) = lefts zs"
  by (simp_all add: lefts_def)

lemma rights_simps [simp]:
  "rights [] = []" "rights (Inl e # zs) = rights zs" "rights (Inr d # zs) = d # rights zs"
  by (simp_all add: rights_def)

subsection \<open>The contract\<close>

locale independent_updates =
  fixes f :: "'e \<Rightarrow> 's \<Rightarrow> 's"
    and g :: "'d \<Rightarrow> 's \<Rightarrow> 's"
  assumes commute: "f e (g d s) = g d (f e s)"
begin

lemma left_after_rights: "f e (fold g ds s) = fold g ds (f e s)"
  by (induction ds arbitrary: s) (simp_all add: commute)

lemma right_after_lefts: "g d (fold f es s) = fold f es (g d s)"
  by (induction es arbitrary: s) (simp_all add: commute [symmetric])

lemma folds_commute: "fold f es (fold g ds s) = fold g ds (fold f es s)"
  by (induction es arbitrary: s) (simp_all add: left_after_rights)

lemma interleaving_is_sequential:
  "run_interleaved f g zs s = fold g (rights zs) (fold f (lefts zs) s)"
proof (induction zs arbitrary: s)
  case Nil
  then show ?case by simp
next
  case (Cons z zs)
  then show ?case by (cases z) (simp_all add: right_after_lefts)
qed

end

end
