(* ===== verification/Firmware_Metrics.thy ===== *)
theory Firmware_Metrics
  imports Interleaving
begin

text \<open>
  The firmware's counters, \<^verbatim>\<open>firmware/src/firmware_metrics.cpp\<close>. The producer thread and the
  transmitter thread update one object without a lock; the increments are plain, so what makes
  the object right is that each thread has its own counters. That is the interpretation of
  \<open>independent_updates\<close> below.
\<close>

subsection \<open>The code\<close>

record FirmwareMetricsSnapshot =
  samples_generated :: u64
  frames_serialized :: u64
  frames_enqueued :: u64
  frames_transmitted :: u64
  queue_push_failures :: u64
  queue_pop_failures :: u64
  end_markers_sent :: u64
  end_markers_received :: u64

record FirmwareMetrics =
  values' :: FirmwareMetricsSnapshot

definition new_firmware_metrics :: FirmwareMetrics where
  "new_firmware_metrics = \<lparr>values' =
     \<lparr>samples_generated = 0, frames_serialized = 0, frames_enqueued = 0, frames_transmitted = 0,
      queue_push_failures = 0, queue_pop_failures = 0, end_markers_sent = 0,
      end_markers_received = 0\<rparr>\<rparr>"

definition record_sample_generated :: "FirmwareMetrics \<Rightarrow> FirmwareMetrics" where
  "record_sample_generated m =
     m\<lparr>values' := (values' m)\<lparr>samples_generated := samples_generated (values' m) + 1\<rparr>\<rparr>"

definition record_frame_serialized :: "FirmwareMetrics \<Rightarrow> FirmwareMetrics" where
  "record_frame_serialized m =
     m\<lparr>values' := (values' m)\<lparr>frames_serialized := frames_serialized (values' m) + 1\<rparr>\<rparr>"

definition record_frame_enqueued :: "FirmwareMetrics \<Rightarrow> FirmwareMetrics" where
  "record_frame_enqueued m =
     m\<lparr>values' := (values' m)\<lparr>frames_enqueued := frames_enqueued (values' m) + 1\<rparr>\<rparr>"

definition record_frame_transmitted :: "FirmwareMetrics \<Rightarrow> FirmwareMetrics" where
  "record_frame_transmitted m =
     m\<lparr>values' := (values' m)\<lparr>frames_transmitted := frames_transmitted (values' m) + 1\<rparr>\<rparr>"

definition record_queue_push_failure :: "FirmwareMetrics \<Rightarrow> FirmwareMetrics" where
  "record_queue_push_failure m =
     m\<lparr>values' := (values' m)\<lparr>queue_push_failures := queue_push_failures (values' m) + 1\<rparr>\<rparr>"

definition record_queue_pop_failure :: "FirmwareMetrics \<Rightarrow> FirmwareMetrics" where
  "record_queue_pop_failure m =
     m\<lparr>values' := (values' m)\<lparr>queue_pop_failures := queue_pop_failures (values' m) + 1\<rparr>\<rparr>"

definition record_end_marker_sent :: "FirmwareMetrics \<Rightarrow> FirmwareMetrics" where
  "record_end_marker_sent m =
     m\<lparr>values' := (values' m)\<lparr>end_markers_sent := end_markers_sent (values' m) + 1\<rparr>\<rparr>"

definition record_end_marker_received :: "FirmwareMetrics \<Rightarrow> FirmwareMetrics" where
  "record_end_marker_received m =
     m\<lparr>values' := (values' m)\<lparr>end_markers_received := end_markers_received (values' m) + 1\<rparr>\<rparr>"

definition firmware_snapshot :: "FirmwareMetrics \<Rightarrow> FirmwareMetricsSnapshot" where
  "firmware_snapshot m = values' m"

text \<open>What each thread calls, as events.\<close>

datatype ProducerEvent = Sample_generated | Frame_serialized | Frame_enqueued | Push_failed | End_sent

datatype TransmitterEvent = Frame_transmitted | Pop_failed | End_received

fun record_producer :: "ProducerEvent \<Rightarrow> FirmwareMetrics \<Rightarrow> FirmwareMetrics" where
  "record_producer Sample_generated m = record_sample_generated m"
| "record_producer Frame_serialized m = record_frame_serialized m"
| "record_producer Frame_enqueued m = record_frame_enqueued m"
| "record_producer Push_failed m = record_queue_push_failure m"
| "record_producer End_sent m = record_end_marker_sent m"

fun record_transmitter :: "TransmitterEvent \<Rightarrow> FirmwareMetrics \<Rightarrow> FirmwareMetrics" where
  "record_transmitter Frame_transmitted m = record_frame_transmitted m"
| "record_transmitter Pop_failed m = record_queue_pop_failure m"
| "record_transmitter End_received m = record_end_marker_received m"

subsection \<open>The two threads' updates are independent\<close>

lemmas firmware_record_defs = record_sample_generated_def record_frame_serialized_def
  record_frame_enqueued_def record_frame_transmitted_def record_queue_push_failure_def
  record_queue_pop_failure_def record_end_marker_sent_def record_end_marker_received_def

interpretation firmware_metrics: independent_updates record_producer record_transmitter
proof
  fix e d m
  show "record_producer e (record_transmitter d m) = record_transmitter d (record_producer e m)"
    by (cases e; cases d) (simp_all add: firmware_record_defs)
qed

text \<open>The snapshot as counts of events.\<close>

definition counts :: "ProducerEvent list \<Rightarrow> TransmitterEvent list \<Rightarrow> FirmwareMetricsSnapshot" where
  "counts es ds =
     \<lparr>samples_generated = of_nat (count_list es Sample_generated),
      frames_serialized = of_nat (count_list es Frame_serialized),
      frames_enqueued = of_nat (count_list es Frame_enqueued),
      frames_transmitted = of_nat (count_list ds Frame_transmitted),
      queue_push_failures = of_nat (count_list es Push_failed),
      queue_pop_failures = of_nat (count_list ds Pop_failed),
      end_markers_sent = of_nat (count_list es End_sent),
      end_markers_received = of_nat (count_list ds End_received)\<rparr>"

lemma values_producer: "values' (fold record_producer es new_firmware_metrics) = counts es []"
proof (induction es rule: rev_induct)
  case Nil
  then show ?case by (simp add: new_firmware_metrics_def counts_def)
next
  case (snoc e es)
  then show ?case by (cases e) (simp_all add: counts_def firmware_record_defs)
qed

lemma values_both:
  "values' (fold record_transmitter ds (fold record_producer es new_firmware_metrics)) = counts es ds"
proof (induction ds rule: rev_induct)
  case Nil
  then show ?case by (simp add: values_producer)
next
  case (snoc d ds)
  then show ?case by (cases d) (simp_all add: counts_def firmware_record_defs)
qed

subsection \<open>Properties\<close>

text \<open>The counters are exact under concurrency: whatever the interleaving of the producer's
  and the transmitter's updates, the snapshot counts each kind of event (modulo \<open>2 ^ 64\<close>).\<close>

theorem firmware_counters_exact:
  "firmware_snapshot (run_interleaved record_producer record_transmitter zs new_firmware_metrics)
    = counts (lefts zs) (rights zs)"
  by (simp add: firmware_snapshot_def firmware_metrics.interleaving_is_sequential values_both)

end
