(* ===== verification/Hex_Formatter.thy ===== *)
theory Hex_Formatter
  imports Protocol_Types "HOL-Library.Sublist"
begin

unbundle bit_operations_syntax

text \<open>
  \<^verbatim>\<open>HexFormatter::format\<close>, \<^verbatim>\<open>firmware/src/hex_formatter.cpp\<close>: a frame of 34 bytes as a
  NUL-terminated array of 69 characters. \<open>format_checked\<close> is the same loop over checked accesses.
  The reference is \<open>hex_text\<close>, two digits per byte, and \<open>hex_value\<close> reads it back.
\<close>

subsection \<open>The code\<close>

text \<open>A string literal: sixteen characters and the terminating NUL.\<close>

definition hexadecimal_digits :: string where
  "hexadecimal_digits = ''0123456789ABCDEF'' @ [CHR 0x00]"

definition hexadecimal_frame_length :: nat where
  "hexadecimal_frame_length = frame_size * 2"

definition format :: "bytes \<Rightarrow> string" where
  "format fr =
     (let output = replicate (hexadecimal_frame_length + 1) (CHR 0x00);
          output = foldl (\<lambda>output index.
              let byte = fr ! index;
                  output = output[index * 2 := hexadecimal_digits ! unat (drop_bit 4 byte)]
              in output[index * 2 + 1 := hexadecimal_digits ! unat (byte AND 0x0F)])
            output [0..<length fr]
      in output[hexadecimal_frame_length := CHR 0x00])"

definition checked_step :: "bytes \<Rightarrow> string option \<Rightarrow> nat \<Rightarrow> string option" where
  "checked_step fr state index = do {
     output \<leftarrow> state;
     byte \<leftarrow> index_at fr index;
     high \<leftarrow> index_at hexadecimal_digits (unat (drop_bit 4 byte));
     output \<leftarrow> store_at output (index * 2) high;
     low \<leftarrow> index_at hexadecimal_digits (unat (byte AND 0x0F));
     store_at output (index * 2 + 1) low
   }"

definition format_checked :: "bytes \<Rightarrow> string option" where
  "format_checked fr = do {
     output \<leftarrow> foldl (checked_step fr) (Some (replicate (hexadecimal_frame_length + 1) (CHR 0x00)))
       [0..<length fr];
     store_at output hexadecimal_frame_length (CHR 0x00)
   }"

subsection \<open>The reference\<close>

definition hex_digit :: "nat \<Rightarrow> char" where
  "hex_digit d = ''0123456789ABCDEF'' ! d"

definition hex_byte :: "u8 \<Rightarrow> string" where
  "hex_byte b = [hex_digit (unat b div 16), hex_digit (unat b mod 16)]"

definition hex_text :: "bytes \<Rightarrow> string" where
  "hex_text bs = concat (map hex_byte bs)"

definition is_hex_digit :: "char \<Rightarrow> bool" where
  "is_hex_digit c \<longleftrightarrow> c \<in> set ''0123456789ABCDEF''"

text \<open>What \<^verbatim>\<open>%s\<close> prints of a character array: the characters before the first NUL.\<close>

definition c_string :: "string \<Rightarrow> string" where
  "c_string s = takeWhile (\<lambda>c. c \<noteq> CHR 0x00) s"

definition hex_digit_value :: "char \<Rightarrow> nat" where
  "hex_digit_value c = (if c \<in> set ''0123456789'' then of_char c - 48 else of_char c - 55)"

fun hex_value :: "string \<Rightarrow> bytes" where
  "hex_value (h # l # s) = of_nat (16 * hex_digit_value h + hex_digit_value l) # hex_value s"
| "hex_value _ = []"

subsection \<open>Lemmas\<close>

lemma high_nibble: "unat (drop_bit 4 (b :: u8)) = unat b div 16"
  by (simp add: drop_bit_eq_div unat_div_distrib)

lemma low_nibble: "unat ((b :: u8) AND 0x0F) = unat b mod 16"
proof -
  have "b AND 0x0F = take_bit 4 b" by (simp only: take_bit_eq_mask mask_eq_exp_minus_1) simp
  then have "unat (b AND 0x0F) = take_bit 4 (unat b)" by (simp only: unsigned_take_bit_eq)
  then show ?thesis by (simp only: take_bit_eq_mod) simp
qed

lemma byte_bounds: "unat (b :: u8) div 16 < 16" "unat (b :: u8) mod 16 < 16"
proof -
  have "unat b < 2 ^ LENGTH(8)" by (rule unsigned_less)
  then have "unat b < 16 * 16" by simp
  then show "unat b div 16 < 16" by (rule less_mult_imp_div_less)
qed simp

lemma digits_prefix:
  assumes "d < 16"
  shows "hexadecimal_digits ! d = hex_digit d"
proof -
  have "d < length ''0123456789ABCDEF''" using assms by simp
  then show ?thesis unfolding hexadecimal_digits_def hex_digit_def by (rule nth_append_left)
qed

lemma length_digits [simp]: "length hexadecimal_digits = 17"
  by (simp add: hexadecimal_digits_def)

lemma nibble_digits:
  "hexadecimal_digits ! unat (drop_bit 4 b) = hex_digit (unat b div 16)"
  "hexadecimal_digits ! unat (b AND 0x0F) = hex_digit (unat (b :: u8) mod 16)"
  using byte_bounds [of b] by (simp_all add: high_nibble low_nibble digits_prefix)

lemma length_hex_text [simp]: "length (hex_text bs) = 2 * length bs"
  by (induction bs) (simp_all add: hex_text_def hex_byte_def)

lemma hex_text_snoc: "hex_text (bs @ [b]) = hex_text bs @ hex_byte b"
  by (simp add: hex_text_def)

definition format_step :: "bytes \<Rightarrow> string \<Rightarrow> nat \<Rightarrow> string" where
  "format_step fr output index =
     (output[index * 2 := hex_digit (unat (fr ! index) div 16)])
       [index * 2 + 1 := hex_digit (unat (fr ! index) mod 16)]"

lemma two_stores: "(x # y # ys)[0 := a, Suc 0 := b] = a # b # ys"
  by simp

lemma format_loop:
  assumes "n \<le> length fr" and "2 * length fr \<le> k"
  shows "foldl (format_step fr) (replicate k (CHR 0x00)) [0..<n]
    = hex_text (take n fr) @ replicate (k - 2 * n) (CHR 0x00)"
  using assms(1)
proof (induction n)
  case 0
  then show ?case by (simp add: hex_text_def)
next
  case (Suc n)
  have "replicate (k - 2 * n) (CHR 0x00)
      = CHR 0x00 # CHR 0x00 # replicate (k - 2 * Suc n) (CHR 0x00)"
    using Suc.prems assms(2)
    by (cases "k - 2 * n"; cases "k - 2 * n - 1") (auto simp flip: replicate_Suc)
  with Suc assms show ?case
    by (simp add: format_step_def list_update_append take_Suc_conv_app_nth hex_text_snoc hex_byte_def
        mult.commute)
qed

lemma format_eq:
  assumes "length fr = frame_size"
  shows "format fr = hex_text fr @ [CHR 0x00]"
proof -
  have "foldl (format_step fr) (replicate 69 (CHR 0x00)) [0..<34]
      = hex_text (take 34 fr) @ replicate (69 - 2 * 34) (CHR 0x00)"
    using assms by (intro format_loop) (simp_all add: frame_size_eq)
  then show ?thesis
    using assms
    by (simp add: format_def Let_def nibble_digits hexadecimal_frame_length_def frame_size_eq
        format_step_def [abs_def] list_update_append numeral_eq_Suc [of "num.One"])
qed

lemma hex_digit_cases:
  assumes "d < 16"
  shows "hex_digit_value (hex_digit d) = d" "is_hex_digit (hex_digit d)"
    "hex_digit d \<noteq> CHR 0x00"
proof -
  have "d = 0 \<or> d = 1 \<or> d = 2 \<or> d = 3 \<or> d = 4 \<or> d = 5 \<or> d = 6 \<or> d = 7 \<or> d = 8 \<or> d = 9
      \<or> d = 10 \<or> d = 11 \<or> d = 12 \<or> d = 13 \<or> d = 14 \<or> d = 15"
    using assms by arith
  then show "hex_digit_value (hex_digit d) = d" "is_hex_digit (hex_digit d)"
    "hex_digit d \<noteq> CHR 0x00"
    by (elim disjE; simp add: hex_digit_def hex_digit_value_def is_hex_digit_def)+
qed

lemma hex_value_text: "hex_value (hex_text bs) = bs"
proof (induction bs)
  case Nil
  then show ?case by (simp add: hex_text_def)
next
  case (Cons b bs)
  have "of_nat (16 * (unat b div 16) + unat b mod 16) = b"
    by (simp only: mult_div_mod_eq) simp
  with Cons show ?case
    using hex_digit_cases(1) [OF byte_bounds(1) [of b]] hex_digit_cases(1) [OF byte_bounds(2) [of b]]
    by (simp add: hex_text_def hex_byte_def del: of_nat_add of_nat_mult)
qed

lemma hex_text_digits: "c \<in> set (hex_text bs) \<Longrightarrow> is_hex_digit c \<and> c \<noteq> CHR 0x00"
  using hex_digit_cases(2,3) [OF byte_bounds(1)] hex_digit_cases(2,3) [OF byte_bounds(2)]
  by (auto simp: hex_text_def hex_byte_def)

lemma c_string_hex: "c_string (hex_text bs @ CHR 0x00 # r) = hex_text bs"
  unfolding c_string_def using hex_text_digits by (subst takeWhile_append2) auto

lemma hex_text_inject: "hex_text bs = hex_text bs' \<longleftrightarrow> bs = bs'"
  by (metis hex_value_text)

lemma checked_step_eq:
  assumes "n < length fr" and "2 * length fr \<le> length out"
  shows "checked_step fr (Some out) n = Some (format_step fr out n)"
proof -
  have nibbles: "unat (drop_bit 4 (fr ! n)) < 17" "unat (fr ! n AND 0x0F) < 17"
    using byte_bounds [of "fr ! n"] by (simp_all only: high_nibble low_nibble)
  with assms show ?thesis
    by (simp add: checked_step_def format_step_def nibble_digits)
qed

lemma format_loop_checked:
  assumes "n \<le> length fr" and "2 * length fr \<le> k"
  shows "foldl (checked_step fr) (Some (replicate k (CHR 0x00))) [0..<n]
    = Some (foldl (format_step fr) (replicate k (CHR 0x00)) [0..<n])"
  using assms(1)
proof (induction n)
  case 0
  then show ?case by simp
next
  case (Suc n)
  have "length (foldl (format_step fr) (replicate k (CHR 0x00)) [0..<n]) = k"
    using Suc.prems assms(2) by (simp add: format_loop)
  with Suc assms(2) show ?case by (simp add: checked_step_eq)
qed

lemma format_checked_eq:
  assumes "length fr = frame_size"
  shows "format_checked fr = Some (format fr)"
proof -
  have len: "length fr = 34" using assms by (simp add: frame_size_eq)
  have loop: "length (foldl (format_step fr) (replicate 69 (CHR 0x00)) [0..<34]) = 69"
    using len by (simp add: format_loop)
  have body: "(\<lambda>output index. let byte = fr ! index;
        output = output[index * 2 := hexadecimal_digits ! unat (drop_bit 4 byte)]
      in output[index * 2 + 1 := hexadecimal_digits ! unat (byte AND 0x0F)]) = format_step fr"
    by (simp add: format_step_def [abs_def] nibble_digits Let_def)
  show ?thesis
    unfolding format_checked_def format_def body
    using len loop
    by (simp add: hexadecimal_frame_length_def frame_size_eq format_loop_checked Let_def)
qed

subsection \<open>Properties\<close>

text \<open>C38: the hexadecimal text of a frame is right and loses nothing: for every 34 bytes the array
  is 68 upper-case digits and a NUL, and reading the printed string back gives the bytes.\<close>

theorem format_roundtrip:
  assumes "length fr = frame_size"
  shows "length (format fr) = hexadecimal_frame_length + 1
    \<and> length (c_string (format fr)) = hexadecimal_frame_length
    \<and> list_all is_hex_digit (c_string (format fr)) \<and> hex_value (c_string (format fr)) = fr"
proof -
  have "c_string (format fr) = hex_text fr"
    using format_eq [OF assms] c_string_hex [of fr "[]"] by simp
  then show ?thesis
    using assms hex_text_digits
    by (auto simp: format_eq hex_value_text hexadecimal_frame_length_def list_all_iff)
qed

theorem format_roundtrip_witness:
  "length (format (replicate 34 0xA5)) = hexadecimal_frame_length + 1
    \<and> length (c_string (format (replicate 34 0xA5))) = hexadecimal_frame_length
    \<and> list_all is_hex_digit (c_string (format (replicate 34 0xA5)))
    \<and> hex_value (c_string (format (replicate 34 0xA5))) = replicate 34 0xA5"
  by (rule format_roundtrip) (simp add: frame_size_eq)

text \<open>The formatter stays inside its arrays for every frame: the digit table, the frame and the
  69-character output.\<close>

theorem format_in_bounds:
  assumes "length fr = frame_size"
  shows "format_checked fr = Some (format fr)"
  using assms by (rule format_checked_eq)

theorem format_in_bounds_witness:
  "format_checked (replicate 34 0xA5) = Some (format (replicate 34 0xA5))"
  by (rule format_in_bounds) (simp add: frame_size_eq)

end
