(* ===== verification/Crc32.thy ===== *)
theory Crc32
  imports Protocol_Types
begin

unbundle bit_operations_syntax

text \<open>
  The checksum of the protocol, \<^verbatim>\<open>protocol/src/crc32.cpp\<close>: \<open>calculate_crc32\<close> is the code's
  bitwise loop. \<open>spec_crc32\<close> is the textbook register it stands for: most significant bit
  first, polynomial \<open>0x04C11DB7\<close>, input bytes and output reflected. The two agree on every
  input. The update is linear over xor and loses no information, which is what makes the
  checksum detect every corruption confined to four consecutive bytes.
\<close>

subsection \<open>The code\<close>

definition polynomial :: u32 where
  "polynomial = 0xEDB88320"

definition initial_value :: u32 where
  "initial_value = 0xFFFFFFFF"

definition final_xor :: u32 where
  "final_xor = 0xFFFFFFFF"

definition bits_per_byte :: nat where
  "bits_per_byte = 8"

definition crc_bit_step :: "u32 \<Rightarrow> u32" where
  "crc_bit_step crc =
     (let least_significant_bit = crc AND 1;
          mask = 0 - least_significant_bit
      in drop_bit 1 crc XOR (polynomial AND mask))"

definition crc_byte_step :: "u32 \<Rightarrow> u8 \<Rightarrow> u32" where
  "crc_byte_step crc byte = (crc_bit_step ^^ bits_per_byte) (crc XOR ucast byte)"

definition calculate_crc32 :: "bytes \<Rightarrow> u32" where
  "calculate_crc32 bs = foldl crc_byte_step initial_value bs XOR final_xor"

subsection \<open>The textbook register\<close>

definition spec_polynomial :: u32 where
  "spec_polynomial = 0x04C11DB7"

definition spec_bit_step :: "u32 \<Rightarrow> u32" where
  "spec_bit_step r = (if bit r 31 then push_bit 1 r XOR spec_polynomial else push_bit 1 r)"

definition spec_byte_step :: "u32 \<Rightarrow> u8 \<Rightarrow> u32" where
  "spec_byte_step r b = (spec_bit_step ^^ 8) (r XOR push_bit 24 (ucast (word_reverse b)))"

definition spec_crc32 :: "bytes \<Rightarrow> u32" where
  "spec_crc32 bs = word_reverse (foldl spec_byte_step 0xFFFFFFFF bs) XOR 0xFFFFFFFF"

subsection \<open>Updates that are linear over xor and lose nothing\<close>

locale xor_linear =
  fixes L :: "'a::len word \<Rightarrow> 'a word"
  assumes lin: "L (x XOR y) = L x XOR L y"
    and kernel: "L x = 0 \<Longrightarrow> x = 0"
begin

lemma at_zero: "L 0 = 0"
  using lin [of 0 0] by simp

lemma at_zero_iff: "L x = 0 \<longleftrightarrow> x = 0"
  using at_zero kernel by blast

lemma iterate_lin: "(L ^^ n) (x XOR y) = (L ^^ n) x XOR (L ^^ n) y"
  by (induction n) (simp_all add: lin)

lemma iterate_zero: "(L ^^ n) 0 = 0"
  by (induction n) (simp_all add: at_zero)

lemma iterate_kernel: "(L ^^ n) x = 0 \<Longrightarrow> x = 0"
  by (induction n) (auto dest: kernel)

end

lemma bit_polynomial: "bit polynomial 31" "\<not> bit polynomial 32"
  by (simp_all add: polynomial_def)

lemma crc_bit_step_eq:
  "crc_bit_step x = (if bit x 0 then drop_bit 1 x XOR polynomial else drop_bit 1 x)"
proof -
  have "x AND 1 = (if bit x 0 then 1 else 0)"
    by (simp add: and_one_eq mod_2_eq_odd bit_0)
  then show ?thesis by (simp add: crc_bit_step_def Let_def)
qed

interpretation crc_bit: xor_linear crc_bit_step
proof unfold_locales
  fix x y :: u32
  show "crc_bit_step (x XOR y) = crc_bit_step x XOR crc_bit_step y"
    by (rule bit_word_eqI) (auto simp: crc_bit_step_eq bit_simps)
next
  fix x :: u32
  assume step: "crc_bit_step x = 0"
  have "\<not> bit (crc_bit_step x) 31" using step by simp
  then have low: "\<not> bit x 0"
    by (auto simp: crc_bit_step_eq bit_simps bit_polynomial split: if_splits
        dest: bit_imp_le_length)
  with step have "drop_bit 1 x = 0" by (simp add: crc_bit_step_eq)
  then have "\<not> bit x (Suc n)" for n
    using bit_drop_bit_eq [of 1 x] by (simp add: fun_eq_iff)
  with low show "x = 0" by (metis bit_eqI bit_0_eq bot_apply not0_implies_Suc bot_bool_def)
qed

lemma reverse_drop_bit: "word_reverse (drop_bit k (x :: u32)) = push_bit k (word_reverse x)"
proof (rule bit_word_eqI)
  fix n assume n: "n < LENGTH(32)"
  show "bit (word_reverse (drop_bit k x)) n = bit (push_bit k (word_reverse x)) n"
  proof (cases "k \<le> n")
    case True
    with n have "k + (31 - n) = 31 - (n - k)" "n - k < 32" by simp_all
    with n True show ?thesis by (simp add: bit_word_reverse_iff bit_drop_bit_eq bit_push_bit_iff)
  next
    case False
    with n have "32 \<le> k + (31 - n)" by simp
    then have "\<not> bit x (k + (31 - n))" by (auto dest: bit_imp_le_length)
    with n False show ?thesis by (simp add: bit_word_reverse_iff bit_drop_bit_eq bit_push_bit_iff)
  qed
qed

lemma reverse_xor: "word_reverse (x XOR y) = word_reverse x XOR word_reverse (y :: u32)"
  by (rule bit_word_eqI) (auto simp: bit_simps)

lemma reverse_polynomial: "word_reverse polynomial = spec_polynomial"
  by (simp add: word_reverse_def polynomial_def spec_polynomial_def upt_rec)

lemma reverse_bit_step: "word_reverse (crc_bit_step x) = spec_bit_step (word_reverse x)"
  unfolding crc_bit_step_eq spec_bit_step_def
  by (simp only: bit_word_reverse_iff reverse_drop_bit reverse_xor reverse_polynomial
      if_distrib [of word_reverse]) simp

lemma reverse_ucast: "word_reverse (ucast (b :: u8) :: u32) = push_bit 24 (ucast (word_reverse b))"
proof (rule bit_word_eqI)
  fix n assume n: "n < LENGTH(32)"
  show "bit (word_reverse (ucast b :: u32)) n = bit (push_bit 24 (ucast (word_reverse b)) :: u32) n"
  proof (cases "24 \<le> n")
    case True
    with n have "7 - (n - 24) = 31 - n" "31 - n < 32" "n - 24 < 32" "n - 24 < 8" by simp_all
    with n True show ?thesis
      by (simp add: bit_word_reverse_iff bit_ucast_iff bit_push_bit_iff)
  next
    case False
    then have "\<not> bit b (31 - n)" by (auto dest: bit_imp_le_length)
    with n False show ?thesis
      by (simp add: bit_word_reverse_iff bit_ucast_iff bit_push_bit_iff)
  qed
qed

lemma reverse_iterate:
  "word_reverse ((crc_bit_step ^^ n) x) = (spec_bit_step ^^ n) (word_reverse x)"
  by (induction n) (simp_all add: reverse_bit_step)

lemma reverse_byte_step: "word_reverse (crc_byte_step s b) = spec_byte_step (word_reverse s) b"
  by (simp add: crc_byte_step_def spec_byte_step_def bits_per_byte_def reverse_iterate
      reverse_xor reverse_ucast)

lemma reverse_fold:
  "word_reverse (foldl crc_byte_step s bs) = foldl spec_byte_step (word_reverse s) bs"
  by (induction bs arbitrary: s) (simp_all add: reverse_byte_step)

subsection \<open>Corruption of at most four consecutive bytes\<close>

lemma step_push_bit: "\<not> bit y 31 \<Longrightarrow> crc_bit_step (push_bit 1 y) = y"
proof -
  assume top: "\<not> bit y 31"
  have "\<not> bit (push_bit 1 y) 0" by (simp only: bit_push_bit_iff) simp
  moreover have "drop_bit 1 (push_bit 1 y) = y"
  proof (rule bit_word_eqI)
    fix n assume "n < LENGTH(32)"
    with top show "bit (drop_bit 1 (push_bit 1 y)) n = bit y n"
      by (cases "n = 31") (simp_all only: bit_drop_bit_eq bit_push_bit_iff o_def, simp_all)
  qed
  ultimately show ?thesis by (simp only: crc_bit_step_eq if_False)
qed

lemma iterate_push_bit:
  "(\<And>k. 32 \<le> k + n \<Longrightarrow> \<not> bit y k) \<Longrightarrow> (crc_bit_step ^^ n) (push_bit n y) = y"
proof (induction n)
  case 0
  then show ?case by simp
next
  case (Suc n)
  have "\<not> bit (push_bit n y) 31"
    using Suc.prems [of "31 - n"] by (auto simp: bit_push_bit_iff)
  then have "crc_bit_step (push_bit (Suc n) y) = push_bit n y"
    using step_push_bit [of "push_bit n y"] by (simp only: push_bit_push_bit) simp
  with Suc show ?case by (simp add: funpow_Suc_right del: funpow.simps)
qed

lemma push_or_ucast: "push_bit 8 x OR ucast (b :: u8) = push_bit 8 x XOR (ucast b :: u32)"
  by (rule bit_word_eqI) (auto simp: bit_simps dest: bit_imp_le_length)

lemma be_decode_Cons:
  "(be_decode (b # bs) :: u32) = push_bit (8 * length bs) (ucast b) XOR be_decode bs"
proof (induction bs rule: rev_induct)
  case Nil
  then show ?case using be_decode_snoc [of "[]" b] by simp
next
  case (snoc c bs)
  then show ?case
    unfolding append_Cons [symmetric] be_decode_snoc push_or_ucast
    by (simp add: push_bit_xor xor.assoc)
qed

lemma fold_short:
  "length bs \<le> 4 \<Longrightarrow>
    foldl crc_byte_step s bs = (crc_bit_step ^^ (8 * length bs)) (s XOR be_decode (rev bs))"
proof (induction bs rule: rev_induct)
  case Nil
  then show ?case by simp
next
  case (snoc b bs)
  let ?n = "8 * length bs"
  have "\<not> bit (ucast b :: u32) k" if "32 \<le> k + ?n" for k
    using that snoc.prems by (auto simp: bit_ucast_iff dest: bit_imp_le_length)
  then have "ucast b = (crc_bit_step ^^ ?n) (push_bit ?n (ucast b))"
    by (simp add: iterate_push_bit)
  then have "(crc_bit_step ^^ ?n) (s XOR be_decode (rev bs)) XOR ucast b
      = (crc_bit_step ^^ ?n) (s XOR be_decode (rev (bs @ [b])))"
    by (simp add: crc_bit.iterate_lin be_decode_Cons xor.assoc xor.left_commute xor.commute)
  with snoc show ?case
    by (simp add: crc_byte_step_def bits_per_byte_def funpow_add)
qed

lemma fold_states:
  "foldl crc_byte_step s bs XOR foldl crc_byte_step t bs
    = (crc_bit_step ^^ (8 * length bs)) (s XOR t)"
proof (induction bs arbitrary: s t)
  case Nil
  then show ?case by simp
next
  case (Cons b bs)
  have "crc_byte_step s b XOR crc_byte_step t b = (crc_bit_step ^^ 8) (s XOR t)"
    unfolding crc_byte_step_def bits_per_byte_def crc_bit.iterate_lin [symmetric]
    by (simp add: xor.assoc xor.left_commute xor.commute [of t])
  with Cons show ?case by (simp add: add.commute [of 8] flip: funpow_add [THEN fun_cong, simplified])
qed

lemma fold_burst:
  assumes "length mid' = length mid" "length mid \<le> 4" "mid \<noteq> mid'"
  shows "foldl crc_byte_step s (mid @ post) \<noteq> foldl crc_byte_step s (mid' @ post)"
proof
  assume same: "foldl crc_byte_step s (mid @ post) = foldl crc_byte_step s (mid' @ post)"
  then have "(crc_bit_step ^^ (8 * length post))
      (foldl crc_byte_step s mid XOR foldl crc_byte_step s mid') = 0"
    by (simp flip: fold_states)
  then have "foldl crc_byte_step s mid = foldl crc_byte_step s mid'"
    using crc_bit.iterate_kernel xor_eq_0_iff by blast
  then have "(crc_bit_step ^^ (8 * length mid))
      (be_decode (rev mid) XOR be_decode (rev mid')) = 0"
    using assms by (simp add: fold_short crc_bit.iterate_lin xor_eq_0_iff)
  then have "be_decode (rev mid) = (be_decode (rev mid') :: u32)"
    using crc_bit.iterate_kernel xor_eq_0_iff by blast
  then have "rev mid = rev mid'"
    using assms be_encode_decode [of "rev mid", where 'a = 32]
      be_encode_decode [of "rev mid'", where 'a = 32] by simp
  with assms show False by simp
qed

lemma crc_burst_append:
  assumes "length mid' = length mid" "length mid \<le> 4" "mid \<noteq> mid'"
  shows "calculate_crc32 (pre @ mid @ post) \<noteq> calculate_crc32 (pre @ mid' @ post)"
  using fold_burst [OF assms, of "foldl crc_byte_step initial_value pre" post]
  by (simp add: calculate_crc32_def)

lemma crc_burst_window:
  assumes "length xs = length ys"
    and "\<forall>i < length xs. i < start \<or> start + 4 \<le> i \<longrightarrow> xs ! i = ys ! i"
    and "xs \<noteq> ys"
  shows "calculate_crc32 xs \<noteq> calculate_crc32 ys"
proof -
  let ?mid = "\<lambda>zs :: bytes. take 4 (drop start zs)"
  have pre: "take start xs = take start ys"
    using assms by (intro nth_equalityI) auto
  have post: "drop (start + 4) xs = drop (start + 4) ys"
    using assms by (intro nth_equalityI) auto
  have parts: "zs = take start zs @ ?mid zs @ drop (start + 4) zs" for zs :: bytes
    by (metis append_take_drop_id drop_drop add.commute)
  have "?mid xs \<noteq> ?mid ys"
    using parts [of xs] parts [of ys] pre post assms(3) by metis
  then have "calculate_crc32 (take start xs @ ?mid xs @ drop (start + 4) xs)
      \<noteq> calculate_crc32 (take start xs @ ?mid ys @ drop (start + 4) xs)"
    using assms(1) by (intro crc_burst_append) auto
  then show ?thesis using parts [of xs] parts [of ys] pre post by metis
qed

lemma crc_byte_step_unfold:
  "crc_byte_step s b =
    crc_bit_step (crc_bit_step (crc_bit_step (crc_bit_step
      (crc_bit_step (crc_bit_step (crc_bit_step (crc_bit_step (s XOR ucast b))))))))"
  by (simp add: crc_byte_step_def bits_per_byte_def eval_nat_numeral)

lemma crc32_check_vector:
  "calculate_crc32 (map of_char ''123456789'') = 0xCBF43926"
  by (simp add: calculate_crc32_def crc_byte_step_unfold crc_bit_step_eq
      initial_value_def final_xor_def polynomial_def)

subsection \<open>Properties\<close>

text \<open>C6: the bitwise loop of \<^verbatim>\<open>calculate_crc32\<close> computes, on every input, the textbook
  CRC-32: a most-significant-bit-first register with polynomial 0x04C11DB7, all-ones start,
  reflected input bytes, reflected output and a final complement.\<close>

theorem crc32_matches_textbook: "calculate_crc32 bs = spec_crc32 bs"
proof -
  have "word_reverse (0xFFFFFFFF :: u32) = 0xFFFFFFFF"
    by (simp add: word_reverse_def upt_rec)
  then have "foldl crc_byte_step initial_value bs = word_reverse (foldl spec_byte_step 0xFFFFFFFF bs)"
    using reverse_fold [of initial_value bs]
    by (metis initial_value_def word_rev_rev)
  then show ?thesis by (simp add: calculate_crc32_def spec_crc32_def final_xor_def)
qed

text \<open>C12: two messages of the same length that differ, and differ only within four consecutive
  bytes, have different checksums: every burst of at most 32 bits that starts on a byte is
  detected, at any position and for any message length.\<close>

theorem crc32_detects_burst:
  assumes "length xs = length ys"
    and "\<forall>i < length xs. i < start \<or> start + 4 \<le> i \<longrightarrow> xs ! i = ys ! i"
    and "xs \<noteq> ys"
  shows "calculate_crc32 xs \<noteq> calculate_crc32 ys"
  using assms by (rule crc_burst_window)

theorem crc32_detects_burst_witness:
  "calculate_crc32 [1, 2, 3, 4, 5, 6, 7] \<noteq> calculate_crc32 [1, 0, 3, 9, 4, 6, 7]"
  by (rule crc32_detects_burst [where start = 1]) (auto simp: less_Suc_eq numeral_eq_Suc)

end
