(* ===== verification/Serializer.thy ===== *)
theory Serializer
  imports Crc32
begin

unbundle bit_operations_syntax

text \<open>
  The frame encoder, \<^verbatim>\<open>protocol/src/serializer.cpp\<close>. The three field writers store into the
  output array at an offset, byte by byte as the code does, and \<open>serialize\<close> calls them in the
  code's order. The second half has the same writers over checked stores, where an index out of
  range is \<open>None\<close>. The reference is \<open>frame_layout\<close>, the table of \<^verbatim>\<open>docs/PROTOCOL.md\<close> as a
  concatenation of big-endian fields.
\<close>

subsection \<open>The code\<close>

definition byte_mask :: u32 where
  "byte_mask = 0xFF"

definition write_u16 :: "bytes \<Rightarrow> nat \<Rightarrow> u16 \<Rightarrow> bytes" where
  "write_u16 out off value =
     (let out = out[off := ucast (drop_bit 8 (ucast value) AND byte_mask)]
      in out[off + 1 := ucast (ucast value AND byte_mask)])"

definition write_u32 :: "bytes \<Rightarrow> nat \<Rightarrow> u32 \<Rightarrow> bytes" where
  "write_u32 out off value =
     (let out = out[off := ucast (drop_bit 24 value AND byte_mask)];
          out = out[off + 1 := ucast (drop_bit 16 value AND byte_mask)];
          out = out[off + 2 := ucast (drop_bit 8 value AND byte_mask)]
      in out[off + 3 := ucast (value AND byte_mask)])"

definition write_u64 :: "bytes \<Rightarrow> nat \<Rightarrow> u64 \<Rightarrow> bytes" where
  "write_u64 out off value =
     foldl (\<lambda>out index.
         let shift = (8 - 1 - index) * 8
         in out[off + index := ucast (drop_bit shift value AND ucast byte_mask)])
       out [0..<8]"

definition serialize :: "TelemetryFrame \<Rightarrow> bytes" where
  "serialize f =
     (let out = replicate frame_size 0;
          out = out[0 := magic ! 0];
          out = out[1 := magic ! 1];
          out = out[version_offset := version_value (version (header f))];
          out = out[message_type_offset := message_type_value (message_type (header f))];
          out = write_u16 out payload_size_offset telemetry_payload_size;
          out = write_u32 out sequence_offset (sequence (header f));
          out = write_u64 out timestamp_offset (timestamp_microseconds (header f));
          out = write_u32 out temperature_offset (temperature_millicelsius (payload f));
          out = write_u32 out pressure_offset (pressure_pascal (payload f));
          out = write_u16 out supply_voltage_offset (supply_millivolts (payload f));
          out = write_u16 out status_flags_offset (status_flags (payload f));
          crc = calculate_crc32 (take crc_offset out)
      in write_u32 out crc_offset crc)"

subsection \<open>The code over checked stores\<close>

definition write_u16_checked :: "bytes \<Rightarrow> nat \<Rightarrow> u16 \<Rightarrow> bytes option" where
  "write_u16_checked out off value = do {
     out \<leftarrow> store_at out off (ucast (drop_bit 8 (ucast value) AND byte_mask));
     store_at out (off + 1) (ucast (ucast value AND byte_mask))
   }"

definition write_u32_checked :: "bytes \<Rightarrow> nat \<Rightarrow> u32 \<Rightarrow> bytes option" where
  "write_u32_checked out off value = do {
     out \<leftarrow> store_at out off (ucast (drop_bit 24 value AND byte_mask));
     out \<leftarrow> store_at out (off + 1) (ucast (drop_bit 16 value AND byte_mask));
     out \<leftarrow> store_at out (off + 2) (ucast (drop_bit 8 value AND byte_mask));
     store_at out (off + 3) (ucast (value AND byte_mask))
   }"

definition write_u64_checked :: "bytes \<Rightarrow> nat \<Rightarrow> u64 \<Rightarrow> bytes option" where
  "write_u64_checked out off value =
     foldl (\<lambda>state index. do {
         out \<leftarrow> state;
         let shift = (8 - 1 - index) * 8;
         store_at out (off + index) (ucast (drop_bit shift value AND ucast byte_mask))
       })
       (Some out) [0..<8]"

definition serialize_checked :: "TelemetryFrame \<Rightarrow> bytes option" where
  "serialize_checked f = do {
     let out = replicate frame_size 0;
     m0 \<leftarrow> index_at magic 0;
     out \<leftarrow> store_at out 0 m0;
     m1 \<leftarrow> index_at magic 1;
     out \<leftarrow> store_at out 1 m1;
     out \<leftarrow> store_at out version_offset (version_value (version (header f)));
     out \<leftarrow> store_at out message_type_offset (message_type_value (message_type (header f)));
     out \<leftarrow> write_u16_checked out payload_size_offset telemetry_payload_size;
     out \<leftarrow> write_u32_checked out sequence_offset (sequence (header f));
     out \<leftarrow> write_u64_checked out timestamp_offset (timestamp_microseconds (header f));
     out \<leftarrow> write_u32_checked out temperature_offset (temperature_millicelsius (payload f));
     out \<leftarrow> write_u32_checked out pressure_offset (pressure_pascal (payload f));
     out \<leftarrow> write_u16_checked out supply_voltage_offset (supply_millivolts (payload f));
     out \<leftarrow> write_u16_checked out status_flags_offset (status_flags (payload f));
     covered \<leftarrow> (if crc_offset \<le> length out then Some (take crc_offset out) else None);
     write_u32_checked out crc_offset (calculate_crc32 covered)
   }"

subsection \<open>The documented layout\<close>

definition covered_layout :: "TelemetryFrame \<Rightarrow> bytes" where
  "covered_layout f =
     [0x54, 0x4C] @ [1] @ [1] @ be_encode 2 (12 :: u16)
     @ be_encode 4 (sequence (header f))
     @ be_encode 8 (timestamp_microseconds (header f))
     @ be_encode 4 (temperature_millicelsius (payload f))
     @ be_encode 4 (pressure_pascal (payload f))
     @ be_encode 2 (supply_millivolts (payload f))
     @ be_encode 2 (status_flags (payload f))"

definition frame_layout :: "TelemetryFrame \<Rightarrow> bytes" where
  "frame_layout f = covered_layout f @ be_encode 4 (calculate_crc32 (covered_layout f))"

subsection \<open>The writers store big-endian fields\<close>

lemma byte_mask_u64: "ucast (v AND ucast byte_mask :: u64) = (ucast v :: u8)"
  by (simp add: byte_mask_def word_norm)

lemma byte_mask_u32: "ucast (v AND byte_mask) = (ucast v :: u8)"
  by (simp add: byte_mask_def word_norm)

lemma be_encode_u16: "be_encode 2 (v :: u16) = [ucast (drop_bit 8 v), ucast v]"
  by (simp add: be_encode_def upt_rec)

lemma be_encode_u32:
  "be_encode 4 (v :: u32) = [ucast (drop_bit 24 v), ucast (drop_bit 16 v), ucast (drop_bit 8 v), ucast v]"
  by (simp add: be_encode_def upt_rec)

lemma be_encode_u64:
  "be_encode 8 (v :: u64) =
    [ucast (drop_bit 56 v), ucast (drop_bit 48 v), ucast (drop_bit 40 v), ucast (drop_bit 32 v),
     ucast (drop_bit 24 v), ucast (drop_bit 16 v), ucast (drop_bit 8 v), ucast v]"
  by (simp add: be_encode_def upt_rec)

lemma length_write [simp]:
  "length (write_u16 out off v16) = length out"
  "length (write_u32 out off v32) = length out"
  "length (write_u64 out off v64) = length out"
  by (simp_all add: write_u16_def write_u32_def write_u64_def Let_def upt_rec)

lemma length_serialize [simp]: "length (serialize f) = frame_size"
  by (simp add: serialize_def Let_def)

lemma write_u16_append:
  "length pre = off \<Longrightarrow> length mid = 2 \<Longrightarrow>
    write_u16 (pre @ mid @ post) off v = pre @ be_encode 2 v @ post"
  by (auto simp: write_u16_def Let_def be_encode_u16 byte_mask_u32 word_norm length_2_conv
      list_update_append)

lemma write_u32_append:
  "length pre = off \<Longrightarrow> length mid = 4 \<Longrightarrow>
    write_u32 (pre @ mid @ post) off v = pre @ be_encode 4 v @ post"
  by (auto simp: write_u32_def Let_def be_encode_u32 byte_mask_u32 length_4_conv
      list_update_append)

lemma write_u64_append:
  "length pre = off \<Longrightarrow> length mid = 8 \<Longrightarrow>
    write_u64 (pre @ mid @ post) off v = pre @ be_encode 8 v @ post"
  by (auto simp: write_u64_def Let_def be_encode_u64 byte_mask_u64 length_8_conv upt_rec
      list_update_append)

lemma replicate_split: "m \<le> n \<Longrightarrow> replicate n x = replicate m x @ replicate (n - m) x"
  by (simp add: replicate_add [symmetric])

lemma write_u16_zeros:
  "length pre = off \<Longrightarrow> 2 \<le> n \<Longrightarrow>
    write_u16 (pre @ replicate n 0) off v = (pre @ be_encode 2 v) @ replicate (n - 2) 0"
  by (simp add: replicate_split [of 2 n] write_u16_append)

lemma write_u32_zeros:
  "length pre = off \<Longrightarrow> 4 \<le> n \<Longrightarrow>
    write_u32 (pre @ replicate n 0) off v = (pre @ be_encode 4 v) @ replicate (n - 4) 0"
  by (simp add: replicate_split [of 4 n] write_u32_append)

lemma write_u64_zeros:
  "length pre = off \<Longrightarrow> 8 \<le> n \<Longrightarrow>
    write_u64 (pre @ replicate n 0) off v = (pre @ be_encode 8 v) @ replicate (n - 8) 0"
  by (simp add: replicate_split [of 8 n] write_u64_append)

lemmas write_zeros = write_u16_zeros write_u32_zeros write_u64_zeros

lemma store_zeros:
  "length pre = off \<Longrightarrow> 1 \<le> n \<Longrightarrow>
    (pre @ replicate n 0)[off := v] = (pre @ [v]) @ replicate (n - 1) 0"
  by (cases n) (simp_all add: list_update_append)

lemma covered_written:
  "(let out = replicate frame_size 0;
        out = out[0 := magic ! 0];
        out = out[1 := magic ! 1];
        out = out[version_offset := version_value (version (header f))];
        out = out[message_type_offset := message_type_value (message_type (header f))];
        out = write_u16 out payload_size_offset telemetry_payload_size;
        out = write_u32 out sequence_offset (sequence (header f));
        out = write_u64 out timestamp_offset (timestamp_microseconds (header f));
        out = write_u32 out temperature_offset (temperature_millicelsius (payload f));
        out = write_u32 out pressure_offset (pressure_pascal (payload f));
        out = write_u16 out supply_voltage_offset (supply_millivolts (payload f))
    in write_u16 out status_flags_offset (status_flags (payload f)))
   = covered_layout f @ replicate 4 0"
proof -
  have start: "replicate frame_size 0 = [] @ replicate 34 (0 :: u8)"
    by (simp add: frame_size_eq)
  show ?thesis
    unfolding Let_def start covered_layout_def
    by (subst store_zeros write_zeros, simp add: layout_defs, simp)+
      (simp add: layout_defs split: ProtocolVersion.split MessageType.split)
qed
lemma length_covered_layout [simp]: "length (covered_layout f) = 30"
  by (simp add: covered_layout_def)

lemma length_frame_layout [simp]: "length (frame_layout f) = 34"
  by (simp add: frame_layout_def)

lemma write_u16_checked_eq:
  "off + 2 \<le> length out \<Longrightarrow> write_u16_checked out off v = Some (write_u16 out off v)"
  by (simp add: write_u16_checked_def write_u16_def Let_def)

lemma write_u32_checked_eq:
  "off + 4 \<le> length out \<Longrightarrow> write_u32_checked out off v = Some (write_u32 out off v)"
  by (simp add: write_u32_checked_def write_u32_def Let_def)

lemma write_u64_checked_eq:
  "off + 8 \<le> length out \<Longrightarrow> write_u64_checked out off v = Some (write_u64 out off v)"
  by (simp add: write_u64_checked_def write_u64_def Let_def upt_rec)

lemma serialize_eq_layout: "serialize f = frame_layout f"
proof -
  have "serialize f = (let out = covered_layout f @ replicate 4 0;
      crc = calculate_crc32 (take crc_offset out) in write_u32 out crc_offset crc)"
    unfolding serialize_def covered_written [symmetric] by (simp only: Let_def)
  then show ?thesis
    by (simp add: frame_layout_def layout_defs write_u32_zeros)
qed

subsection \<open>Properties\<close>

text \<open>C30: the encoder writes exactly the 34 bytes of the documented layout: every field at its
  offset, big-endian, and the checksum of bytes 0 to 29 at the end.\<close>

theorem serialize_layout: "serialize f = frame_layout f"
  by (rule serialize_eq_layout)

text \<open>The encoder never stores or reads outside its arrays: the checked encoder, in which such
  an access is \<open>None\<close>, always returns the encoder's result.\<close>

theorem serialize_in_bounds: "serialize_checked f = Some (serialize f)"
  unfolding serialize_checked_def serialize_def Let_def
  by (simp add: layout_defs write_u16_checked_eq write_u32_checked_eq write_u64_checked_eq
      del: length_serialize)

end
