(* ===== verification/Step_System.thy ===== *)
theory Step_System
  imports Main
begin

text \<open>
  The contract under which the two multithreaded programs are verified, the host pipeline and
  the firmware: a step relation with an invariant, a measure that every step of a state with the
  invariant decreases, and progress (a state with the invariant that cannot step is final). Its
  consequences hold for every schedule: reachable states satisfy the invariant, no run is longer
  than the initial measure, a reachable state without a successor is final, and a final state
  can always be reached.
\<close>

text \<open>A scheduler: a function that chooses one of the steps; its run is the loop that applies it
  until it has none.\<close>

partial_function (option) run_until_idle :: "('s \<Rightarrow> 's option) \<Rightarrow> 's \<Rightarrow> 's option" where
  "run_until_idle f s = (case f s of None \<Rightarrow> Some s | Some t \<Rightarrow> run_until_idle f t)"

locale step_system =
  fixes step :: "'s \<Rightarrow> 's \<Rightarrow> bool"
    and start :: 's
    and inv :: "'s \<Rightarrow> bool"
    and bound :: "'s \<Rightarrow> nat"
    and final :: "'s \<Rightarrow> bool"
  assumes inv_start: "inv start"
    and inv_step: "inv s \<Longrightarrow> step s t \<Longrightarrow> inv t"
    and decrease: "inv s \<Longrightarrow> step s t \<Longrightarrow> bound t < bound s"
    and progress: "inv s \<Longrightarrow> \<not> final s \<Longrightarrow> \<exists>t. step s t"
begin

lemma inv_steps: "step\<^sup>*\<^sup>* s t \<Longrightarrow> inv s \<Longrightarrow> inv t"
  by (induction rule: rtranclp_induct) (auto intro: inv_step)

lemma reachable_inv: "step\<^sup>*\<^sup>* start s \<Longrightarrow> inv s"
  by (rule inv_steps [OF _ inv_start])

lemma steps_measured: "(step ^^ n) s t \<Longrightarrow> inv s \<Longrightarrow> inv t \<and> n + bound t \<le> bound s"
proof (induction n arbitrary: t)
  case 0
  then show ?case by simp
next
  case (Suc n)
  then obtain u where u: "(step ^^ n) s u" "step u t" by auto
  with Suc have "inv u" "n + bound u \<le> bound s" by auto
  with u(2) show ?case using inv_step [of u t] decrease [of u t] by simp
qed

lemma run_bounded: "(step ^^ n) start s \<Longrightarrow> n \<le> bound start"
  using steps_measured [OF _ inv_start] by fastforce

lemma stuck_is_final: "step\<^sup>*\<^sup>* start s \<Longrightarrow> (\<nexists>t. step s t) \<Longrightarrow> final s"
  using progress reachable_inv by blast

lemma reaches_final: "step\<^sup>*\<^sup>* start s \<Longrightarrow> \<exists>t. step\<^sup>*\<^sup>* s t \<and> step\<^sup>*\<^sup>* start t \<and> final t"
proof (induction "bound s" arbitrary: s rule: less_induct)
  case less
  show ?case
  proof (cases "final s")
    case True
    with less show ?thesis by blast
  next
    case False
    with less obtain t where t: "step s t" using progress reachable_inv by blast
    moreover have "bound t < bound s" using t less(2) decrease reachable_inv by blast
    moreover have "step\<^sup>*\<^sup>* start t" using t less(2) by simp
    ultimately obtain u where "step\<^sup>*\<^sup>* t u" "step\<^sup>*\<^sup>* start u" "final u" using less(1) by blast
    with t show ?thesis by (meson converse_rtranclp_into_rtranclp)
  qed
qed

lemma reaches_stuck: "step\<^sup>*\<^sup>* start s \<Longrightarrow> \<exists>t. step\<^sup>*\<^sup>* s t \<and> (\<nexists>u. step t u)"
proof (induction "bound s" arbitrary: s rule: less_induct)
  case less
  show ?case
  proof (cases "\<exists>t. step s t")
    case True
    then obtain t where t: "step s t" by blast
    with less(2) have "bound t < bound s" "step\<^sup>*\<^sup>* start t"
      using decrease reachable_inv by auto
    then obtain u where "step\<^sup>*\<^sup>* t u" "\<nexists>v. step u v" using less(1) by blast
    with t show ?thesis by (meson converse_rtranclp_into_rtranclp)
  qed blast
qed

lemma scheduler_returns:
  assumes chooses: "\<And>s t. f s = Some t \<Longrightarrow> step s t" and idle: "\<And>s. f s = None \<Longrightarrow> \<nexists>t. step s t"
    and reached: "step\<^sup>*\<^sup>* start s"
  shows "\<exists>t. run_until_idle f s = Some t \<and> step\<^sup>*\<^sup>* start t \<and> (\<nexists>u. step t u)"
  using reached
proof (induction "bound s" arbitrary: s rule: less_induct)
  case less
  show ?case
  proof (cases "f s")
    case None
    with less(2) idle show ?thesis by (subst run_until_idle.simps) auto
  next
    case (Some t)
    then have "step s t" by (rule chooses)
    with less(2) have "bound t < bound s" "step\<^sup>*\<^sup>* start t"
      using decrease reachable_inv by auto
    from less(1) [OF this] Some show ?thesis by (subst run_until_idle.simps) simp
  qed
qed

end

end
