(* ===== verification/Firmware_Threads.thy ===== *)
theory Firmware_Threads
  imports Telemetry_Queue Sensor_Model Firmware_Metrics Hex_Formatter Serializer Step_System
begin

text \<open>
  The firmware program: \<^verbatim>\<open>TelemetryProducer::run\<close>, \<^verbatim>\<open>TelemetryTransmitter::run\<close> and
  \<^verbatim>\<open>firmware/src/main.cpp\<close>, which starts both as threads and waits for them with two semaphores.
  Each thread is a program counter and a step function, \<open>None\<close> while its kernel call waits;
  \<open>firmware_step\<close> is one step of any thread. Thread priorities only restrict the schedules, so
  what holds of every interleaving holds of the schedules of the kernel.

  The console is the string written by \<^verbatim>\<open>printk\<close>; each call of a worker thread is
  one step, and main writes its closing lines in one, when both workers have finished.
\<close>

subsection \<open>The code\<close>

datatype producer_pc =
    P_head                          \<comment> \<open>head of the while loop\<close>
  | P_sampled TelemetryFrame        \<comment> \<open>\<^verbatim>\<open>next\<close> has returned\<close>
  | P_serialize TelemetryFrame      \<comment> \<open>sample recorded\<close>
  | P_serialized bytes              \<comment> \<open>frame serialized\<close>
  | P_push bytes                    \<comment> \<open>serialization recorded\<close>
  | P_pushed bool                   \<comment> \<open>\<^verbatim>\<open>push_frame\<close> has returned\<close>
  | P_push_end                      \<comment> \<open>after the loop\<close>
  | P_pushed_end bool               \<comment> \<open>\<^verbatim>\<open>push_end_of_stream\<close> has returned\<close>
  | P_returned bool                 \<comment> \<open>\<^verbatim>\<open>run\<close> has returned, the result stored\<close>
  | P_finished                      \<comment> \<open>semaphore given\<close>

datatype transmitter_pc =
    T_pop u32                       \<comment> \<open>head of the loop, with the transmission index\<close>
  | T_popped bool TelemetryQueueItem u32  \<comment> \<open>\<^verbatim>\<open>pop\<close> has returned\<close>
  | T_print bytes u32               \<comment> \<open>index incremented\<close>
  | T_printed u32                   \<comment> \<open>line printed\<close>
  | T_returned bool                 \<comment> \<open>\<^verbatim>\<open>run\<close> has returned, the result stored\<close>
  | T_finished                      \<comment> \<open>semaphore given\<close>

datatype firmware_main_pc =
    F_take_producer                 \<comment> \<open>waits for the producer\<close>
  | F_take_transmitter              \<comment> \<open>waits for the transmitter\<close>
  | F_report                        \<comment> \<open>both have finished\<close>
  | F_exit nat                      \<comment> \<open>exit code\<close>

record ('q, 's) firmware_state =
  fw_queue :: 'q
  producer_finished :: 's
  transmitter_finished :: 's
  fw_sensor :: DeterministicSensorModel
  fw_metrics :: FirmwareMetrics
  producer_at :: producer_pc
  transmitter_at :: transmitter_pc
  fw_main_at :: firmware_main_pc
  producer_succeeded :: bool
  transmitter_succeeded :: bool
  console :: string

definition firmware_start ::
    "('q, 's) kernel_ops \<Rightarrow> 'q \<Rightarrow> 's \<Rightarrow> 's \<Rightarrow> ('q, 's) firmware_state" where
  "firmware_start zephyr q sp st =
     \<lparr>fw_queue = construct_queue zephyr q, producer_finished = sp, transmitter_finished = st,
      fw_sensor = new_sensor_model, fw_metrics = new_firmware_metrics, producer_at = P_head,
      transmitter_at = T_pop 0, fw_main_at = F_take_producer, producer_succeeded = False,
      transmitter_succeeded = False, console = []\<rparr>"

definition producer_step ::
    "('q, 's) kernel_ops \<Rightarrow> ('q, 's) firmware_state \<Rightarrow> ('q, 's) firmware_state option" where
  "producer_step zephyr s =
     (case producer_at s of
        P_head \<Rightarrow>
          if has_next (fw_sensor s)
          then (case next_frame (fw_sensor s) of
                  (f, sensor) \<Rightarrow> Some (s\<lparr>fw_sensor := sensor, producer_at := P_sampled f\<rparr>))
          else Some (s\<lparr>producer_at := P_push_end\<rparr>)
      | P_sampled f \<Rightarrow>
          Some (s\<lparr>fw_metrics := record_sample_generated (fw_metrics s), producer_at := P_serialize f\<rparr>)
      | P_serialize f \<Rightarrow> Some (s\<lparr>producer_at := P_serialized (serialize f)\<rparr>)
      | P_serialized bs \<Rightarrow>
          Some (s\<lparr>fw_metrics := record_frame_serialized (fw_metrics s), producer_at := P_push bs\<rparr>)
      | P_push bs \<Rightarrow>
          (case push_frame zephyr bs (fw_queue s) of
             None \<Rightarrow> None
           | Some (pushed, q) \<Rightarrow> Some (s\<lparr>fw_queue := q, producer_at := P_pushed pushed\<rparr>))
      | P_pushed pushed \<Rightarrow>
          if \<not> pushed
          then Some (s\<lparr>fw_metrics := record_queue_push_failure (fw_metrics s),
                       producer_succeeded := False, producer_at := P_returned False\<rparr>)
          else Some (s\<lparr>fw_metrics := record_frame_enqueued (fw_metrics s), producer_at := P_head\<rparr>)
      | P_push_end \<Rightarrow>
          (case push_end_of_stream zephyr (fw_queue s) of
             None \<Rightarrow> None
           | Some (pushed, q) \<Rightarrow> Some (s\<lparr>fw_queue := q, producer_at := P_pushed_end pushed\<rparr>))
      | P_pushed_end pushed \<Rightarrow>
          if \<not> pushed
          then Some (s\<lparr>fw_metrics := record_queue_push_failure (fw_metrics s),
                       producer_succeeded := False, producer_at := P_returned False\<rparr>)
          else Some (s\<lparr>fw_metrics := record_end_marker_sent (fw_metrics s),
                       producer_succeeded := True, producer_at := P_returned True\<rparr>)
      | P_returned _ \<Rightarrow>
          Some (s\<lparr>producer_finished := k_sem_give zephyr (producer_finished s), producer_at := P_finished\<rparr>)
      | P_finished \<Rightarrow> None)"

text \<open>The line \<^verbatim>\<open>TLFRAME %04u %s\<close>: the index with at least four digits, then the string.\<close>

definition pad4 :: "string \<Rightarrow> string" where
  "pad4 ds = replicate (4 - length ds) (CHR ''0'') @ ds"

definition frame_line :: "u32 \<Rightarrow> string \<Rightarrow> string" where
  "frame_line index hexadecimal =
     ''TLFRAME '' @ pad4 (show_nat (unat index)) @ '' '' @ c_string hexadecimal @ [CHR 0x0A]"

definition transmitter_step ::
    "('q, 's) kernel_ops \<Rightarrow> ('q, 's) firmware_state \<Rightarrow> ('q, 's) firmware_state option" where
  "transmitter_step zephyr s =
     (case transmitter_at s of
        T_pop index \<Rightarrow>
          (case pop_item zephyr default_item (fw_queue s) of
             None \<Rightarrow> None
           | Some (popped, item, q) \<Rightarrow>
               Some (s\<lparr>fw_queue := q, transmitter_at := T_popped popped item index\<rparr>))
      | T_popped popped item index \<Rightarrow>
          if \<not> popped
          then Some (s\<lparr>fw_metrics := record_queue_pop_failure (fw_metrics s),
                       transmitter_succeeded := False, transmitter_at := T_returned False\<rparr>)
          else if kind item = end_of_stream
          then Some (s\<lparr>fw_metrics := record_end_marker_received (fw_metrics s),
                       transmitter_succeeded := True, transmitter_at := T_returned True\<rparr>)
          else Some (s\<lparr>transmitter_at := T_print (item_bytes item) (index + 1)\<rparr>)
      | T_print bs index \<Rightarrow>
          Some (s\<lparr>console := console s @ frame_line index (format bs), transmitter_at := T_printed index\<rparr>)
      | T_printed index \<Rightarrow>
          Some (s\<lparr>fw_metrics := record_frame_transmitted (fw_metrics s), transmitter_at := T_pop index\<rparr>)
      | T_returned _ \<Rightarrow>
          Some (s\<lparr>transmitter_finished := k_sem_give zephyr (transmitter_finished s),
                  transmitter_at := T_finished\<rparr>)
      | T_finished \<Rightarrow> None)"

definition metrics_are_valid :: "FirmwareMetricsSnapshot \<Rightarrow> bool" where
  "metrics_are_valid m \<longleftrightarrow>
     samples_generated m = of_nat deterministic_sample_count
     \<and> frames_serialized m = of_nat deterministic_sample_count
     \<and> frames_enqueued m = of_nat deterministic_sample_count
     \<and> frames_transmitted m = of_nat deterministic_sample_count
     \<and> queue_push_failures m = 0 \<and> queue_pop_failures m = 0
     \<and> end_markers_sent m = 1 \<and> end_markers_received m = 1"

definition counters_text :: "FirmwareMetricsSnapshot \<Rightarrow> string" where
  "counters_text m =
     (let queue_errors = queue_push_failures m + queue_pop_failures m
      in ''produced='' @ show_nat (unat (frames_enqueued m)) @ '' transmitted=''
         @ show_nat (unat (frames_transmitted m)) @ '' queue_errors='' @ show_nat (unat queue_errors)
         @ [CHR 0x0A])"

definition report_main ::
    "('q, 's) kernel_ops \<Rightarrow> ('q, 's) firmware_state \<Rightarrow> ('q, 's) firmware_state" where
  "report_main zephyr s =
     (let final_metrics = firmware_snapshot (fw_metrics s);
          succeeded = (producer_succeeded s \<and> transmitter_succeeded s
            \<and> metrics_are_valid final_metrics \<and> queue_empty zephyr (fw_queue s));
          text = (if \<not> succeeded then ''TLFIRMWARE ERROR '' @ counters_text final_metrics
                  else ''TLFIRMWARE SUMMARY '' @ counters_text final_metrics
                    @ ''TLFIRMWARE DONE'' @ [CHR 0x0A]);
          exit_code = (if succeeded then 0 else 1)
      in s\<lparr>console := console s @ text, fw_main_at := F_exit exit_code\<rparr>)"

definition firmware_main_step ::
    "('q, 's) kernel_ops \<Rightarrow> ('q, 's) firmware_state \<Rightarrow> ('q, 's) firmware_state option" where
  "firmware_main_step zephyr s =
     (case fw_main_at s of
        F_take_producer \<Rightarrow>
          (case k_sem_take zephyr (producer_finished s) of
             None \<Rightarrow> None
           | Some (_, sem) \<Rightarrow> Some (s\<lparr>producer_finished := sem, fw_main_at := F_take_transmitter\<rparr>))
      | F_take_transmitter \<Rightarrow>
          (case k_sem_take zephyr (transmitter_finished s) of
             None \<Rightarrow> None
           | Some (_, sem) \<Rightarrow> Some (s\<lparr>transmitter_finished := sem, fw_main_at := F_report\<rparr>))
      | F_report \<Rightarrow> Some (report_main zephyr s)
      | F_exit _ \<Rightarrow> None)"

inductive firmware_step ::
    "('q, 's) kernel_ops \<Rightarrow> ('q, 's) firmware_state \<Rightarrow> ('q, 's) firmware_state \<Rightarrow> bool"
  for zephyr where
  producer_thread: "producer_step zephyr s = Some t \<Longrightarrow> firmware_step zephyr s t"
| transmitter_thread: "transmitter_step zephyr s = Some t \<Longrightarrow> firmware_step zephyr s t"
| firmware_main_thread: "firmware_main_step zephyr s = Some t \<Longrightarrow> firmware_step zephyr s t"

inductive_cases firmware_stepE [elim]: "firmware_step zephyr s t"

lemma firmware_step_iff:
  "firmware_step zephyr s t \<longleftrightarrow> producer_step zephyr s = Some t
    \<or> transmitter_step zephyr s = Some t \<or> firmware_main_step zephyr s = Some t"
  by (auto intro: firmware_step.intros)

end
