(* ===== verification/Firmware_Outcome.thy ===== *)
theory Firmware_Outcome
  imports Firmware_Threads
begin

text \<open>
  Every schedule of the firmware program. \<open>producer_view\<close> and \<open>transmitter_view\<close> say what each
  thread has done at each of its program counters: the counter events it has recorded, what it
  has pushed, received and printed. The invariant ties them together through the queue: what was
  sent is what was received followed by what is still queued. The run is a \<open>step_system\<close>.
\<close>

subsection \<open>What each thread has done\<close>

definition encoded :: "bytes list" where
  "encoded = map serialize sensor_frames"

definition rounds :: "nat \<Rightarrow> ProducerEvent list" where
  "rounds k = concat (replicate k [Sample_generated, Frame_serialized, Frame_enqueued])"

definition sent_frames :: "nat \<Rightarrow> bytes option list" where
  "sent_frames k = map Some (take k encoded)"

definition sent_all :: "bytes option list" where
  "sent_all = sent_frames 8 @ [None]"

inductive producer_view ::
    "producer_pc \<Rightarrow> nat \<Rightarrow> ProducerEvent list \<Rightarrow> bytes option list \<Rightarrow> bool \<Rightarrow> bool" where
  at_head: "k \<le> 8 \<Longrightarrow> producer_view P_head k (rounds k) (sent_frames k) False"
| at_sampled: "k < 8 \<Longrightarrow>
    producer_view (P_sampled (sensor_frame k)) (Suc k) (rounds k) (sent_frames k) False"
| at_serialize: "k < 8 \<Longrightarrow> producer_view (P_serialize (sensor_frame k)) (Suc k)
    (rounds k @ [Sample_generated]) (sent_frames k) False"
| at_serialized: "k < 8 \<Longrightarrow> producer_view (P_serialized (serialize (sensor_frame k))) (Suc k)
    (rounds k @ [Sample_generated]) (sent_frames k) False"
| at_push: "k < 8 \<Longrightarrow> producer_view (P_push (serialize (sensor_frame k))) (Suc k)
    (rounds k @ [Sample_generated, Frame_serialized]) (sent_frames k) False"
| at_pushed: "k < 8 \<Longrightarrow> producer_view (P_pushed True) (Suc k)
    (rounds k @ [Sample_generated, Frame_serialized]) (sent_frames (Suc k)) False"
| at_push_end: "producer_view P_push_end 8 (rounds 8) (sent_frames 8) False"
| at_pushed_end: "producer_view (P_pushed_end True) 8 (rounds 8) sent_all False"
| at_returned: "producer_view (P_returned True) 8 (rounds 8 @ [End_sent]) sent_all True"
| at_finished: "producer_view P_finished 8 (rounds 8 @ [End_sent]) sent_all True"

definition lines_of :: "bytes list \<Rightarrow> string" where
  "lines_of frs = concat (map (\<lambda>(i, fr). frame_line (of_nat (Suc i)) (format fr)) (enumerate 0 frs))"

text \<open>Arguments: program counter, frames received, received signals with those still queued,
  events, console, result.\<close>

inductive transmitter_view ::
    "transmitter_pc \<Rightarrow> bytes option list \<Rightarrow> bytes option list \<Rightarrow> TransmitterEvent list \<Rightarrow> string \<Rightarrow> bool \<Rightarrow> bool"
    where
  at_pop: "transmitter_view (T_pop (of_nat (length frs))) (map Some frs @ qs) qs
    (replicate (length frs) Frame_transmitted) (lines_of frs) False"
| at_popped: "transmitter_view (T_popped True item (of_nat (length frs)))
    (map Some frs @ signal_of item # qs) qs (replicate (length frs) Frame_transmitted) (lines_of frs) False"
| at_print: "transmitter_view (T_print fr (of_nat (length frs) + 1)) (map Some frs @ Some fr # qs) qs
    (replicate (length frs) Frame_transmitted) (lines_of frs) False"
| at_printed: "transmitter_view (T_printed (of_nat (length frs) + 1)) (map Some frs @ Some fr # qs) qs
    (replicate (length frs) Frame_transmitted) (lines_of (frs @ [fr])) False"
| at_returned: "transmitter_view (T_returned True) (map Some frs @ None # qs) qs
    (replicate (length frs) Frame_transmitted @ [End_received]) (lines_of frs) True"
| at_finished: "transmitter_view T_finished (map Some frs @ None # qs) qs
    (replicate (length frs) Frame_transmitted @ [End_received]) (lines_of frs) True"

inductive_cases producer_view_cases:
  "producer_view P_head k E S r" "producer_view (P_sampled f) k E S r"
  "producer_view (P_serialize f) k E S r" "producer_view (P_serialized bs) k E S r"
  "producer_view (P_push bs) k E S r" "producer_view (P_pushed ok) k E S r"
  "producer_view P_push_end k E S r" "producer_view (P_pushed_end ok) k E S r"
  "producer_view (P_returned ok) k E S r" "producer_view P_finished k E S r"

inductive_cases transmitter_view_cases:
  "transmitter_view (T_pop i) S qs D out r" "transmitter_view (T_popped ok item i) S qs D out r"
  "transmitter_view (T_print bs i) S qs D out r" "transmitter_view (T_printed i) S qs D out r"
  "transmitter_view (T_returned ok) S qs D out r" "transmitter_view T_finished S qs D out r"

lemma transmitter_view_append:
  "transmitter_view pc S qs D out r \<Longrightarrow> transmitter_view pc (S @ [x]) (qs @ [x]) D out r"
  by (erule transmitter_view.cases) (simp_all add: transmitter_view.intros)

lemma marker_unique: "map Some xs @ [None] = map Some ys @ None # qs \<Longrightarrow> xs = ys \<and> qs = []"
proof (induction xs arbitrary: ys)
  case Nil
  then show ?case by (cases ys) simp_all
next
  case (Cons x xs)
  then show ?case by (cases ys) auto
qed

lemma rounds_Suc: "rounds (Suc k) = rounds k @ [Sample_generated, Frame_serialized, Frame_enqueued]"
proof -
  have "concat (replicate k xs) @ xs = xs @ concat (replicate k xs)" for xs :: "ProducerEvent list"
    by (induction k) simp_all
  then show ?thesis by (simp add: rounds_def)
qed

lemma length_encoded [simp]: "length encoded = 8"
  by (simp add: encoded_def)

lemma sent_frames_Suc: "k < 8 \<Longrightarrow> sent_frames (Suc k) = sent_frames k @ [Some (serialize (sensor_frame k))]"
  by (simp add: sent_frames_def take_Suc_conv_app_nth) (simp add: encoded_def nth_sensor_frames)

lemma lines_of_snoc: "lines_of (frs @ [fr]) = lines_of frs @ frame_line (of_nat (length frs) + 1) (format fr)"
  by (simp add: lines_of_def enumerate_append_eq add.commute)

definition firmware_metrics_after :: "ProducerEvent list \<Rightarrow> TransmitterEvent list \<Rightarrow> FirmwareMetrics" where
  "firmware_metrics_after E D = fold record_transmitter D (fold record_producer E new_firmware_metrics)"

lemma producer_calls:
  "record_sample_generated (firmware_metrics_after E D) = firmware_metrics_after (E @ [Sample_generated]) D"
  "record_frame_serialized (firmware_metrics_after E D) = firmware_metrics_after (E @ [Frame_serialized]) D"
  "record_frame_enqueued (firmware_metrics_after E D) = firmware_metrics_after (E @ [Frame_enqueued]) D"
  "record_end_marker_sent (firmware_metrics_after E D) = firmware_metrics_after (E @ [End_sent]) D"
  using firmware_metrics.left_after_rights [of Sample_generated] firmware_metrics.left_after_rights [of Frame_serialized]
    firmware_metrics.left_after_rights [of Frame_enqueued] firmware_metrics.left_after_rights [of End_sent]
  by (simp_all add: firmware_metrics_after_def)

lemma transmitter_calls:
  "record_frame_transmitted (firmware_metrics_after E D) = firmware_metrics_after E (D @ [Frame_transmitted])"
  "record_end_marker_received (firmware_metrics_after E D) = firmware_metrics_after E (D @ [End_received])"
  by (simp_all add: firmware_metrics_after_def)

subsection \<open>The invariant\<close>

definition final_text :: string where
  "final_text = ''TLFIRMWARE SUMMARY produced=8 transmitted=8 queue_errors=0'' @ [CHR 0x0A]
     @ ''TLFIRMWARE DONE'' @ [CHR 0x0A]"

fun producer_weight :: "producer_pc \<Rightarrow> nat" where
  "producer_weight P_head = 12"
| "producer_weight (P_sampled _) = 30"
| "producer_weight (P_serialize _) = 29"
| "producer_weight (P_serialized _) = 28"
| "producer_weight (P_push _) = 27"
| "producer_weight (P_pushed _) = 21"
| "producer_weight P_push_end = 11"
| "producer_weight (P_pushed_end _) = 5"
| "producer_weight (P_returned _) = 1"
| "producer_weight P_finished = 0"

fun transmitter_weight :: "transmitter_pc \<Rightarrow> nat" where
  "transmitter_weight (T_pop _) = 2"
| "transmitter_weight (T_popped _ _ _) = 6"
| "transmitter_weight (T_print _ _) = 4"
| "transmitter_weight (T_printed _) = 3"
| "transmitter_weight (T_returned _) = 1"
| "transmitter_weight T_finished = 0"

fun firmware_main_weight :: "firmware_main_pc \<Rightarrow> nat" where
  "firmware_main_weight F_take_producer = 3"
| "firmware_main_weight F_take_transmitter = 2"
| "firmware_main_weight F_report = 1"
| "firmware_main_weight (F_exit _) = 0"

text \<open>A run of the firmware over a kernel that meets its contract, with the queue capacity of the
  code and binary semaphores that start at 0.\<close>

locale firmware_run = kernel_services zephyr messages count telemetry_queue_capacity 1
  for zephyr :: "('q, 's) kernel_ops" and messages count +
  fixes q0 :: 'q and sp st :: 's
  assumes semaphores_start: "count sp = 0" "count st = 0"
begin

definition main_view :: "('q, 's) firmware_state \<Rightarrow> bool" where
  "main_view s \<longleftrightarrow>
     (let p = (if producer_at s = P_finished then 1 else 0);
          t = (if transmitter_at s = T_finished then 1 else 0)
      in case fw_main_at s of
           F_take_producer \<Rightarrow> count (producer_finished s) = p \<and> count (transmitter_finished s) = t
         | F_take_transmitter \<Rightarrow> p = (1 :: nat) \<and> count (transmitter_finished s) = t
         | F_report \<Rightarrow> p = 1 \<and> t = (1 :: nat)
         | F_exit c \<Rightarrow> p = 1 \<and> t = 1 \<and> c = 0)"

definition firmware_at :: "('q, 's) firmware_state \<Rightarrow> ProducerEvent list \<Rightarrow> bytes option list
    \<Rightarrow> TransmitterEvent list \<Rightarrow> string \<Rightarrow> bool \<Rightarrow> bool \<Rightarrow> bool" where
  "firmware_at s E S D out rp rt \<longleftrightarrow>
     producer_view (producer_at s) (next_index' (fw_sensor s)) E S rp
     \<and> transmitter_view (transmitter_at s) S (signals (fw_queue s)) D out rt
     \<and> fw_metrics s = firmware_metrics_after E D
     \<and> length (messages (fw_queue s)) \<le> telemetry_queue_capacity
     \<and> (rp \<longrightarrow> producer_succeeded s) \<and> (rt \<longrightarrow> transmitter_succeeded s) \<and> main_view s
     \<and> console s = out @ (case fw_main_at s of F_exit _ \<Rightarrow> final_text | _ \<Rightarrow> [])"

definition firmware_inv :: "('q, 's) firmware_state \<Rightarrow> bool" where
  "firmware_inv s \<longleftrightarrow> (\<exists>E S D out rp rt. firmware_at s E S D out rp rt)"

lemma firmware_invI:
  assumes "producer_view (producer_at s) (next_index' (fw_sensor s)) E S rp"
    and "transmitter_view (transmitter_at s) S (signals (fw_queue s)) D out rt"
    and "fw_metrics s = firmware_metrics_after E D"
    and "length (messages (fw_queue s)) \<le> telemetry_queue_capacity"
    and "rp \<longrightarrow> producer_succeeded s" and "rt \<longrightarrow> transmitter_succeeded s" and "main_view s"
    and "console s = out @ (case fw_main_at s of F_exit _ \<Rightarrow> final_text | _ \<Rightarrow> [])"
  shows "firmware_inv s"
  using assms unfolding firmware_inv_def firmware_at_def by blast

lemma firmware_inv_start: "firmware_inv (firmware_start zephyr q0 sp st)"
proof (rule firmware_invI [where D = "[]" and out = "[]"])
  show "producer_view (producer_at (firmware_start zephyr q0 sp st))
      (next_index' (fw_sensor (firmware_start zephyr q0 sp st))) (rounds 0) (sent_frames 0) False"
    using producer_view.at_head [of 0] by (simp add: firmware_start_def new_sensor_model_def)
  show "transmitter_view (transmitter_at (firmware_start zephyr q0 sp st)) (sent_frames 0)
      (signals (fw_queue (firmware_start zephyr q0 sp st))) [] [] False"
    using transmitter_view.at_pop [of "[]" "[]"]
    by (simp add: firmware_start_def sent_frames_def construct_empties lines_of_def)
  show "length (messages (fw_queue (firmware_start zephyr q0 sp st))) \<le> telemetry_queue_capacity"
    by (simp add: firmware_start_def construct_queue_def purge)
qed (simp_all add: firmware_start_def firmware_metrics_after_def rounds_def main_view_def semaphores_start)

lemma length_signals: "length (signals q) = length (messages q)"
  by (simp add: signals_def)

lemma push_length:
  assumes "length (messages q) \<le> telemetry_queue_capacity"
    and "push_frame zephyr fr q = Some (ok, q') \<or> push_end_of_stream zephyr q = Some (ok, q')"
  shows "length (messages q') \<le> telemetry_queue_capacity"
proof -
  have "length (messages q) < telemetry_queue_capacity"
    using assms push_frame_cases(2) [of q fr] push_end_cases(2) [of q]
    by (metis le_neq_implies_less not_le option.distinct(1))
  moreover from this have "length (signals q') = length (signals q) + 1"
    using assms(2) push_frame_cases(1) [of q fr] push_end_cases(1) [of q] by auto
  ultimately show ?thesis by (simp add: signals_def)
qed

lemma main_view_producer:
  assumes "main_view s" and "producer_at s \<noteq> P_finished" and "producer_at t \<noteq> P_finished"
    and "transmitter_at t = transmitter_at s" and "fw_main_at t = fw_main_at s"
    and "producer_finished t = producer_finished s" and "transmitter_finished t = transmitter_finished s"
  shows "main_view t \<and> (case fw_main_at t of F_exit _ \<Rightarrow> final_text | _ \<Rightarrow> []) = []"
  using assms by (cases "fw_main_at s") (auto simp: main_view_def)

lemma main_view_transmitter:
  assumes "main_view s" and "transmitter_at s \<noteq> T_finished" and "transmitter_at t \<noteq> T_finished"
    and "producer_at t = producer_at s" and "fw_main_at t = fw_main_at s"
    and "producer_finished t = producer_finished s" and "transmitter_finished t = transmitter_finished s"
  shows "main_view t \<and> (case fw_main_at t of F_exit _ \<Rightarrow> final_text | _ \<Rightarrow> []) = []"
  using assms by (cases "fw_main_at s") (auto simp: main_view_def)

text \<open>The steps of the producer that concern the sensor, the queue and the semaphore.\<close>

lemma producer_draws:
  assumes at: "firmware_at s E S D out rp rt" and pc: "producer_at s = P_head"
    and step: "producer_step zephyr s = Some t"
  shows "firmware_inv t"
proof -
  from at pc have view: "next_index' (fw_sensor s) \<le> 8" "E = rounds (next_index' (fw_sensor s))"
    "S = sent_frames (next_index' (fw_sensor s))" "\<not> rp" and mv: "main_view s"
    by (auto simp: firmware_at_def elim: producer_view_cases)
  note run = main_view_producer [OF mv, of t]
  show ?thesis
  proof (cases "next_index' (fw_sensor s) < 8")
    case True
    with step pc have "t = s\<lparr>fw_sensor := (fw_sensor s)\<lparr>next_index' := Suc (next_index' (fw_sensor s))\<rparr>,
        producer_at := P_sampled (sensor_frame (next_index' (fw_sensor s)))\<rparr>"
      by (simp add: producer_step_def has_next_iff next_frame_eq)
    with True at view pc run show ?thesis
      by (intro firmware_invI [of t E S False D out rt]) (auto simp: firmware_at_def intro: producer_view.intros)
  next
    case False
    with step pc view(1) have "t = s\<lparr>producer_at := P_push_end\<rparr>" "next_index' (fw_sensor s) = 8"
      by (simp_all add: producer_step_def has_next_iff)
    with at view pc run producer_view.at_push_end show ?thesis
      by (intro firmware_invI [of t E S False D out rt]) (simp_all add: firmware_at_def)
  qed
qed

lemma producer_pushes:
  assumes at: "firmware_at s E S D out rp rt" and pc: "producer_at s = P_push bs"
    and step: "producer_step zephyr s = Some t"
  shows "firmware_inv t"
proof -
  from at pc obtain k where view: "bs = serialize (sensor_frame k)" "k < 8" "next_index' (fw_sensor s) = Suc k"
    "E = rounds k @ [Sample_generated, Frame_serialized]" "S = sent_frames k" and
    tv: "transmitter_view (transmitter_at s) S (signals (fw_queue s)) D out rt" and mv: "main_view s"
    and room: "length (messages (fw_queue s)) \<le> telemetry_queue_capacity"
    by (auto simp: firmware_at_def elim: producer_view_cases)
  from step pc obtain ok q where q: "push_frame zephyr bs (fw_queue s) = Some (ok, q)"
    "t = s\<lparr>fw_queue := q, producer_at := P_pushed ok\<rparr>"
    by (auto simp: producer_step_def split: option.splits)
  then have "ok" "signals q = signals (fw_queue s) @ [Some bs]"
    using push_frame_cases [of "fw_queue s" bs] by (auto simp: not_less [symmetric])
  with q at view pc main_view_producer [OF mv, of t] push_length [OF room]
    transmitter_view_append [OF tv, of "Some bs"] producer_view.at_pushed [of k]
  show ?thesis
    by (intro firmware_invI [of t E "S @ [Some bs]" False D out rt]) (auto simp: firmware_at_def sent_frames_Suc)
qed

lemma producer_ends:
  assumes at: "firmware_at s E S D out rp rt" and pc: "producer_at s = P_push_end"
    and step: "producer_step zephyr s = Some t"
  shows "firmware_inv t"
proof -
  from at pc have view: "next_index' (fw_sensor s) = 8" "E = rounds 8" "S = sent_frames 8" and
    tv: "transmitter_view (transmitter_at s) S (signals (fw_queue s)) D out rt" and mv: "main_view s"
    and room: "length (messages (fw_queue s)) \<le> telemetry_queue_capacity"
    by (auto simp: firmware_at_def elim: producer_view_cases)
  from step pc obtain ok q where q: "push_end_of_stream zephyr (fw_queue s) = Some (ok, q)"
    "t = s\<lparr>fw_queue := q, producer_at := P_pushed_end ok\<rparr>"
    by (auto simp: producer_step_def split: option.splits)
  then have "ok" "signals q = signals (fw_queue s) @ [None]"
    using push_end_cases [of "fw_queue s"] by (auto simp: not_less [symmetric])
  with q at view pc main_view_producer [OF mv, of t] push_length [OF room]
    transmitter_view_append [OF tv, of None] producer_view.at_pushed_end
  show ?thesis
    by (intro firmware_invI [of t E "S @ [None]" False D out rt]) (auto simp: firmware_at_def sent_all_def)
qed

lemma producer_gives:
  assumes at: "firmware_at s E S D out rp rt" and pc: "producer_at s = P_returned True"
    and step: "producer_step zephyr s = Some t"
  shows "firmware_inv t"
proof -
  from at pc have view: "next_index' (fw_sensor s) = 8" "E = rounds 8 @ [End_sent]" "S = sent_all" "rp"
    and mv: "main_view s"
    by (auto simp: firmware_at_def elim: producer_view_cases)
  from step pc have t: "t = s\<lparr>producer_finished := k_sem_give zephyr (producer_finished s),
      producer_at := P_finished\<rparr>" by (simp add: producer_step_def)
  have main: "fw_main_at s = F_take_producer" "count (producer_finished s) = 0"
    using mv pc by (cases "fw_main_at s"; simp add: main_view_def)+
  then have "main_view t" using mv t by (simp add: main_view_def give)
  with t main at view producer_view.at_finished show ?thesis
    by (intro firmware_invI [of t E S True D out rt]) (simp_all add: firmware_at_def)
qed

lemma producer_step_inv:
  assumes "firmware_inv s" and step: "producer_step zephyr s = Some t"
  shows "firmware_inv t"
proof -
  from assms(1) obtain E S D out rp rt where at: "firmware_at s E S D out rp rt"
    unfolding firmware_inv_def by blast
  then have pv: "producer_view (producer_at s) (next_index' (fw_sensor s)) E S rp" and mv: "main_view s"
    by (simp_all add: firmware_at_def)
  note local = step at main_view_producer [OF mv, of t]
  from pv show ?thesis
  proof (cases rule: producer_view.cases)
    case (at_sampled k)
    with local show ?thesis
      by (intro firmware_invI [of t "E @ [Sample_generated]" S False D out rt])
        (auto simp: producer_step_def firmware_at_def producer_calls intro: producer_view.intros)
  next
    case (at_serialize k)
    with local show ?thesis
      by (intro firmware_invI [of t E S False D out rt])
        (auto simp: producer_step_def firmware_at_def intro: producer_view.intros)
  next
    case (at_serialized k)
    with local producer_view.at_push [of k] show ?thesis
      by (intro firmware_invI [of t "E @ [Frame_serialized]" S False D out rt])
        (auto simp: producer_step_def firmware_at_def producer_calls)
  next
    case (at_pushed k)
    with local producer_view.at_head [of "Suc k"] show ?thesis
      by (intro firmware_invI [of t "E @ [Frame_enqueued]" S False D out rt])
        (auto simp: producer_step_def firmware_at_def producer_calls rounds_Suc)
  next
    case at_pushed_end
    with local producer_view.at_returned show ?thesis
      by (intro firmware_invI [of t "E @ [End_sent]" S True D out rt])
        (auto simp: producer_step_def firmware_at_def producer_calls)
  next
    case at_finished
    with step show ?thesis by (simp add: producer_step_def)
  next
    case at_head
    show ?thesis by (rule producer_draws [OF at at_head(1) step])
  next
    case (at_push k)
    show ?thesis by (rule producer_pushes [OF at at_push(1) step])
  next
    case at_push_end
    show ?thesis by (rule producer_ends [OF at at_push_end(1) step])
  next
    case at_returned
    show ?thesis by (rule producer_gives [OF at at_returned(1) step])
  qed
qed

text \<open>The steps of the transmitter that concern the queue and the semaphore.\<close>

lemma transmitter_pops:
  assumes at: "firmware_at s E S D out rp rt" and pc: "transmitter_at s = T_pop i"
    and step: "transmitter_step zephyr s = Some t"
  shows "firmware_inv t"
proof -
  from at pc obtain frs where view: "i = of_nat (length frs)" "S = map Some frs @ signals (fw_queue s)"
    "D = replicate (length frs) Frame_transmitted" "out = lines_of frs" "\<not> rt" and mv: "main_view s"
    by (auto simp: firmware_at_def elim: transmitter_view_cases)
  from step pc obtain ok item q where q: "pop_item zephyr default_item (fw_queue s) = Some (ok, item, q)"
    "t = s\<lparr>fw_queue := q, transmitter_at := T_popped ok item i\<rparr>"
    by (auto simp: transmitter_step_def split: option.splits)
  then obtain x xs where sig: "signals (fw_queue s) = x # xs"
    using pop_item_cases(2) by (cases "signals (fw_queue s)") auto
  with q(1) have "ok" "signal_of item = x" "signals q = xs"
    using pop_item_cases(1) [OF sig, of default_item] by auto
  moreover have "length (messages q) \<le> telemetry_queue_capacity"
    using at sig \<open>signals q = xs\<close> length_signals [of q] length_signals [of "fw_queue s"]
    by (simp add: firmware_at_def)
  ultimately show ?thesis
    using q at view pc sig main_view_transmitter [OF mv, of t] transmitter_view.at_popped [of item frs xs]
    by (intro firmware_invI [of t E S rp D out False]) (auto simp: firmware_at_def)
qed

lemma transmitter_gives:
  assumes at: "firmware_at s E S D out rp rt" and pc: "transmitter_at s = T_returned True"
    and step: "transmitter_step zephyr s = Some t"
  shows "firmware_inv t"
proof -
  from at pc obtain frs where view: "S = map Some frs @ None # signals (fw_queue s)"
    "D = replicate (length frs) Frame_transmitted @ [End_received]" "out = lines_of frs" "rt" and mv: "main_view s"
    by (auto simp: firmware_at_def elim: transmitter_view_cases)
  from step pc have t: "t = s\<lparr>transmitter_finished := k_sem_give zephyr (transmitter_finished s),
      transmitter_at := T_finished\<rparr>" by (simp add: transmitter_step_def)
  have "main_view t" and "(case fw_main_at s of F_exit _ \<Rightarrow> final_text | _ \<Rightarrow> []) = []"
    using mv t pc by (cases "fw_main_at s"; simp add: main_view_def give)+
  with t at view transmitter_view.at_finished [of frs "signals (fw_queue s)"] show ?thesis
    by (intro firmware_invI [of t E S rp D out True]) (simp_all add: firmware_at_def)
qed

lemma transmitter_step_inv:
  assumes "firmware_inv s" and step: "transmitter_step zephyr s = Some t"
  shows "firmware_inv t"
proof -
  from assms(1) obtain E S D out rp rt where at: "firmware_at s E S D out rp rt"
    unfolding firmware_inv_def by blast
  then have tv: "transmitter_view (transmitter_at s) S (signals (fw_queue s)) D out rt" and mv: "main_view s"
    by (simp_all add: firmware_at_def)
  note local = step at main_view_transmitter [OF mv, of t]
  from tv show ?thesis
  proof (cases rule: transmitter_view.cases)
    case (at_popped item frs)
    show ?thesis
    proof (cases "kind item")
      case frame_item
      with local at_popped transmitter_view.at_print [of "item_bytes item" frs "signals (fw_queue s)"]
      show ?thesis
        by (intro firmware_invI [of t E S rp D out False])
          (auto simp: transmitter_step_def firmware_at_def signal_of_def)
    next
      case end_of_stream
      with local at_popped transmitter_view.at_returned [of frs "signals (fw_queue s)"] show ?thesis
        by (intro firmware_invI [of t E S rp "D @ [End_received]" out True])
          (auto simp: transmitter_step_def firmware_at_def signal_of_def transmitter_calls)
    qed
  next
    case (at_print fr frs)
    with local transmitter_view.at_printed [of frs fr "signals (fw_queue s)"] show ?thesis
      by (intro firmware_invI [of t E S rp D "lines_of (frs @ [fr])" False])
        (auto simp: transmitter_step_def firmware_at_def lines_of_snoc)
  next
    case (at_printed frs fr)
    with local transmitter_view.at_pop [of "frs @ [fr]" "signals (fw_queue s)"] show ?thesis
      by (intro firmware_invI [of t E S rp "D @ [Frame_transmitted]" out False])
        (auto simp: transmitter_step_def firmware_at_def transmitter_calls replicate_append_same add.commute)
  next
    case at_finished
    with step show ?thesis by (simp add: transmitter_step_def)
  next
    case (at_pop frs)
    show ?thesis by (rule transmitter_pops [OF at at_pop(1) step])
  next
    case (at_returned frs)
    show ?thesis by (rule transmitter_gives [OF at at_returned(1) step])
  qed
qed

lemma finished_run:
  assumes "producer_view P_finished k E S rp" and "transmitter_view T_finished S qs D out rt"
  shows "E = rounds 8 @ [End_sent]" "D = replicate 8 Frame_transmitted @ [End_received]"
    "out = lines_of encoded" "qs = []" "rp" "rt"
proof -
  from assms obtain frs where frs: "map Some encoded @ [None] = map Some frs @ None # qs"
    "D = replicate (length frs) Frame_transmitted @ [End_received]" "out = lines_of frs" "rt"
    by (elim producer_view_cases transmitter_view_cases) (simp add: sent_all_def sent_frames_def, metis)
  from marker_unique [OF frs(1)] have enc: "frs = encoded" "qs = []" by simp_all
  with frs show "D = replicate 8 Frame_transmitted @ [End_received]" "out = lines_of encoded"
    "qs = []" "rt" by simp_all
  from assms(1) show "E = rounds 8 @ [End_sent]" "rp" by (auto elim: producer_view_cases)
qed

lemma final_counts:
  "firmware_snapshot (firmware_metrics_after (rounds 8 @ [End_sent])
      (replicate 8 Frame_transmitted @ [End_received]))
    = \<lparr>samples_generated = 8, frames_serialized = 8, frames_enqueued = 8, frames_transmitted = 8,
       queue_push_failures = 0, queue_pop_failures = 0, end_markers_sent = 1, end_markers_received = 1\<rparr>"
  unfolding firmware_snapshot_def firmware_metrics_after_def values_both
  by (simp add: counts_def rounds_def numeral_eq_Suc)

lemma report_succeeds:
  assumes "producer_succeeded s" and "transmitter_succeeded s" and "queue_empty zephyr (fw_queue s)"
    and "fw_metrics s = firmware_metrics_after (rounds 8 @ [End_sent])
      (replicate 8 Frame_transmitted @ [End_received])"
  shows "report_main zephyr s = s\<lparr>console := console s @ final_text, fw_main_at := F_exit 0\<rparr>"
proof -
  have "show_nat 8 = ''8''" "show_nat 0 = ''0''"
    by (simp_all add: show_nat.simps digit_char_def)
  then show ?thesis
    using assms
    by (simp add: report_main_def Let_def final_counts metrics_are_valid_def final_text_def
        counters_text_def deterministic_sample_count_def)
qed

lemma report_ends:
  assumes "firmware_inv s" and "fw_main_at s = F_report"
  shows "report_main zephyr s = s\<lparr>console := console s @ final_text, fw_main_at := F_exit 0\<rparr>"
proof -
  from assms(1) obtain E S D out rp rt where at: "firmware_at s E S D out rp rt"
    unfolding firmware_inv_def by blast
  then have fin: "producer_at s = P_finished" "transmitter_at s = T_finished"
    using assms(2) by (auto simp: firmware_at_def main_view_def split: if_splits)
  with at have "producer_view P_finished (next_index' (fw_sensor s)) E S rp"
    "transmitter_view T_finished S (signals (fw_queue s)) D out rt" by (auto simp: firmware_at_def)
  note finished_run [OF this]
  with at show ?thesis by (intro report_succeeds) (simp_all add: firmware_at_def queue_empty_iff)
qed

lemma firmware_main_inv:
  assumes inv: "firmware_inv s" and step: "firmware_main_step zephyr s = Some t"
  shows "firmware_inv t"
proof -
  from inv obtain E S D out rp rt where at: "firmware_at s E S D out rp rt"
    unfolding firmware_inv_def by blast
  have semaphore: "0 < count sem" if "k_sem_take zephyr sem = Some r" for sem r
    using that take_waits by (cases "count sem") auto
  show ?thesis
  proof (cases "fw_main_at s")
    case F_take_producer
    with step at show ?thesis
      by (intro firmware_invI [of t E S rp D out rt])
        (auto simp: firmware_main_step_def firmware_at_def main_view_def split: option.splits if_splits
          dest!: semaphore)
  next
    case F_take_transmitter
    with step at show ?thesis
      by (intro firmware_invI [of t E S rp D out rt])
        (auto simp: firmware_main_step_def firmware_at_def main_view_def split: option.splits if_splits
          dest!: semaphore)
  next
    case F_report
    with step report_ends [OF inv] have t: "t = s\<lparr>console := console s @ final_text, fw_main_at := F_exit 0\<rparr>"
      by (simp add: firmware_main_step_def)
    with at F_report show ?thesis
      by (intro firmware_invI [of t E S rp D out rt])
        (auto simp: firmware_at_def main_view_def split: if_splits)
  next
    case (F_exit c)
    with step show ?thesis by (simp add: firmware_main_step_def)
  qed
qed

lemma firmware_step_inv: "firmware_inv s \<Longrightarrow> firmware_step zephyr s t \<Longrightarrow> firmware_inv t"
  by (erule firmware_stepE) (auto intro: producer_step_inv transmitter_step_inv firmware_main_inv)

definition firmware_bound :: "('q, 's) firmware_state \<Rightarrow> nat" where
  "firmware_bound s = 20 * (8 - next_index' (fw_sensor s)) + producer_weight (producer_at s)
     + 5 * length (signals (fw_queue s)) + transmitter_weight (transmitter_at s)
     + firmware_main_weight (fw_main_at s)"

lemma producer_decreases:
  assumes "producer_step zephyr s = Some t"
  shows "firmware_bound t < firmware_bound s"
proof (cases "producer_at s")
  case (P_push bs)
  with assms push_frame_cases [of "fw_queue s" bs] show ?thesis
    by (cases "length (messages (fw_queue s)) < telemetry_queue_capacity")
      (auto simp: producer_step_def firmware_bound_def)
next
  case P_push_end
  with assms push_end_cases [of "fw_queue s"] show ?thesis
    by (cases "length (messages (fw_queue s)) < telemetry_queue_capacity")
      (auto simp: producer_step_def firmware_bound_def)
qed (use assms in \<open>auto simp: producer_step_def firmware_bound_def has_next_iff next_frame_eq
    split: if_splits\<close>)

lemma transmitter_decreases:
  assumes "transmitter_step zephyr s = Some t"
  shows "firmware_bound t < firmware_bound s"
proof (cases "transmitter_at s")
  case (T_pop i)
  show ?thesis
  proof (cases "signals (fw_queue s)")
    case Nil
    with assms T_pop show ?thesis by (simp add: transmitter_step_def pop_item_cases(2))
  next
    case (Cons x xs)
    from pop_item_cases(1) [OF this, of default_item] assms T_pop Cons show ?thesis
      by (auto simp: transmitter_step_def firmware_bound_def)
  qed
qed (use assms in \<open>auto simp: transmitter_step_def firmware_bound_def split: if_splits\<close>)

lemma firmware_main_decreases:
  assumes "firmware_main_step zephyr s = Some t"
  shows "firmware_bound t < firmware_bound s"
  using assms
  by (cases "fw_main_at s")
    (auto simp: firmware_main_step_def firmware_bound_def report_main_def Let_def split: option.splits)

lemma firmware_step_decreases: "firmware_step zephyr s t \<Longrightarrow> firmware_bound t < firmware_bound s"
  by (erule firmware_stepE)
    (auto dest: producer_decreases transmitter_decreases firmware_main_decreases)

lemma no_marker_before_end:
  assumes "producer_view pc k E S rp" and "None \<in> set S"
  shows "pc = P_pushed_end True \<or> pc = P_returned True \<or> pc = P_finished"
  using assms by (cases rule: producer_view.cases) (auto simp: sent_frames_def)

text \<open>A transmitter that waits has received everything sent, or has finished.\<close>

lemma transmitter_waits:
  assumes tv: "transmitter_view (transmitter_at s) S (signals (fw_queue s)) D out rt"
    and t: "transmitter_step zephyr s = None"
  shows "(\<exists>frs. S = map Some frs \<and> signals (fw_queue s) = [] \<and> out = lines_of frs) \<or>
      (transmitter_at s = T_finished \<and> None \<in> set S)"
  using tv
proof (cases rule: transmitter_view.cases)
  case (at_pop frs)
  with t have "pop_item zephyr default_item (fw_queue s) = None"
    by (auto simp: transmitter_step_def split: option.splits)
  then have "signals (fw_queue s) = []"
    using pop_item_cases(1) [of "fw_queue s" _ _ default_item]
    by (cases "signals (fw_queue s)") auto
  with at_pop show ?thesis by auto
qed (use t in \<open>auto simp: transmitter_step_def split: if_splits\<close>)

text \<open>A producer that waits has not sent the end marker and has filled the queue, or has finished.\<close>

lemma producer_waits:
  assumes pv: "producer_view (producer_at s) (next_index' (fw_sensor s)) E S rp"
    and p: "producer_step zephyr s = None"
  shows "producer_at s = P_finished \<or> (None \<notin> set S \<and> signals (fw_queue s) \<noteq> [])"
  using pv
proof (cases rule: producer_view.cases)
  case (at_push k)
  with p have "push_frame zephyr (serialize (sensor_frame k)) (fw_queue s) = None"
    by (auto simp: producer_step_def split: option.splits)
  with at_push show ?thesis
    using push_frame_cases(1) [of "fw_queue s" "serialize (sensor_frame k)"] max_msgs_positive
      length_signals [of "fw_queue s"]
    by (cases "signals (fw_queue s)") (auto simp: sent_frames_def)
next
  case at_push_end
  with p have "push_end_of_stream zephyr (fw_queue s) = None"
    by (auto simp: producer_step_def split: option.splits)
  with at_push_end show ?thesis
    using push_end_cases(1) [of "fw_queue s"] max_msgs_positive length_signals [of "fw_queue s"]
    by (cases "signals (fw_queue s)") (auto simp: sent_frames_def)
qed (use p in \<open>auto simp: producer_step_def split: if_splits prod.splits\<close>)

lemma firmware_progress:
  assumes "firmware_inv s" and "\<not> (\<exists>c. fw_main_at s = F_exit c)"
  shows "\<exists>t. firmware_step zephyr s t"
proof (rule ccontr)
  assume stuck: "\<nexists>t. firmware_step zephyr s t"
  from assms(1) obtain E S D out rp rt where
    pv: "producer_view (producer_at s) (next_index' (fw_sensor s)) E S rp" and
    tv: "transmitter_view (transmitter_at s) S (signals (fw_queue s)) D out rt" and
    mv: "main_view s"
    unfolding firmware_inv_def firmware_at_def by blast
  from stuck have p: "producer_step zephyr s = None" and t: "transmitter_step zephyr s = None"
    and m: "firmware_main_step zephyr s = None"
    by (simp_all add: firmware_step_iff all_conj_distrib)
  have t_waits: "(\<exists>frs. S = map Some frs \<and> signals (fw_queue s) = []) \<or>
      (transmitter_at s = T_finished \<and> None \<in> set S)"
    using transmitter_waits [OF tv t] by blast
  have fin: "producer_at s = P_finished"
    using producer_waits [OF pv p] t_waits by auto
  with pv have "None \<in> set S" by (auto elim: producer_view_cases simp: sent_all_def)
  with t_waits have "transmitter_at s = T_finished" by auto
  with fin mv m assms(2) show False
    using take_available [of "producer_finished s"] take_available [of "transmitter_finished s"]
    by (cases "fw_main_at s") (auto simp: main_view_def firmware_main_step_def)
qed

lemma firmware_exit_state:
  assumes "firmware_inv s" and "fw_main_at s = F_exit c"
  shows "c = 0 \<and> console s = lines_of encoded @ final_text
    \<and> firmware_snapshot (fw_metrics s)
      = \<lparr>samples_generated = 8, frames_serialized = 8, frames_enqueued = 8, frames_transmitted = 8,
         queue_push_failures = 0, queue_pop_failures = 0, end_markers_sent = 1, end_markers_received = 1\<rparr>"
proof -
  from assms(1) obtain E S D out rp rt where
    pv: "producer_view (producer_at s) (next_index' (fw_sensor s)) E S rp" and
    tv: "transmitter_view (transmitter_at s) S (signals (fw_queue s)) D out rt" and
    m: "fw_metrics s = firmware_metrics_after E D" and mv: "main_view s" and
    con: "console s = out @ (case fw_main_at s of F_exit _ \<Rightarrow> final_text | _ \<Rightarrow> [])"
    unfolding firmware_inv_def firmware_at_def by blast
  from mv assms(2) have fin: "producer_at s = P_finished" "transmitter_at s = T_finished" "c = 0"
    by (auto simp: main_view_def split: if_splits)
  from finished_run [OF pv [unfolded fin] tv [unfolded fin]] m con assms(2) fin(3) show ?thesis
    by (simp add: final_counts)
qed

end

sublocale firmware_run \<subseteq> fw: step_system "firmware_step zephyr" "firmware_start zephyr q0 sp st"
    firmware_inv firmware_bound "\<lambda>s. \<exists>c. fw_main_at s = F_exit c"
  by unfold_locales
    (auto intro: firmware_inv_start firmware_step_inv firmware_step_decreases dest: firmware_progress)

context firmware_run
begin

lemma firmware_every_run:
  assumes "(firmware_step zephyr)\<^sup>*\<^sup>* (firmware_start zephyr q0 sp st) s" and "\<nexists>t. firmware_step zephyr s t"
  shows "fw_main_at s = F_exit 0 \<and> console s = lines_of encoded @ final_text
    \<and> metrics_are_valid (firmware_snapshot (fw_metrics s))"
proof -
  obtain c where "fw_main_at s = F_exit c" using fw.stuck_is_final [OF assms] by auto
  with firmware_exit_state [OF fw.reachable_inv [OF assms(1)]] show ?thesis
    by (simp add: metrics_are_valid_def deterministic_sample_count_def)
qed

lemma firmware_bound_start: "firmware_bound (firmware_start zephyr q0 sp st) = 177"
  by (simp add: firmware_bound_def firmware_start_def new_sensor_model_def construct_empties)

lemma firmware_run_is_short:
  assumes "(firmware_step zephyr ^^ n) (firmware_start zephyr q0 sp st) s"
  shows "n \<le> 177 \<and> (\<exists>t. (firmware_step zephyr)\<^sup>*\<^sup>* s t \<and> fw_main_at t = F_exit 0)"
proof
  show "n \<le> 177" using fw.run_bounded [OF assms] by (simp add: firmware_bound_start)
  have "(firmware_step zephyr)\<^sup>*\<^sup>* (firmware_start zephyr q0 sp st) s"
    using assms by (rule relpowp_imp_rtranclp)
  then show "\<exists>t. (firmware_step zephyr)\<^sup>*\<^sup>* s t \<and> fw_main_at t = F_exit 0"
    using fw.reaches_final fw.reachable_inv firmware_exit_state by blast
qed

text \<open>What was sent, against the counters of the producer: the one after the last push that has been
  counted may have been sent already.\<close>

lemma producer_sent:
  assumes "producer_view pc k E S r"
  shows "\<exists>j. S = take j sent_all \<and> j \<le> 9
    \<and> j - (count_list E Frame_enqueued + count_list E End_sent) \<in> {0, 1}
    \<and> count_list E Frame_enqueued + count_list E End_sent \<le> j \<and> count_list E Push_failed = 0"
proof -
  have frames: "sent_frames k = take k sent_all" if "k \<le> 8" for k
    using that by (simp add: sent_all_def sent_frames_def take_map)
  have counts: "count_list (rounds k) Frame_enqueued = k" "count_list (rounds k) End_sent = 0"
    "count_list (rounds k) Push_failed = 0" for k
    by (induction k) (simp_all add: rounds_def)
  have len: "length sent_all = 9" by (simp add: sent_all_def sent_frames_def)
  show ?thesis
    by (rule exI [of _ "length S"],
      use assms in \<open>cases rule: producer_view.cases; simp add: counts frames len min_absorb2\<close>)
qed

lemma transmitter_received:
  assumes "transmitter_view pc S qs D out r"
  shows "\<exists>i. i \<le> length S \<and> qs = drop i S
    \<and> i - (count_list D Frame_transmitted + count_list D End_received) \<in> {0, 1}
    \<and> count_list D Frame_transmitted + count_list D End_received \<le> i \<and> count_list D Pop_failed = 0"
proof -
  have counts: "count_list (replicate n Frame_transmitted) Frame_transmitted = n"
    "count_list (replicate n Frame_transmitted) End_received = 0"
    "count_list (replicate n Frame_transmitted) Pop_failed = 0" for n
    by (induction n) simp_all
  show ?thesis
    by (rule exI [of _ "length S - length qs"],
      use assms in \<open>cases rule: transmitter_view.cases; simp add: counts\<close>)
qed

lemma firmware_queue_content:
  assumes "(firmware_step zephyr)\<^sup>*\<^sup>* (firmware_start zephyr q0 sp st) s"
    and "m = firmware_snapshot (fw_metrics s)"
  shows "length (messages (fw_queue s)) \<le> telemetry_queue_capacity
    \<and> queue_push_failures m = 0 \<and> queue_pop_failures m = 0
    \<and> (\<exists>i j. i \<le> j \<and> j \<le> 9 \<and> signals (fw_queue s) = drop i (take j sent_all)
        \<and> unat (frames_enqueued m + end_markers_sent m) \<le> j
        \<and> j \<le> unat (frames_enqueued m + end_markers_sent m) + 1
        \<and> unat (frames_transmitted m + end_markers_received m) \<le> i
        \<and> i \<le> unat (frames_transmitted m + end_markers_received m) + 1)"
proof -
  from fw.reachable_inv [OF assms(1)] obtain E S D out rp rt where
    pv: "producer_view (producer_at s) (next_index' (fw_sensor s)) E S rp" and
    tv: "transmitter_view (transmitter_at s) S (signals (fw_queue s)) D out rt" and
    m: "fw_metrics s = firmware_metrics_after E D" and
    room: "length (messages (fw_queue s)) \<le> telemetry_queue_capacity"
    unfolding firmware_inv_def firmware_at_def by blast
  let ?e = "count_list E Frame_enqueued + count_list E End_sent"
    and ?t = "count_list D Frame_transmitted + count_list D End_received"
  from producer_sent [OF pv] obtain j where j: "S = take j sent_all" "j \<le> 9" "j - ?e \<in> {0, 1}" "?e \<le> j"
    "count_list E Push_failed = 0" by blast
  from transmitter_received [OF tv] obtain i where i: "i \<le> length S" "signals (fw_queue s) = drop i S"
    "i - ?t \<in> {0, 1}" "?t \<le> i" "count_list D Pop_failed = 0" by blast
  have snap: "m = counts E D" using assms(2) m by (simp add: firmware_snapshot_def firmware_metrics_after_def values_both)
  have "i \<le> j" using i(1) j(1) by simp
  have small: "unat (of_nat n :: u64) = n" if "n \<le> 9" for n
    using that by (simp add: unsigned_of_nat take_bit_nat_eq_self)
  have e: "unat (frames_enqueued m + end_markers_sent m) = ?e"
    using small [of ?e] j(2,4) by (simp add: snap counts_def)
  have t: "unat (frames_transmitted m + end_markers_received m) = ?t"
    using small [of ?t] j(2) i(4) \<open>i \<le> j\<close> by (simp add: snap counts_def)
  have "queue_push_failures m = 0 \<and> queue_pop_failures m = 0"
    using j(5) i(5) by (simp add: snap counts_def)
  moreover have "signals (fw_queue s) = drop i (take j sent_all)" using i(2) j(1) by simp
  moreover have "j \<le> ?e + 1" "i \<le> ?t + 1" using i(3) j(3) by auto
  ultimately show ?thesis
    using room \<open>i \<le> j\<close> j(2,4) i(4) unfolding e t by (intro conjI exI [of _ i] exI [of _ j]) simp_all
qed

end

lemma firmware_runI:
  assumes "kernel_services zephyr messages count telemetry_queue_capacity 1"
    and "count sp = 0" and "count st = 0"
  shows "firmware_run zephyr messages count sp st"
  using assms by (simp add: firmware_run_def firmware_run_axioms_def)

text \<open>The list implementation of the kernel meets the hypotheses, and its runs end.\<close>

lemma demo_kernel_contract:
  "kernel_services (list_kernel telemetry_queue_capacity 1) (\<lambda>q. q) (\<lambda>c. c) telemetry_queue_capacity 1"
  by (rule list_kernel_meets_contract) (simp_all add: telemetry_queue_capacity_def)

interpretation demo_firmware: firmware_run "list_kernel telemetry_queue_capacity 1" "\<lambda>q. q" "\<lambda>c. c" q0 0 0 for q0
  by (rule firmware_runI [OF demo_kernel_contract]) simp_all

lemma demo_firmware_ends:
  obtains s where "(firmware_step (list_kernel telemetry_queue_capacity 1))\<^sup>*\<^sup>*
      (firmware_start (list_kernel telemetry_queue_capacity 1) q 0 0) s"
    "\<nexists>t. firmware_step (list_kernel telemetry_queue_capacity 1) s t"
  using demo_firmware.fw.reaches_stuck [of q, OF rtranclp.rtrancl_refl] by blast

subsection \<open>Properties\<close>

text \<open>C3: every schedule of the firmware ends well: with any kernel that meets its documentation and
  whatever the message queue held before, a reachable state without a next step is the exit with
  code 0, its metrics are valid, and the console holds the eight frames in order, each once,
  followed by the summary and the end line.\<close>

theorem firmware_every_schedule:
  assumes "kernel_services zephyr messages count telemetry_queue_capacity 1"
    and "count sp = 0" and "count st = 0"
    and "(firmware_step zephyr)\<^sup>*\<^sup>* (firmware_start zephyr q0 sp st) s" and "\<nexists>t. firmware_step zephyr s t"
  shows "fw_main_at s = F_exit 0 \<and> metrics_are_valid (firmware_snapshot (fw_metrics s))
    \<and> console s = concat (map (\<lambda>(i, fr). frame_line (of_nat (Suc i)) (format fr))
          (enumerate 0 (map serialize sensor_frames)))
        @ ''TLFIRMWARE SUMMARY produced=8 transmitted=8 queue_errors=0'' @ [CHR 0x0A]
        @ ''TLFIRMWARE DONE'' @ [CHR 0x0A]"
  using firmware_run.firmware_every_run [OF firmware_runI [OF assms(1-3)] assms(4,5)]
  by (simp add: lines_of_def encoded_def final_text_def)

theorem firmware_every_schedule_witness:
  "\<exists>s. (firmware_step (list_kernel telemetry_queue_capacity 1))\<^sup>*\<^sup>*
      (firmware_start (list_kernel telemetry_queue_capacity 1) [default_item] 0 0) s
    \<and> fw_main_at s = F_exit 0 \<and> metrics_are_valid (firmware_snapshot (fw_metrics s))
    \<and> console s = concat (map (\<lambda>(i, fr). frame_line (of_nat (Suc i)) (format fr))
          (enumerate 0 (map serialize sensor_frames)))
        @ ''TLFIRMWARE SUMMARY produced=8 transmitted=8 queue_errors=0'' @ [CHR 0x0A]
        @ ''TLFIRMWARE DONE'' @ [CHR 0x0A]"
proof -
  obtain s where s: "(firmware_step (list_kernel telemetry_queue_capacity 1))\<^sup>*\<^sup>*
      (firmware_start (list_kernel telemetry_queue_capacity 1) [default_item] 0 0) s"
    "\<nexists>t. firmware_step (list_kernel telemetry_queue_capacity 1) s t"
    by (rule demo_firmware_ends)
  then show ?thesis
    using firmware_every_schedule [OF demo_kernel_contract refl refl s] by blast
qed

text \<open>C19: the firmware terminates: no schedule makes more than 177 steps, and from every state of a
  run the exit with code 0 can be reached.\<close>

theorem firmware_terminates:
  assumes "kernel_services zephyr messages count telemetry_queue_capacity 1"
    and "count sp = 0" and "count st = 0"
    and "(firmware_step zephyr ^^ n) (firmware_start zephyr q0 sp st) s"
  shows "n \<le> 177 \<and> (\<exists>t. (firmware_step zephyr)\<^sup>*\<^sup>* s t \<and> fw_main_at t = F_exit 0)"
  using firmware_run.firmware_run_is_short [OF firmware_runI [OF assms(1-3)] assms(4)] .

theorem firmware_terminates_witness:
  "(0 :: nat) \<le> 177 \<and> (\<exists>t. (firmware_step (list_kernel telemetry_queue_capacity 1))\<^sup>*\<^sup>*
      (firmware_start (list_kernel telemetry_queue_capacity 1) [] 0 0) t \<and> fw_main_at t = F_exit 0)"
  by (rule firmware_terminates [OF demo_kernel_contract]) simp_all

text \<open>C40: in every state of every run the message queue holds what was sent and not yet received, in
  order: at most four of the eight frames and the end marker, from the \<open>i\<close>-th to before the \<open>j\<close>-th,
  where \<open>j\<close> is the number of sends and \<open>i\<close> the number of receptions that the metrics count, or one
  more when the thread has not counted its last call yet; and no push or pop has failed.\<close>

theorem firmware_queue_is_exact:
  assumes "kernel_services zephyr messages count telemetry_queue_capacity 1"
    and "count sp = 0" and "count st = 0"
    and "(firmware_step zephyr)\<^sup>*\<^sup>* (firmware_start zephyr q0 sp st) s"
    and "m = firmware_snapshot (fw_metrics s)"
  shows "length (messages (fw_queue s)) \<le> 4 \<and> queue_push_failures m = 0 \<and> queue_pop_failures m = 0
    \<and> (\<exists>i j. i \<le> j \<and> j \<le> 9
        \<and> map signal_of (messages (fw_queue s))
          = drop i (take j (map (\<lambda>f. Some (serialize f)) sensor_frames @ [None]))
        \<and> unat (frames_enqueued m + end_markers_sent m) \<le> j
        \<and> j \<le> unat (frames_enqueued m + end_markers_sent m) + 1
        \<and> unat (frames_transmitted m + end_markers_received m) \<le> i
        \<and> i \<le> unat (frames_transmitted m + end_markers_received m) + 1)"
proof -
  have run: "firmware_run zephyr messages count sp st" by (rule firmware_runI [OF assms(1-3)])
  have "telemetry_queue_capacity = 4" by (simp add: telemetry_queue_capacity_def)
  moreover have "sent_all = map (\<lambda>f. Some (serialize f)) sensor_frames @ [None]"
    by (simp add: sent_all_def sent_frames_def encoded_def)
  ultimately show ?thesis
    using firmware_run.firmware_queue_content [OF run assms(4,5)]
    by (simp only: kernel_services.signals_def [OF assms(1)])
qed

lemma producer_runs:
  "producer_step zephyr s = Some t \<Longrightarrow> (firmware_step zephyr)\<^sup>*\<^sup>* t u \<Longrightarrow> (firmware_step zephyr)\<^sup>*\<^sup>* s u"
  by (rule converse_rtranclp_into_rtranclp) (rule firmware_step.producer_thread)

text \<open>The producer runs alone until the queue is full.\<close>

lemma filling_run:
  "\<exists>s. (firmware_step (list_kernel 4 1))\<^sup>*\<^sup>* (firmware_start (list_kernel 4 1) [] 0 0) s
    \<and> length (fw_queue s) = 4 \<and> producer_step (list_kernel 4 1) s = None"
  unfolding firmware_start_def construct_queue_def
  by (intro exI conjI)
    ((rule producer_runs, (simp add: producer_step_def has_next_iff next_frame_eq new_sensor_model_def
        push_frame_def list_kernel_def Let_def firmware_record_defs new_firmware_metrics_def; fail))+,
      rule rtranclp.rtrancl_refl, simp_all add: producer_step_def push_frame_def list_kernel_def Let_def)

theorem firmware_queue_is_exact_witness:
  "\<exists>s m. (firmware_step (list_kernel 4 1))\<^sup>*\<^sup>* (firmware_start (list_kernel 4 1) [] 0 0) s
    \<and> length (fw_queue s) = 4 \<and> producer_step (list_kernel 4 1) s = None
    \<and> m = firmware_snapshot (fw_metrics s) \<and> queue_push_failures m = 0 \<and> queue_pop_failures m = 0
    \<and> (\<exists>i j. i \<le> j \<and> j \<le> 9
        \<and> map signal_of (fw_queue s)
          = drop i (take j (map (\<lambda>f. Some (serialize f)) sensor_frames @ [None]))
        \<and> unat (frames_enqueued m + end_markers_sent m) \<le> j
        \<and> j \<le> unat (frames_enqueued m + end_markers_sent m) + 1
        \<and> unat (frames_transmitted m + end_markers_received m) \<le> i
        \<and> i \<le> unat (frames_transmitted m + end_markers_received m) + 1)"
proof -
  obtain s where s: "(firmware_step (list_kernel 4 1))\<^sup>*\<^sup>* (firmware_start (list_kernel 4 1) [] 0 0) s"
    "length (fw_queue s) = 4" "producer_step (list_kernel 4 1) s = None"
    using filling_run by blast
  have "kernel_services (list_kernel 4 1) (\<lambda>q. q) (\<lambda>c. c) telemetry_queue_capacity 1"
    using demo_kernel_contract by (simp add: telemetry_queue_capacity_def)
  from firmware_queue_is_exact [OF this _ _ s(1) refl] s show ?thesis by blast
qed

end
