(* ===== verification/Buffer_Interface.thy ===== *)
theory Buffer_Interface
  imports Bounded_Channel
begin

text \<open>
  The external class \<^verbatim>\<open>elite::concurrency::SafeConcurrentBuffer\<close> of the package
  \<^verbatim>\<open>cpp-safe-concurrent-buffer\<close> is not part of the repository: its operations are the record
  \<open>buffer_ops\<close>, a parameter of every definition that calls them. A call that waits is \<open>None\<close>; a
  call that ends returns a value or raises an exception, together with the new buffer.

  The locale \<open>safe_buffer\<close> is what \<^verbatim>\<open>docs/HOST_PIPELINE.md\<close> documents of it: first-in first-out,
  \<^verbatim>\<open>push()\<close> blocks while the buffer is full and returns \<^verbatim>\<open>false\<close> only when it is closed,
  \<^verbatim>\<open>pop()\<close> returns \<^verbatim>\<open>std::nullopt\<close> only when it is closed and empty, \<^verbatim>\<open>close()\<close> keeps the
  accepted items available. The program also handles a \<^verbatim>\<open>pop()\<close> that throws: \<open>raising_buffer\<close> is the
  contract without the law that it never does, so that each call may throw, the buffer then
  unchanged. While a \<open>safe_buffer\<close> is open it is a \<open>bounded_channel\<close>. The list buffer shows
  that the contract can be met, and \<open>faulty_ops\<close> is a buffer that fails after a number of calls.
\<close>

subsection \<open>The parameter\<close>

text \<open>An exception carries the text of \<^verbatim>\<open>what()\<close> when it derives from \<^verbatim>\<open>std::exception\<close>.\<close>

datatype 'a outcome = Returns 'a | Raises "string option"

record 'b buffer_ops =
  push :: "bytes \<Rightarrow> 'b \<Rightarrow> (bool outcome \<times> 'b) option"
  pop :: "'b \<Rightarrow> (bytes option outcome \<times> 'b) option"
  close :: "'b \<Rightarrow> 'b"

subsection \<open>The documented contract\<close>

locale raising_buffer =
  fixes ops :: "'b buffer_ops"
    and items :: "'b \<Rightarrow> bytes list"
    and closed :: "'b \<Rightarrow> bool"
    and capacity :: nat
    and valid :: "'b \<Rightarrow> bool"
  assumes buffer_capacity: "0 < capacity"
    and push_room: "valid b \<Longrightarrow> \<not> closed b \<Longrightarrow> length (items b) < capacity \<Longrightarrow>
      \<exists>b'. push ops x b = Some (Returns True, b') \<and> valid b' \<and> \<not> closed b' \<and> items b' = items b @ [x]"
    and push_full: "valid b \<Longrightarrow> \<not> closed b \<Longrightarrow> capacity \<le> length (items b) \<Longrightarrow> push ops x b = None"
    and push_closed: "valid b \<Longrightarrow> closed b \<Longrightarrow>
      \<exists>b'. push ops x b = Some (Returns False, b') \<and> valid b' \<and> closed b' \<and> items b' = items b"
    and pop_answers: "valid b \<Longrightarrow> closed b \<or> items b \<noteq> [] \<Longrightarrow> pop ops b \<noteq> None"
    and pop_returns: "valid b \<Longrightarrow> pop ops b = Some (Returns front, b') \<Longrightarrow> valid b' \<and> closed b' = closed b
      \<and> (case front of Some y \<Rightarrow> items b = y # items b' | None \<Rightarrow> closed b \<and> items b = [] \<and> items b' = [])"
    and pop_raises: "valid b \<Longrightarrow> pop ops b = Some (Raises w, b') \<Longrightarrow>
      valid b' \<and> closed b' = closed b \<and> items b' = items b"
    and close_closes: "valid b \<Longrightarrow>
      valid (close ops b) \<and> closed (close ops b) \<and> items (close ops b) = items b"

locale safe_buffer = raising_buffer ops items closed capacity valid
  for ops :: "'b buffer_ops" and items closed capacity valid +
  assumes pop_never_raises: "valid b \<Longrightarrow> pop ops b \<noteq> Some (Raises w, b')"
begin

lemma pop_value:
  assumes "valid b" and "closed b \<or> items b \<noteq> []"
  shows "\<exists>front b'. pop ops b = Some (Returns front, b')"
proof -
  from pop_answers [OF assms] obtain r b' where "pop ops b = Some (r, b')" by auto
  with pop_never_raises [OF assms(1)] show ?thesis by (cases r) auto
qed

lemma pop_item:
  assumes "valid b" and "items b = y # ys"
  shows "\<exists>b'. pop ops b = Some (Returns (Some y), b') \<and> valid b' \<and> closed b' = closed b \<and> items b' = ys"
proof -
  from pop_value [OF assms(1)] assms(2) obtain x b' where "pop ops b = Some (Returns x, b')" by auto
  with pop_returns [OF assms(1) this] assms(2) show ?thesis by (cases x) auto
qed

lemma pop_empty:
  assumes "valid b" and "\<not> closed b" and "items b = []"
  shows "pop ops b = None"
proof (cases "pop ops b")
  case (Some rb)
  obtain r b' where "rb = (r, b')" by fastforce
  with Some pop_never_raises [OF assms(1)] pop_returns [OF assms(1)] assms(2,3) show ?thesis
    by (cases r) (auto split: option.splits)
qed

lemma pop_drained:
  assumes "valid b" and "closed b" and "items b = []"
  shows "\<exists>b'. pop ops b = Some (Returns None, b') \<and> valid b' \<and> closed b' \<and> items b' = []"
proof -
  from pop_value [OF assms(1)] assms(2) obtain x b' where "pop ops b = Some (Returns x, b')" by auto
  with pop_returns [OF assms(1) this] assms(2,3) show ?thesis by (cases x) auto
qed

end

subsection \<open>An open buffer is a bounded channel\<close>

definition buffer_send :: "'b buffer_ops \<Rightarrow> bytes \<Rightarrow> 'b \<Rightarrow> 'b option" where
  "buffer_send ops x b = (case push ops x b of Some (Returns True, b') \<Rightarrow> Some b' | _ \<Rightarrow> None)"

definition buffer_receive :: "'b buffer_ops \<Rightarrow> 'b \<Rightarrow> (bytes \<times> 'b) option" where
  "buffer_receive ops b =
     (case pop ops b of Some (Returns (Some x), b') \<Rightarrow> Some (x, b') | _ \<Rightarrow> None)"

sublocale safe_buffer \<subseteq> open_buffer: bounded_channel "buffer_send ops" "buffer_receive ops" items
    capacity "\<lambda>b. valid b \<and> \<not> closed b"
proof
  show "0 < capacity" by (rule buffer_capacity)
next
  fix b x
  assume "valid b \<and> \<not> closed b" and "length (items b) < capacity"
  then show "\<exists>b'. buffer_send ops x b = Some b' \<and> (valid b' \<and> \<not> closed b') \<and> items b' = items b @ [x]"
    using push_room [of b x] by (auto simp: buffer_send_def)
next
  fix b x
  assume "valid b \<and> \<not> closed b" and "capacity \<le> length (items b)"
  then show "buffer_send ops x b = None" by (simp add: buffer_send_def push_full)
next
  fix b y ys
  assume "valid b \<and> \<not> closed b" and "items b = y # ys"
  then show "\<exists>b'. buffer_receive ops b = Some (y, b') \<and> (valid b' \<and> \<not> closed b') \<and> items b' = ys"
    using pop_item [of b y ys] by (auto simp: buffer_receive_def)
next
  fix b
  assume "valid b \<and> \<not> closed b" and "items b = []"
  then show "buffer_receive ops b = None" by (simp add: buffer_receive_def pop_empty)
qed

context raising_buffer
begin

lemma push_cases [consumes 2, case_names waits stored refused]:
  assumes "valid b" and "push ops x b = r"
  obtains "r = None" "\<not> closed b" "capacity \<le> length (items b)"
  | b' where "r = Some (Returns True, b')" "\<not> closed b" "valid b'" "\<not> closed b'"
      "items b' = items b @ [x]"
  | b' where "r = Some (Returns False, b')" "closed b" "valid b'" "closed b'" "items b' = items b"
  using assms push_room [of b x] push_full [of b x] push_closed [of b x]
  by (cases "closed b"; cases "length (items b) < capacity") auto

lemma raising_pop_cases [consumes 2, case_names waits item drained raised]:
  assumes "valid b" and "pop ops b = r"
  obtains "r = None" "\<not> closed b" "items b = []"
  | y b' where "r = Some (Returns (Some y), b')" "valid b'" "closed b' = closed b"
      "items b = y # items b'"
  | b' where "r = Some (Returns None, b')" "closed b" "items b = []" "valid b'" "closed b'"
      "items b' = []"
  | w b' where "r = Some (Raises w, b')" "valid b'" "closed b' = closed b" "items b' = items b"
proof (cases r)
  case None
  with assms pop_answers [of b] that(1) show thesis by auto
next
  case (Some rb)
  obtain x b' where rb: "rb = (x, b')" by fastforce
  show thesis
  proof (cases x)
    case (Returns y)
    with Some rb assms pop_returns [of b y b'] that(2,3) show thesis by (auto split: option.splits)
  next
    case (Raises w)
    with Some rb assms pop_raises [of b w b'] that(4) show thesis by blast
  qed
qed

end

context safe_buffer
begin

lemma pop_cases [consumes 2, case_names waits item drained]:
  assumes "valid b" and "pop ops b = r"
  obtains "r = None" "\<not> closed b" "items b = []"
  | y b' where "r = Some (Returns (Some y), b')" "valid b'" "closed b' = closed b"
      "items b = y # items b'"
  | b' where "r = Some (Returns None, b')" "closed b" "items b = []" "valid b'" "closed b'"
      "items b' = []"
  using assms pop_item [of b] pop_empty [of b] pop_drained [of b]
  by (cases "items b"; cases "closed b") auto

end

subsection \<open>A buffer that meets the contract\<close>

record list_buffer =
  stored :: "bytes list"
  is_closed :: bool

definition empty_list_buffer :: list_buffer where
  "empty_list_buffer = \<lparr>stored = [], is_closed = False\<rparr>"

definition list_buffer_ops :: "nat \<Rightarrow> list_buffer buffer_ops" where
  "list_buffer_ops n =
     \<lparr>push = (\<lambda>x b.
        if is_closed b then Some (Returns False, b)
        else if length (stored b) < n then Some (Returns True, b\<lparr>stored := stored b @ [x]\<rparr>)
        else None),
      pop = (\<lambda>b. case stored b of
          y # ys \<Rightarrow> Some (Returns (Some y), b\<lparr>stored := ys\<rparr>)
        | [] \<Rightarrow> if is_closed b then Some (Returns None, b) else None),
      close = (\<lambda>b. b\<lparr>is_closed := True\<rparr>)\<rparr>"

lemma list_buffer_meets_contract:
  "0 < n \<Longrightarrow> safe_buffer (list_buffer_ops n) stored is_closed n (\<lambda>_. True)"
  by unfold_locales (auto simp: list_buffer_ops_def split: list.splits if_splits)

subsection \<open>A buffer that fails\<close>

text \<open>The list buffer whose \<^verbatim>\<open>pop\<close> raises after a given number of calls.\<close>

record faulty_buffer =
  faulty_list :: list_buffer
  pops_left :: nat

definition faulty_start :: "nat \<Rightarrow> faulty_buffer" where
  "faulty_start k = \<lparr>faulty_list = empty_list_buffer, pops_left = k\<rparr>"

definition faulty_ops :: "nat \<Rightarrow> faulty_buffer buffer_ops" where
  "faulty_ops n =
     \<lparr>push = (\<lambda>x b. case push (list_buffer_ops n) x (faulty_list b) of
          None \<Rightarrow> None | Some (r, l) \<Rightarrow> Some (r, b\<lparr>faulty_list := l\<rparr>)),
      pop = (\<lambda>b. if pops_left b = 0 then Some (Raises None, b)
        else case pop (list_buffer_ops n) (faulty_list b) of
          None \<Rightarrow> None | Some (r, l) \<Rightarrow> Some (r, \<lparr>faulty_list = l, pops_left = pops_left b - 1\<rparr>)),
      close = (\<lambda>b. b\<lparr>faulty_list := close (list_buffer_ops n) (faulty_list b)\<rparr>)\<rparr>"

lemma faulty_buffer_meets_contract:
  "0 < n \<Longrightarrow> raising_buffer (faulty_ops n) (\<lambda>b. stored (faulty_list b)) (\<lambda>b. is_closed (faulty_list b)) n
    (\<lambda>_. True)"
  by unfold_locales
    (auto simp: faulty_ops_def list_buffer_ops_def split: list.splits if_splits option.splits)

end
