(* ===== verification/Deserializer.thy ===== *)
theory Deserializer
  imports Serializer
begin

unbundle bit_operations_syntax

text \<open>
  The frame decoder, \<^verbatim>\<open>protocol/src/deserializer.cpp\<close> with the result types of
  \<^verbatim>\<open>deserializer.hpp\<close>: the field readers, and \<open>deserialize\<close> with its six guards in the
  code's order. \<open>deserialize_checked\<close> is the same code over checked reads; that it never fails
  is the memory safety of the decoder on arbitrary input. The round trips with
  \<open>serialize\<close> go both ways: an accepted frame has exactly one encoding.
\<close>

subsection \<open>The code\<close>

datatype ParseError =
    PE_none
  | PE_invalid_frame_size
  | PE_invalid_magic
  | PE_unsupported_version
  | PE_unsupported_message_type
  | PE_invalid_payload_size
  | PE_checksum_mismatch

text \<open>The enumerators in the order of the enumeration, with their underlying values.\<close>

fun parse_error_value :: "ParseError \<Rightarrow> int" where
  "parse_error_value PE_none = 0"
| "parse_error_value PE_invalid_frame_size = 1"
| "parse_error_value PE_invalid_magic = 2"
| "parse_error_value PE_unsupported_version = 3"
| "parse_error_value PE_unsupported_message_type = 4"
| "parse_error_value PE_invalid_payload_size = 5"
| "parse_error_value PE_checksum_mismatch = 6"

instantiation ParseError :: linorder
begin

definition less_eq_ParseError :: "ParseError \<Rightarrow> ParseError \<Rightarrow> bool" where
  "less_eq_ParseError d e \<longleftrightarrow> parse_error_value d \<le> parse_error_value e"

definition less_ParseError :: "ParseError \<Rightarrow> ParseError \<Rightarrow> bool" where
  "less_ParseError d e \<longleftrightarrow> parse_error_value d < parse_error_value e"

instance
proof
  fix d e :: ParseError
  assume "d \<le> e" and "e \<le> d"
  then show "d = e" by (cases d; cases e) (simp_all add: less_eq_ParseError_def)
qed (auto simp: less_eq_ParseError_def less_ParseError_def)

end

record ParseResult =
  frame :: "TelemetryFrame option"
  error :: ParseError

definition has_value :: "ParseResult \<Rightarrow> bool" where
  "has_value r = (case frame r of None \<Rightarrow> False | Some _ \<Rightarrow> True)"

definition read_u16 :: "bytes \<Rightarrow> nat \<Rightarrow> u16" where
  "read_u16 bs off =
     (let high = (push_bit 8 (ucast (bs ! off)) :: u32);
          low = (ucast (bs ! (off + 1)) :: u32)
      in ucast (high OR low))"

definition read_u32 :: "bytes \<Rightarrow> nat \<Rightarrow> u32" where
  "read_u32 bs off =
     foldl (\<lambda>value index. push_bit 8 value OR ucast (bs ! (off + index))) 0 [0..<4]"

definition read_u64 :: "bytes \<Rightarrow> nat \<Rightarrow> u64" where
  "read_u64 bs off =
     foldl (\<lambda>value index. push_bit 8 value OR ucast (bs ! (off + index))) 0 [0..<8]"

definition failure :: "ParseError \<Rightarrow> ParseResult" where
  "failure e = \<lparr>frame = None, error = e\<rparr>"

definition deserialize :: "bytes \<Rightarrow> ParseResult" where
  "deserialize bs =
     (if length bs \<noteq> frame_size then failure PE_invalid_frame_size
      else if bs ! 0 \<noteq> magic ! 0 \<or> bs ! 1 \<noteq> magic ! 1 then failure PE_invalid_magic
      else if bs ! version_offset \<noteq> version_value supported_version
        then failure PE_unsupported_version
      else if bs ! message_type_offset \<noteq> message_type_value supported_message_type
        then failure PE_unsupported_message_type
      else
        let parsed_payload_size = read_u16 bs payload_size_offset
        in if parsed_payload_size \<noteq> telemetry_payload_size then failure PE_invalid_payload_size
           else
             let expected_crc = calculate_crc32 (take crc_offset bs);
                 received_crc = read_u32 bs crc_offset
             in if received_crc \<noteq> expected_crc then failure PE_checksum_mismatch
                else
                  \<lparr>frame = Some
                     \<lparr>header =
                        \<lparr>version = supported_version,
                         message_type = supported_message_type,
                         payload_size = parsed_payload_size,
                         sequence = read_u32 bs sequence_offset,
                         timestamp_microseconds = read_u64 bs timestamp_offset\<rparr>,
                      payload =
                        \<lparr>temperature_millicelsius = read_u32 bs temperature_offset,
                         pressure_pascal = read_u32 bs pressure_offset,
                         supply_millivolts = read_u16 bs supply_voltage_offset,
                         status_flags = read_u16 bs status_flags_offset\<rparr>\<rparr>,
                   error = PE_none\<rparr>)"

subsection \<open>The code over checked reads\<close>

definition read_u16_checked :: "bytes \<Rightarrow> nat \<Rightarrow> u16 option" where
  "read_u16_checked bs off = do {
     h \<leftarrow> index_at bs off;
     let high = (push_bit 8 (ucast h) :: u32);
     l \<leftarrow> index_at bs (off + 1);
     let low = (ucast l :: u32);
     Some (ucast (high OR low))
   }"

definition read_u32_checked :: "bytes \<Rightarrow> nat \<Rightarrow> u32 option" where
  "read_u32_checked bs off =
     foldl (\<lambda>state index. do {
         value \<leftarrow> state;
         b \<leftarrow> index_at bs (off + index);
         Some (push_bit 8 value OR ucast b)
       })
       (Some 0) [0..<4]"

definition read_u64_checked :: "bytes \<Rightarrow> nat \<Rightarrow> u64 option" where
  "read_u64_checked bs off =
     foldl (\<lambda>state index. do {
         value \<leftarrow> state;
         b \<leftarrow> index_at bs (off + index);
         Some (push_bit 8 value OR ucast b)
       })
       (Some 0) [0..<8]"

definition deserialize_checked :: "bytes \<Rightarrow> ParseResult option" where
  "deserialize_checked bs =
     (if length bs \<noteq> frame_size then Some (failure PE_invalid_frame_size)
      else do {
        b0 \<leftarrow> index_at bs 0;
        m0 \<leftarrow> index_at magic 0;
        b1 \<leftarrow> (if b0 \<noteq> m0 then Some 0 else index_at bs 1);
        m1 \<leftarrow> index_at magic 1;
        if b0 \<noteq> m0 \<or> b1 \<noteq> m1 then Some (failure PE_invalid_magic)
        else do {
          bv \<leftarrow> index_at bs version_offset;
          if bv \<noteq> version_value supported_version then Some (failure PE_unsupported_version)
          else do {
            bt \<leftarrow> index_at bs message_type_offset;
            if bt \<noteq> message_type_value supported_message_type
            then Some (failure PE_unsupported_message_type)
            else do {
              parsed_payload_size \<leftarrow> read_u16_checked bs payload_size_offset;
              if parsed_payload_size \<noteq> telemetry_payload_size
              then Some (failure PE_invalid_payload_size)
              else do {
                covered \<leftarrow> (if crc_offset \<le> length bs then Some (take crc_offset bs) else None);
                let expected_crc = calculate_crc32 covered;
                received_crc \<leftarrow> read_u32_checked bs crc_offset;
                if received_crc \<noteq> expected_crc then Some (failure PE_checksum_mismatch)
                else do {
                  sequence' \<leftarrow> read_u32_checked bs sequence_offset;
                  timestamp' \<leftarrow> read_u64_checked bs timestamp_offset;
                  temperature' \<leftarrow> read_u32_checked bs temperature_offset;
                  pressure' \<leftarrow> read_u32_checked bs pressure_offset;
                  supply' \<leftarrow> read_u16_checked bs supply_voltage_offset;
                  flags' \<leftarrow> read_u16_checked bs status_flags_offset;
                  Some \<lparr>frame = Some
                     \<lparr>header =
                        \<lparr>version = supported_version,
                         message_type = supported_message_type,
                         payload_size = parsed_payload_size,
                         sequence = sequence',
                         timestamp_microseconds = timestamp'\<rparr>,
                      payload =
                        \<lparr>temperature_millicelsius = temperature',
                         pressure_pascal = pressure',
                         supply_millivolts = supply',
                         status_flags = flags'\<rparr>\<rparr>,
                   error = PE_none\<rparr>
                }
              }
            }
          }
        }
      })"

subsection \<open>The documented order of the checks\<close>

text \<open>
  The rows of the error table of \<^verbatim>\<open>docs/PROTOCOL.md\<close>, in its order: the error of a byte
  string is the first row whose condition holds.
\<close>

definition spec_checks :: "bytes \<Rightarrow> (bool \<times> ParseError) list" where
  "spec_checks bs =
     [(length bs \<noteq> 34, PE_invalid_frame_size),
      (take 2 bs \<noteq> [0x54, 0x4C], PE_invalid_magic),
      (take 1 (drop 2 bs) \<noteq> [1], PE_unsupported_version),
      (take 1 (drop 3 bs) \<noteq> [1], PE_unsupported_message_type),
      (take 2 (drop 4 bs) \<noteq> be_encode 2 (12 :: u16), PE_invalid_payload_size),
      (drop 30 bs \<noteq> be_encode 4 (calculate_crc32 (take 30 bs)), PE_checksum_mismatch)]"

definition spec_error :: "bytes \<Rightarrow> ParseError" where
  "spec_error bs =
     (case dropWhile (\<lambda>(fails, _). \<not> fails) (spec_checks bs) of
        [] \<Rightarrow> PE_none
      | (_, e) # _ \<Rightarrow> e)"

text \<open>The checks that a byte string fails, and the least of them in the order of the enumeration.\<close>

definition failing_checks :: "bytes \<Rightarrow> ParseError set" where
  "failing_checks bs = {e. (True, e) \<in> set (spec_checks bs)}"

lemma spec_error_least:
  "spec_error bs = (if failing_checks bs = {} then PE_none else Min (failing_checks bs))"
proof -
  define es where "es = map snd (filter fst (spec_checks bs))"
  have "sorted (map snd (spec_checks bs))"
    by (simp add: spec_checks_def less_eq_ParseError_def)
  then have "sorted es"
    unfolding es_def using sorted_filter [of snd "spec_checks bs" fst] by simp
  have failing: "failing_checks bs = set es"
    by (force simp: failing_checks_def es_def)
  have "spec_error bs = (case es of [] \<Rightarrow> PE_none | e # _ \<Rightarrow> e)"
    unfolding es_def spec_error_def by (induction "spec_checks bs") (auto simp: spec_checks_def)
  with \<open>sorted es\<close> show ?thesis
    unfolding failing by (cases es) (auto intro!: Min_eqI [symmetric])
qed

subsection \<open>The readers invert big-endian fields\<close>

lemma read_u16_eq: "read_u16 bs off = be_decode [bs ! off, bs ! (off + 1)]"
proof -
  have "(be_decode [a, b] :: u16) = ucast (push_bit 8 (ucast a) OR ucast b :: u32)" for a b :: u8
    by (rule bit_word_eqI) (auto simp: be_decode_def bit_simps dest: bit_imp_le_length)
  then show ?thesis by (simp add: read_u16_def Let_def)
qed

lemma read_u32_eq: "read_u32 bs off = be_decode (map (\<lambda>i. bs ! (off + i)) [0..<4])"
  by (simp add: read_u32_def be_decode_def foldl_map)

lemma read_u64_eq: "read_u64 bs off = be_decode (map (\<lambda>i. bs ! (off + i)) [0..<8])"
  by (simp add: read_u64_def be_decode_def foldl_map)

lemma map_nth_slice:
  "off + n \<le> length bs \<Longrightarrow> map (\<lambda>i. bs ! (off + i)) [0..<n] = take n (drop off bs)"
  by (intro nth_equalityI) auto

lemma read_u16_slice:
  "off + 2 \<le> length bs \<Longrightarrow> read_u16 bs off = be_decode (take 2 (drop off bs))"
  using map_nth_slice [of off 2 bs] by (simp add: read_u16_eq upt_rec)

lemma read_u32_slice:
  "off + 4 \<le> length bs \<Longrightarrow> read_u32 bs off = be_decode (take 4 (drop off bs))"
  by (simp add: read_u32_eq map_nth_slice)

lemma read_u64_slice:
  "off + 8 \<le> length bs \<Longrightarrow> read_u64 bs off = be_decode (take 8 (drop off bs))"
  by (simp add: read_u64_eq map_nth_slice)

lemma read_u16_checked_eq:
  "off + 2 \<le> length bs \<Longrightarrow> read_u16_checked bs off = Some (read_u16 bs off)"
  by (simp add: read_u16_checked_def read_u16_def Let_def)

lemma read_u32_checked_eq:
  "off + 4 \<le> length bs \<Longrightarrow> read_u32_checked bs off = Some (read_u32 bs off)"
  by (simp add: read_u32_checked_def read_u32_def upt_rec)

lemma read_u64_checked_eq:
  "off + 8 \<le> length bs \<Longrightarrow> read_u64_checked bs off = Some (read_u64 bs off)"
  by (simp add: read_u64_checked_def read_u64_def upt_rec)

lemmas read_slices = read_u16_slice read_u32_slice read_u64_slice
lemmas read_checked = read_u16_checked_eq read_u32_checked_eq read_u64_checked_eq

lemma be_field_eq_iff:
  assumes "length xs = n" "8 * n = LENGTH('a::len)"
  shows "(be_decode xs :: 'a word) = w \<longleftrightarrow> xs = be_encode n w"
proof
  assume "xs = be_encode n w"
  then have "(be_decode xs :: 'a word) = take_bit (8 * n) w" by (simp add: be_decode_encode)
  then show "be_decode xs = w" using assms(2) by simp
next
  assume "be_decode xs = w"
  then show "xs = be_encode n w" using be_encode_decode [of xs, where 'a = 'a] assms by simp
qed

subsection \<open>What is accepted\<close>

lemma take_drop_append: "take n (drop off xs) @ drop (off + n) xs = drop off xs"
  by (metis append_take_drop_id drop_drop add.commute)

lemma take_1_drop: "off < length xs \<Longrightarrow> take 1 (drop off xs) = [xs ! off]"
  by (simp add: take_Suc_conv_app_nth)

lemma take_2: "2 \<le> length xs \<Longrightarrow> take 2 xs = [xs ! 0, xs ! 1]"
  by (cases xs; cases "tl xs") (auto simp: numeral_2_eq_2)

lemma be_encode_decode_slice:
  assumes "off + n \<le> length bs" "8 * n \<le> LENGTH('a::len)"
  shows "be_encode n (be_decode (take n (drop off bs)) :: 'a word) = take n (drop off bs)"
  using be_encode_decode [of "take n (drop off bs)", where 'a = 'a] assms by simp

lemma be_encode_read:
  "off + 2 \<le> length bs \<Longrightarrow> be_encode 2 (read_u16 bs off) = take 2 (drop off bs)"
  "off + 4 \<le> length bs \<Longrightarrow> be_encode 4 (read_u32 bs off) = take 4 (drop off bs)"
  "off + 8 \<le> length bs \<Longrightarrow> be_encode 8 (read_u64 bs off) = take 8 (drop off bs)"
  by (simp_all only: read_slices) (rule be_encode_decode_slice, simp_all)+

lemma checks_as_slices:
  assumes "length bs = 34"
  shows "(bs ! 0 \<noteq> magic ! 0 \<or> bs ! 1 \<noteq> magic ! 1) \<longleftrightarrow> take 2 bs \<noteq> [0x54, 0x4C]"
    and "bs ! version_offset \<noteq> version_value supported_version \<longleftrightarrow> take 1 (drop 2 bs) \<noteq> [1]"
    and "bs ! message_type_offset \<noteq> message_type_value supported_message_type
      \<longleftrightarrow> take 1 (drop 3 bs) \<noteq> [1]"
    and "read_u16 bs payload_size_offset \<noteq> telemetry_payload_size
      \<longleftrightarrow> take 2 (drop 4 bs) \<noteq> be_encode 2 (12 :: u16)"
    and "read_u32 bs crc_offset \<noteq> calculate_crc32 (take crc_offset bs)
      \<longleftrightarrow> drop 30 bs \<noteq> be_encode 4 (calculate_crc32 (take 30 bs))"
proof -
  have "(be_decode (take 2 (drop 4 bs)) = (12 :: u16))
      = (take 2 (drop 4 bs) = be_encode 2 (12 :: u16))"
    "(be_decode (take 4 (drop 30 bs)) = w) = (take 4 (drop 30 bs) = be_encode 4 w)" for w :: u32
    by (rule be_field_eq_iff; use assms in simp)+
  with assms show "(bs ! 0 \<noteq> magic ! 0 \<or> bs ! 1 \<noteq> magic ! 1) \<longleftrightarrow> take 2 bs \<noteq> [0x54, 0x4C]"
    and "bs ! version_offset \<noteq> version_value supported_version \<longleftrightarrow> take 1 (drop 2 bs) \<noteq> [1]"
    and "bs ! message_type_offset \<noteq> message_type_value supported_message_type
      \<longleftrightarrow> take 1 (drop 3 bs) \<noteq> [1]"
    and "read_u16 bs payload_size_offset \<noteq> telemetry_payload_size
      \<longleftrightarrow> take 2 (drop 4 bs) \<noteq> be_encode 2 (12 :: u16)"
    and "read_u32 bs crc_offset \<noteq> calculate_crc32 (take crc_offset bs)
      \<longleftrightarrow> drop 30 bs \<noteq> be_encode 4 (calculate_crc32 (take 30 bs))"
    by (simp_all add: layout_defs take_2 take_1_drop read_slices del: One_nat_def)
qed

lemma reassemble:
  assumes "length cs = 30" "take 2 cs = [0x54, 0x4C]" "take 1 (drop 2 cs) = [1]"
    "take 1 (drop 3 cs) = [1]"
  shows "cs = [0x54, 0x4C] @ [1] @ [1] @ take 2 (drop 4 cs) @ take 4 (drop 6 cs)
    @ take 8 (drop 10 cs) @ take 4 (drop 18 cs) @ take 4 (drop 22 cs) @ take 2 (drop 26 cs)
    @ take 2 (drop 28 cs)"
proof -
  have "cs = take 2 (drop 0 cs) @ take 1 (drop 2 cs) @ take 1 (drop 3 cs) @ take 2 (drop 4 cs)
    @ take 4 (drop 6 cs) @ take 8 (drop 10 cs) @ take 4 (drop 18 cs) @ take 4 (drop 22 cs)
    @ take 2 (drop 26 cs) @ take 2 (drop 28 cs) @ drop 30 cs"
    using take_drop_append [of 2 28 cs] take_drop_append [of 2 26 cs] take_drop_append [of 4 22 cs]
      take_drop_append [of 4 18 cs] take_drop_append [of 8 10 cs] take_drop_append [of 4 6 cs]
      take_drop_append [of 2 4 cs] take_drop_append [of 1 3 cs] take_drop_append [of 1 2 cs]
      take_drop_append [of 2 0 cs] by (simp add: numeral_eq_Suc)
  with assms show ?thesis by simp
qed

lemma accepted_covered:
  assumes "length bs = 34" "take 2 bs = [0x54, 0x4C]" "take 1 (drop 2 bs) = [1]"
    "take 1 (drop 3 bs) = [1]" "take 2 (drop 4 bs) = be_encode 2 (12 :: u16)"
    and f: "sequence (header f) = read_u32 bs sequence_offset"
      "timestamp_microseconds (header f) = read_u64 bs timestamp_offset"
      "temperature_millicelsius (payload f) = read_u32 bs temperature_offset"
      "pressure_pascal (payload f) = read_u32 bs pressure_offset"
      "supply_millivolts (payload f) = read_u16 bs supply_voltage_offset"
      "status_flags (payload f) = read_u16 bs status_flags_offset"
  shows "covered_layout f = take 30 bs"
proof -
  have part: "take n (drop off (take 30 bs)) = take n (drop off bs)" if "off + n \<le> 30" for n off
    using that by (simp add: drop_take min_def)
  have "take 30 bs = [0x54, 0x4C] @ [1] @ [1] @ take 2 (drop 4 bs) @ take 4 (drop 6 bs)
    @ take 8 (drop 10 bs) @ take 4 (drop 18 bs) @ take 4 (drop 22 bs) @ take 2 (drop 26 bs)
    @ take 2 (drop 28 bs)"
    using reassemble [of "take 30 bs"] assms(1-4)
    by (simp only: part length_take take_take) (simp add: part)
  with assms(1,5) f show ?thesis
    by (simp add: covered_layout_def be_encode_read layout_defs)
qed

lemma deserialize_cases:
  assumes "length bs = 34"
  shows "deserialize bs =
    (if take 2 bs \<noteq> [0x54, 0x4C] then failure PE_invalid_magic
     else if take 1 (drop 2 bs) \<noteq> [1] then failure PE_unsupported_version
     else if take 1 (drop 3 bs) \<noteq> [1] then failure PE_unsupported_message_type
     else if take 2 (drop 4 bs) \<noteq> be_encode 2 (12 :: u16) then failure PE_invalid_payload_size
     else if drop 30 bs \<noteq> be_encode 4 (calculate_crc32 (take 30 bs)) then failure PE_checksum_mismatch
     else \<lparr>frame = Some
        \<lparr>header = \<lparr>version = supported_version, message_type = supported_message_type,
           payload_size = read_u16 bs payload_size_offset,
           sequence = read_u32 bs sequence_offset,
           timestamp_microseconds = read_u64 bs timestamp_offset\<rparr>,
         payload = \<lparr>temperature_millicelsius = read_u32 bs temperature_offset,
           pressure_pascal = read_u32 bs pressure_offset,
           supply_millivolts = read_u16 bs supply_voltage_offset,
           status_flags = read_u16 bs status_flags_offset\<rparr>\<rparr>,
        error = PE_none\<rparr>)"
  unfolding deserialize_def Let_def checks_as_slices [OF assms]
  using assms by (simp only: frame_size_eq if_False simp_thms)

lemma deserialize_wrong_size: "length bs \<noteq> 34 \<Longrightarrow> deserialize bs = failure PE_invalid_frame_size"
  by (simp add: deserialize_def frame_size_eq)

lemma deserialize_accepts:
  assumes "frame (deserialize bs) = Some f"
  shows "bs = frame_layout f" and "payload_size (header f) = 12"
proof -
  have len: "length bs = 34"
    using assms deserialize_wrong_size [of bs] by (cases "length bs = 34") (simp_all add: failure_def)
  from assms have ok: "take 2 bs = [0x54, 0x4C]" "take 1 (drop 2 bs) = [1]" "take 1 (drop 3 bs) = [1]"
      "take 2 (drop 4 bs) = be_encode 2 (12 :: u16)"
      "drop 30 bs = be_encode 4 (calculate_crc32 (take 30 bs))"
    by (auto simp: deserialize_cases [OF len] failure_def split: if_splits)
  with assms have f: "f = \<lparr>header = \<lparr>version = supported_version,
           message_type = supported_message_type,
           payload_size = read_u16 bs payload_size_offset,
           sequence = read_u32 bs sequence_offset,
           timestamp_microseconds = read_u64 bs timestamp_offset\<rparr>,
         payload = \<lparr>temperature_millicelsius = read_u32 bs temperature_offset,
           pressure_pascal = read_u32 bs pressure_offset,
           supply_millivolts = read_u16 bs supply_voltage_offset,
           status_flags = read_u16 bs status_flags_offset\<rparr>\<rparr>"
    by (simp add: deserialize_cases [OF len])
  then have "covered_layout f = take 30 bs"
    by (intro accepted_covered len ok) simp_all
  with ok(5) show "bs = frame_layout f"
    by (metis append_take_drop_id frame_layout_def)
  show "payload_size (header f) = 12"
    using f ok(4) checks_as_slices(4) [OF len] by (simp add: telemetry_payload_size_def)
qed

lemma layout_fields:
  "take 2 (frame_layout f) = [0x54, 0x4C]"
  "take 1 (drop 2 (frame_layout f)) = [1]"
  "take 1 (drop 3 (frame_layout f)) = [1]"
  "take 2 (drop 4 (frame_layout f)) = be_encode 2 (12 :: u16)"
  "take 4 (drop 6 (frame_layout f)) = be_encode 4 (sequence (header f))"
  "take 8 (drop 10 (frame_layout f)) = be_encode 8 (timestamp_microseconds (header f))"
  "take 4 (drop 18 (frame_layout f)) = be_encode 4 (temperature_millicelsius (payload f))"
  "take 4 (drop 22 (frame_layout f)) = be_encode 4 (pressure_pascal (payload f))"
  "take 2 (drop 26 (frame_layout f)) = be_encode 2 (supply_millivolts (payload f))"
  "take 2 (drop 28 (frame_layout f)) = be_encode 2 (status_flags (payload f))"
  "drop 30 (frame_layout f) = be_encode 4 (calculate_crc32 (take 30 (frame_layout f)))"
  by (simp_all add: frame_layout_def covered_layout_def)

lemma deserialize_layout:
  "deserialize (frame_layout f)
    = \<lparr>frame = Some (f\<lparr>header := (header f)\<lparr>payload_size := 12\<rparr>\<rparr>), error = PE_none\<rparr>"
proof -
  let ?bs = "frame_layout f"
  have len: "length ?bs = 34" by simp
  have reads: "read_u16 ?bs payload_size_offset = 12"
    "read_u32 ?bs sequence_offset = sequence (header f)"
    "read_u64 ?bs timestamp_offset = timestamp_microseconds (header f)"
    "read_u32 ?bs temperature_offset = temperature_millicelsius (payload f)"
    "read_u32 ?bs pressure_offset = pressure_pascal (payload f)"
    "read_u16 ?bs supply_voltage_offset = supply_millivolts (payload f)"
    "read_u16 ?bs status_flags_offset = status_flags (payload f)"
    by (simp_all add: layout_defs read_slices layout_fields be_decode_encode_full)
  show ?thesis
    unfolding deserialize_cases [OF len] layout_fields(1-4) layout_fields(11) [symmetric] reads
    by (cases f; cases "header f"; cases "payload f") simp
qed

lemma has_value_frame: "has_value r \<longleftrightarrow> frame r \<noteq> None"
  by (simp add: has_value_def split: option.split)

lemma deserialize_error_spec:
  "error (deserialize bs) = spec_error bs"
  "frame (deserialize bs) = None \<longleftrightarrow> spec_error bs \<noteq> PE_none"
  by (cases "length bs = 34";
      simp add: deserialize_cases deserialize_wrong_size failure_def spec_error_def spec_checks_def)+

lemma equal_outside_window:
  assumes "length xs = length ys"
    and "\<forall>i < length xs. i < start \<or> start + 4 \<le> i \<longrightarrow> xs ! i = ys ! i"
  shows "n \<le> start \<Longrightarrow> take n xs = take n ys"
    and "start + 4 \<le> n \<Longrightarrow> drop n xs = drop n ys"
  using assms by (auto intro!: nth_equalityI)

lemma burst_rejected:
  assumes acc: "frame (deserialize bs) \<noteq> None"
    and len: "length bs' = length bs"
    and window: "\<forall>i < length bs. i < start \<or> start + 4 \<le> i \<longrightarrow> bs ! i = bs' ! i"
    and side: "start + 4 \<le> 30 \<or> 30 \<le> start"
    and diff: "bs \<noteq> bs'"
  shows "drop 30 bs' \<noteq> be_encode 4 (calculate_crc32 (take 30 bs'))"
proof
  assume crc': "drop 30 bs' = be_encode 4 (calculate_crc32 (take 30 bs'))"
  from acc obtain f where "bs = frame_layout f" using deserialize_accepts by blast
  then have len34: "length bs = 34" and crc: "drop 30 bs = be_encode 4 (calculate_crc32 (take 30 bs))"
    using layout_fields(11) by simp_all
  have eq: "n \<le> start \<Longrightarrow> take n bs = take n bs'" "start + 4 \<le> n \<Longrightarrow> drop n bs = drop n bs'" for n
    using equal_outside_window [of bs bs' start] len window by auto
  from side show False
  proof
    assume "30 \<le> start"
    then have "take 30 bs = take 30 bs'" by (rule eq)
    then have "bs = bs'" using crc crc' by (metis append_take_drop_id)
    with diff show False ..
  next
    assume pay: "start + 4 \<le> 30"
    then have tail: "drop 30 bs = drop 30 bs'" by (rule eq)
    then have "take 30 bs \<noteq> take 30 bs'" using diff by (metis append_take_drop_id)
    then have "calculate_crc32 (take 30 bs) \<noteq> calculate_crc32 (take 30 bs')"
      using window len by (intro crc_burst_window [where start = start]) auto
    moreover have "calculate_crc32 (take 30 bs) = calculate_crc32 (take 30 bs')"
      using tail crc crc' by (simp add: be_encode_inject)
    ultimately show False by simp
  qed
qed

text \<open>A frame whose checksum does not match is rejected, with that error when its first six bytes
  are those of an accepted frame.\<close>

lemma mismatch_rejected:
  "drop 30 bs \<noteq> be_encode 4 (calculate_crc32 (take 30 bs)) \<Longrightarrow> \<not> has_value (deserialize bs)"
  unfolding has_value_frame by (metis deserialize_accepts(1) layout_fields(11) not_Some_eq)

lemma mismatch_error:
  assumes "has_value (deserialize bs)" and "length bs' = length bs"
    and "drop 30 bs' \<noteq> be_encode 4 (calculate_crc32 (take 30 bs'))" and "take 6 bs' = take 6 bs"
  shows "error (deserialize bs') = PE_checksum_mismatch"
proof -
  have same: "take n (drop m bs') = take n (drop m bs)" if "m + n \<le> 6" for m n
  proof -
    have "drop m (take (m + n) (take 6 bs')) = drop m (take (m + n) (take 6 bs))"
      using assms(4) by simp
    with that show ?thesis by (simp add: drop_take min_def)
  qed
  obtain f where "bs = frame_layout f"
    using assms(1) deserialize_accepts(1) by (auto simp: has_value_frame)
  then have "length bs' = 34" and "take 2 bs' = [0x54, 0x4C]" "take 1 (drop 2 bs') = [1]"
      "take 1 (drop 3 bs') = [1]" "take 2 (drop 4 bs') = be_encode 2 (12 :: u16)"
    using same [of 0 2] same [of 2 1] same [of 3 1] same [of 4 2] layout_fields(1-4) assms(2)
    by simp_all
  with assms(3) show ?thesis by (simp add: deserialize_cases failure_def)
qed

lemma corruption_detected:
  assumes "has_value (deserialize bs)" and "length bs' = length bs" and "bs \<noteq> bs'"
    and "\<forall>i < length bs. i < start \<or> start + 4 \<le> i \<longrightarrow> bs ! i = bs' ! i"
    and "start + 4 \<le> crc_offset \<or> crc_offset \<le> start"
  shows "\<not> has_value (deserialize bs')
    \<and> (6 \<le> start \<longrightarrow> error (deserialize bs') = PE_checksum_mismatch)"
proof (intro conjI impI)
  have crc: "drop 30 bs' \<noteq> be_encode 4 (calculate_crc32 (take 30 bs'))"
    using assms by (intro burst_rejected [of bs]) (auto simp: has_value_frame crc_offset_def)
  then show "\<not> has_value (deserialize bs')" by (rule mismatch_rejected)
  assume "6 \<le> start"
  then have "take 6 bs' = take 6 bs"
    using equal_outside_window(1) [of bs bs' start 6] assms by auto
  with crc show "error (deserialize bs') = PE_checksum_mismatch"
    by (rule mismatch_error [OF assms(1,2)])
qed

subsection \<open>Properties\<close>

text \<open>C1: decoding what the encoder wrote returns the frame, for every header and sample: all
  fields come back bit for bit, except the payload size, which the encoder always writes as 12.\<close>

theorem deserialize_serialize:
  "deserialize (serialize f)
    = \<lparr>frame = Some (f\<lparr>header := (header f)\<lparr>payload_size := 12\<rparr>\<rparr>), error = PE_none\<rparr>"
  by (simp add: serialize_eq_layout deserialize_layout)

text \<open>C11: the encoding is canonical: a byte string is accepted as the frame \<open>f\<close> exactly when it is
  the encoding of \<open>f\<close> and \<open>f\<close> has payload size 12, so no two byte strings decode to one frame.\<close>

theorem deserialize_canonical:
  "frame (deserialize bs) = Some f \<longleftrightarrow> serialize f = bs \<and> payload_size (header f) = 12"
proof
  assume "frame (deserialize bs) = Some f"
  then show "serialize f = bs \<and> payload_size (header f) = 12"
    using deserialize_accepts [of bs f] by (simp add: serialize_eq_layout)
next
  assume ok: "serialize f = bs \<and> payload_size (header f) = 12"
  then have "f\<lparr>header := (header f)\<lparr>payload_size := 12\<rparr>\<rparr> = f"
    by (intro frame_eqI) simp_all
  with ok show "frame (deserialize bs) = Some f"
    by (auto simp: serialize_eq_layout deserialize_layout)
qed

text \<open>C4: on every byte string the decoder reports the least failing check of the documented
  table, in the order of the enumeration of errors, and it returns a frame exactly when no check
  fails.\<close>

theorem deserialize_reports_first_error:
  "error (deserialize bs) = (if failing_checks bs = {} then PE_none else Min (failing_checks bs))
    \<and> (has_value (deserialize bs) \<longleftrightarrow> failing_checks bs = {})"
proof -
  have "spec_error bs = PE_none \<longleftrightarrow> failing_checks bs = {}"
  proof (cases "failing_checks bs = {}")
    case False
    then have "Min (failing_checks bs) \<in> failing_checks bs"
      by (intro Min_in) (simp_all add: failing_checks_def spec_checks_def)
    then have "Min (failing_checks bs) \<noteq> PE_none" by (auto simp: failing_checks_def spec_checks_def)
    with False show ?thesis by (simp add: spec_error_least)
  qed (simp add: spec_error_least)
  then show ?thesis
    by (simp add: deserialize_error_spec has_value_frame spec_error_least)
qed

text \<open>C31: on every byte string, of any length, the decoder performs no read outside the span:
  the checked decoder, in which such a read is \<open>None\<close>, always returns the decoder's result.\<close>

theorem deserialize_in_bounds: "deserialize_checked bs = Some (deserialize bs)"
  unfolding deserialize_checked_def deserialize_def Let_def
  by (simp add: layout_defs read_checked)

text \<open>Corruption of an accepted frame is rejected: if the received bytes differ from an
  accepted frame, only within four consecutive bytes that do not straddle the start of the
  checksum field, no frame is returned; past the header checks (offset 6 on) the error is the
  checksum mismatch.\<close>

theorem corrupted_frame_rejected:
  assumes "has_value (deserialize bs)" and "length bs' = length bs" and "bs \<noteq> bs'"
    and "\<forall>i < length bs. i < start \<or> start + 4 \<le> i \<longrightarrow> bs ! i = bs' ! i"
    and "start + 4 \<le> crc_offset \<or> crc_offset \<le> start"
  shows "\<not> has_value (deserialize bs')
    \<and> (6 \<le> start \<longrightarrow> error (deserialize bs') = PE_checksum_mismatch)"
  using assms by (rule corruption_detected)

theorem corrupted_frame_rejected_witness:
  "\<not> has_value (deserialize ((frame_layout default_frame)[20 := 7, 23 := 9]))
    \<and> error (deserialize ((frame_layout default_frame)[20 := 7, 23 := 9])) = PE_checksum_mismatch"
proof -
  have valid: "has_value (deserialize (frame_layout default_frame))"
    by (simp add: deserialize_layout has_value_def)
  have differ: "frame_layout default_frame \<noteq> (frame_layout default_frame)[20 := 7, 23 := 9]"
  proof
    assume "frame_layout default_frame = (frame_layout default_frame)[20 := 7, 23 := 9]"
    from arg_cong [OF this, of "\<lambda>bs. bs ! 20"] have "frame_layout default_frame ! 20 = 7" by simp
    moreover have "frame_layout default_frame ! 20 = 0"
      by (simp add: frame_layout_def covered_layout_def default_frame_def default_header_def
          default_sample_def be_encode_def upt_rec)
    ultimately show False by simp
  qed
  show ?thesis
    using corrupted_frame_rejected [OF valid _ differ, where start = 20]
    by (simp add: nth_list_update crc_offset_def)
qed

end
