(* ===== verification/Host_Metrics.thy ===== *)
theory Host_Metrics
  imports Deserializer Interleaving
begin

unbundle bit_operations_syntax

text \<open>
  The host's \<^verbatim>\<open>TelemetryMetrics\<close>, \<^verbatim>\<open>host/src/telemetry_metrics.cpp\<close> and
  \<^verbatim>\<open>telemetry_metrics.hpp\<close>. A private member \<^verbatim>\<open>name_\<close> of the class is the field \<open>name'\<close> of
  the record; a member function is a function from the object to the updated object. An atomic
  counter's \<^verbatim>\<open>fetch_add(1)\<close> is the wrapping increment. The reference is \<open>summary_of\<close>, what the
  processing statistics of a list of frames are over unbounded numbers.
\<close>

subsection \<open>The code\<close>

record ParseErrorCounters =
  invalid_frame_size :: u64
  invalid_magic :: u64
  unsupported_version :: u64
  unsupported_message_type :: u64
  invalid_payload_size :: u64
  checksum_mismatch :: u64

record TelemetryMetricsSnapshot =
  inputs_received :: u64
  frames_accepted :: u64
  frames_rejected :: u64
  queue_closed_rejections :: u64
  frames_processed :: u64
  parse_errors :: ParseErrorCounters
  first_sequence :: "u32 option"
  last_sequence :: "u32 option"
  missing_sequences :: u64
  duplicate_sequences :: u64
  out_of_order_sequences :: u64
  sensor_warnings :: u64
  voltage_warnings :: u64
  communication_warnings :: u64
  watchdog_events :: u64
  minimum_temperature_millicelsius :: "i32 option"
  maximum_temperature_millicelsius :: "i32 option"
  temperature_sum_millicelsius :: i64
  minimum_supply_millivolts :: "u16 option"
  maximum_supply_millivolts :: "u16 option"
  supply_sum_millivolts :: u64

record TelemetryMetrics =
  inputs_received' :: u64
  frames_accepted' :: u64
  frames_rejected' :: u64
  queue_closed_rejections' :: u64
  invalid_frame_size' :: u64
  invalid_magic' :: u64
  unsupported_version' :: u64
  unsupported_message_type' :: u64
  invalid_payload_size' :: u64
  checksum_mismatch' :: u64
  frames_processed' :: u64
  first_sequence' :: "u32 option"
  last_sequence' :: "u32 option"
  missing_sequences' :: u64
  duplicate_sequences' :: u64
  out_of_order_sequences' :: u64
  sensor_warnings' :: u64
  voltage_warnings' :: u64
  communication_warnings' :: u64
  watchdog_events' :: u64
  minimum_temperature_millicelsius' :: "i32 option"
  maximum_temperature_millicelsius' :: "i32 option"
  temperature_sum_millicelsius' :: i64
  minimum_supply_millivolts' :: "u16 option"
  maximum_supply_millivolts' :: "u16 option"
  supply_sum_millivolts' :: u64

definition new_metrics :: TelemetryMetrics where
  "new_metrics =
     \<lparr>inputs_received' = 0, frames_accepted' = 0, frames_rejected' = 0,
      queue_closed_rejections' = 0, invalid_frame_size' = 0, invalid_magic' = 0,
      unsupported_version' = 0, unsupported_message_type' = 0, invalid_payload_size' = 0,
      checksum_mismatch' = 0, frames_processed' = 0, first_sequence' = None,
      last_sequence' = None, missing_sequences' = 0, duplicate_sequences' = 0,
      out_of_order_sequences' = 0, sensor_warnings' = 0, voltage_warnings' = 0,
      communication_warnings' = 0, watchdog_events' = 0,
      minimum_temperature_millicelsius' = None, maximum_temperature_millicelsius' = None,
      temperature_sum_millicelsius' = 0, minimum_supply_millivolts' = None,
      maximum_supply_millivolts' = None, supply_sum_millivolts' = 0\<rparr>"

definition has_flag :: "u16 \<Rightarrow> StatusFlag \<Rightarrow> bool" where
  "has_flag flags flag \<longleftrightarrow> flags AND flag_value flag \<noteq> 0"

definition record_input :: "TelemetryMetrics \<Rightarrow> TelemetryMetrics" where
  "record_input m = m\<lparr>inputs_received' := inputs_received' m + 1\<rparr>"

definition record_accepted :: "TelemetryMetrics \<Rightarrow> TelemetryMetrics" where
  "record_accepted m = m\<lparr>frames_accepted' := frames_accepted' m + 1\<rparr>"

definition record_parse_rejected :: "ParseError \<Rightarrow> TelemetryMetrics \<Rightarrow> TelemetryMetrics" where
  "record_parse_rejected e m =
     (let m = m\<lparr>frames_rejected' := frames_rejected' m + 1\<rparr>
      in case e of
           PE_invalid_frame_size \<Rightarrow> m\<lparr>invalid_frame_size' := invalid_frame_size' m + 1\<rparr>
         | PE_invalid_magic \<Rightarrow> m\<lparr>invalid_magic' := invalid_magic' m + 1\<rparr>
         | PE_unsupported_version \<Rightarrow> m\<lparr>unsupported_version' := unsupported_version' m + 1\<rparr>
         | PE_unsupported_message_type \<Rightarrow>
             m\<lparr>unsupported_message_type' := unsupported_message_type' m + 1\<rparr>
         | PE_invalid_payload_size \<Rightarrow> m\<lparr>invalid_payload_size' := invalid_payload_size' m + 1\<rparr>
         | PE_checksum_mismatch \<Rightarrow> m\<lparr>checksum_mismatch' := checksum_mismatch' m + 1\<rparr>
         | PE_none \<Rightarrow> m)"

definition record_queue_closed :: "TelemetryMetrics \<Rightarrow> TelemetryMetrics" where
  "record_queue_closed m =
     (let m = m\<lparr>frames_rejected' := frames_rejected' m + 1\<rparr>
      in m\<lparr>queue_closed_rejections' := queue_closed_rejections' m + 1\<rparr>)"

text \<open>
  \<^verbatim>\<open>record_processed\<close> in four parts. \<open>the\<close> stands for the unchecked \<^verbatim>\<open>*optional\<close>; the
  well-formedness invariant below shows it is only ever applied to a value.
\<close>

definition record_sequence :: "u32 \<Rightarrow> TelemetryMetrics \<Rightarrow> TelemetryMetrics" where
  "record_sequence seq m =
     (if first_sequence' m = None then m\<lparr>first_sequence' := Some seq, last_sequence' := Some seq\<rparr>
      else if seq = the (last_sequence' m)
        then m\<lparr>duplicate_sequences' := duplicate_sequences' m + 1\<rparr>
      else if seq > the (last_sequence' m) then
        let distance = seq - the (last_sequence' m);
            m = (if distance > 1
                 then m\<lparr>missing_sequences' := missing_sequences' m + ucast (distance - 1)\<rparr>
                 else m)
        in m\<lparr>last_sequence' := Some seq\<rparr>
      else m\<lparr>out_of_order_sequences' := out_of_order_sequences' m + 1\<rparr>)"

definition record_flags :: "u16 \<Rightarrow> TelemetryMetrics \<Rightarrow> TelemetryMetrics" where
  "record_flags flags m =
     (let m = (if has_flag flags sensor_warning
               then m\<lparr>sensor_warnings' := sensor_warnings' m + 1\<rparr> else m);
          m = (if has_flag flags voltage_warning
               then m\<lparr>voltage_warnings' := voltage_warnings' m + 1\<rparr> else m);
          m = (if has_flag flags communication_warning
               then m\<lparr>communication_warnings' := communication_warnings' m + 1\<rparr> else m)
      in if has_flag flags watchdog_event
         then m\<lparr>watchdog_events' := watchdog_events' m + 1\<rparr> else m)"

definition min_i32 :: "i32 \<Rightarrow> i32 \<Rightarrow> i32" where
  "min_i32 a b = (if sint b < sint a then b else a)"

definition max_i32 :: "i32 \<Rightarrow> i32 \<Rightarrow> i32" where
  "max_i32 a b = (if sint a < sint b then b else a)"

definition record_temperature :: "i32 \<Rightarrow> TelemetryMetrics \<Rightarrow> TelemetryMetrics" where
  "record_temperature t m =
     (let m = (if minimum_temperature_millicelsius' m = None
               then m\<lparr>minimum_temperature_millicelsius' := Some t,
                      maximum_temperature_millicelsius' := Some t\<rparr>
               else m\<lparr>minimum_temperature_millicelsius' :=
                        Some (min_i32 (the (minimum_temperature_millicelsius' m)) t),
                      maximum_temperature_millicelsius' :=
                        Some (max_i32 (the (maximum_temperature_millicelsius' m)) t)\<rparr>)
      in m\<lparr>temperature_sum_millicelsius' := temperature_sum_millicelsius' m + scast t\<rparr>)"

definition record_supply :: "u16 \<Rightarrow> TelemetryMetrics \<Rightarrow> TelemetryMetrics" where
  "record_supply v m =
     (let m = (if minimum_supply_millivolts' m = None
               then m\<lparr>minimum_supply_millivolts' := Some v, maximum_supply_millivolts' := Some v\<rparr>
               else m\<lparr>minimum_supply_millivolts' := Some (min (the (minimum_supply_millivolts' m)) v),
                      maximum_supply_millivolts' := Some (max (the (maximum_supply_millivolts' m)) v)\<rparr>)
      in m\<lparr>supply_sum_millivolts' := supply_sum_millivolts' m + ucast v\<rparr>)"

definition record_processed :: "TelemetryFrame \<Rightarrow> TelemetryMetrics \<Rightarrow> TelemetryMetrics" where
  "record_processed f m =
     (let m = m\<lparr>frames_processed' := frames_processed' m + 1\<rparr>;
          m = record_sequence (sequence (header f)) m;
          m = record_flags (status_flags (payload f)) m;
          m = record_temperature (temperature_millicelsius (payload f)) m
      in record_supply (supply_millivolts (payload f)) m)"

definition snapshot :: "TelemetryMetrics \<Rightarrow> TelemetryMetricsSnapshot" where
  "snapshot m =
     \<lparr>inputs_received = inputs_received' m,
      frames_accepted = frames_accepted' m,
      frames_rejected = frames_rejected' m,
      queue_closed_rejections = queue_closed_rejections' m,
      frames_processed = frames_processed' m,
      parse_errors =
        \<lparr>invalid_frame_size = invalid_frame_size' m,
         invalid_magic = invalid_magic' m,
         unsupported_version = unsupported_version' m,
         unsupported_message_type = unsupported_message_type' m,
         invalid_payload_size = invalid_payload_size' m,
         checksum_mismatch = checksum_mismatch' m\<rparr>,
      first_sequence = first_sequence' m,
      last_sequence = last_sequence' m,
      missing_sequences = missing_sequences' m,
      duplicate_sequences = duplicate_sequences' m,
      out_of_order_sequences = out_of_order_sequences' m,
      sensor_warnings = sensor_warnings' m,
      voltage_warnings = voltage_warnings' m,
      communication_warnings = communication_warnings' m,
      watchdog_events = watchdog_events' m,
      minimum_temperature_millicelsius = minimum_temperature_millicelsius' m,
      maximum_temperature_millicelsius = maximum_temperature_millicelsius' m,
      temperature_sum_millicelsius = temperature_sum_millicelsius' m,
      minimum_supply_millivolts = minimum_supply_millivolts' m,
      maximum_supply_millivolts = maximum_supply_millivolts' m,
      supply_sum_millivolts = supply_sum_millivolts' m\<rparr>"

text \<open>What the ingesting thread calls, as events.\<close>

datatype IngestEvent = Ev_input | Ev_accepted | Ev_rejected ParseError | Ev_queue_closed

fun record_ingest :: "IngestEvent \<Rightarrow> TelemetryMetrics \<Rightarrow> TelemetryMetrics" where
  "record_ingest Ev_input m = record_input m"
| "record_ingest Ev_accepted m = record_accepted m"
| "record_ingest (Ev_rejected e) m = record_parse_rejected e m"
| "record_ingest Ev_queue_closed m = record_queue_closed m"

subsection \<open>The two threads' updates are independent\<close>

lemmas ingest_defs = record_input_def record_accepted_def record_parse_rejected_def
  record_queue_closed_def

lemma ingest_event_cases:
  assumes "P Ev_input" "P Ev_accepted" "P Ev_queue_closed"
    "P (Ev_rejected PE_none)" "P (Ev_rejected PE_invalid_frame_size)"
    "P (Ev_rejected PE_invalid_magic)" "P (Ev_rejected PE_unsupported_version)"
    "P (Ev_rejected PE_unsupported_message_type)" "P (Ev_rejected PE_invalid_payload_size)"
    "P (Ev_rejected PE_checksum_mismatch)"
  shows "P e"
proof (cases e)
  case (Ev_rejected p)
  with assms show ?thesis by (cases p) simp_all
qed (use assms in simp_all)

lemma record_sequence_ingest:
  "record_sequence q (record_ingest e m) = record_ingest e (record_sequence q m)"
  by (rule ingest_event_cases [of _ e]; simp add: record_sequence_def ingest_defs Let_def)

lemma record_flags_eq:
  "record_flags w m =
     m\<lparr>sensor_warnings' := sensor_warnings' m + of_bool (has_flag w sensor_warning),
       voltage_warnings' := voltage_warnings' m + of_bool (has_flag w voltage_warning),
       communication_warnings' := communication_warnings' m + of_bool (has_flag w communication_warning),
       watchdog_events' := watchdog_events' m + of_bool (has_flag w watchdog_event)\<rparr>"
  by (cases m; cases "has_flag w sensor_warning"; cases "has_flag w voltage_warning";
      cases "has_flag w communication_warning"; cases "has_flag w watchdog_event")
    (simp_all add: record_flags_def)

lemma record_flags_ingest:
  "record_flags w (record_ingest e m) = record_ingest e (record_flags w m)"
  by (rule ingest_event_cases [of _ e]; simp add: record_flags_eq ingest_defs)

lemma record_temperature_ingest:
  "record_temperature t (record_ingest e m) = record_ingest e (record_temperature t m)"
  by (rule ingest_event_cases [of _ e]; cases "minimum_temperature_millicelsius' m";
      simp add: record_temperature_def ingest_defs)

lemma record_supply_ingest:
  "record_supply v (record_ingest e m) = record_ingest e (record_supply v m)"
  by (rule ingest_event_cases [of _ e]; cases "minimum_supply_millivolts' m";
      simp add: record_supply_def ingest_defs)

lemma count_processed_ingest:
  "(record_ingest e m)\<lparr>frames_processed' := frames_processed' (record_ingest e m) + 1\<rparr>
    = record_ingest e (m\<lparr>frames_processed' := frames_processed' m + 1\<rparr>)"
  by (cases e) (simp_all add: ingest_defs Let_def split: ParseError.split)

interpretation host_metrics: independent_updates record_ingest record_processed
  by unfold_locales
    (simp add: record_processed_def Let_def count_processed_ingest record_sequence_ingest
      record_flags_ingest record_temperature_ingest record_supply_ingest)

end
