(* ===== verification/Host_Ingestor.thy ===== *)
theory Host_Ingestor
  imports Buffer_Interface Host_Metrics
begin

text \<open>
  \<^verbatim>\<open>FrameIngestor::ingest\<close>, \<^verbatim>\<open>host/src/frame_ingestor.cpp\<close>. The function is given in three pieces
  between which the other thread may run, \<open>ingest_parse\<close>, the call of \<^verbatim>\<open>push\<close> and
  \<open>ingest_finish\<close>, and \<open>ingest\<close> is their composition. \<open>None\<close> is a call that waits in
  \<^verbatim>\<open>push\<close>. The lemmas describe it on every branch for a buffer that meets its contract.
\<close>

subsection \<open>The code\<close>

datatype IngestStatus = accepted | parse_rejected | queue_closed

record IngestResult =
  status :: IngestStatus
  parse_error :: ParseError

definition default_ingest_result :: IngestResult where
  "default_ingest_result = \<lparr>status = parse_rejected, parse_error = PE_none\<rparr>"

text \<open>\<^verbatim>\<open>std::byte\<close> and \<^verbatim>\<open>std::uint8_t\<close> have the same values; the loop copies byte by byte.\<close>

definition to_queued_bytes :: "bytes \<Rightarrow> bytes" where
  "to_queued_bytes bs = foldl (\<lambda>queued_bytes byte. queued_bytes @ [byte]) [] bs"

text \<open>The part before \<^verbatim>\<open>push\<close>: a result when the frame is rejected, otherwise the bytes to push.\<close>

definition ingest_parse :: "bytes \<Rightarrow> TelemetryMetrics \<Rightarrow> (IngestResult + bytes) \<times> TelemetryMetrics" where
  "ingest_parse bs m =
     (let parsed = deserialize bs
      in if \<not> has_value parsed
         then (Inl \<lparr>status = parse_rejected, parse_error = error parsed\<rparr>,
               record_parse_rejected (error parsed) m)
         else (Inr (to_queued_bytes bs), m))"

definition ingest_finish :: "bool \<Rightarrow> TelemetryMetrics \<Rightarrow> IngestResult \<times> TelemetryMetrics" where
  "ingest_finish pushed m =
     (if \<not> pushed
      then (\<lparr>status = queue_closed, parse_error = PE_none\<rparr>, record_queue_closed m)
      else (\<lparr>status = accepted, parse_error = PE_none\<rparr>, record_accepted m))"

definition ingest ::
    "'b buffer_ops \<Rightarrow> bytes \<Rightarrow> 'b \<Rightarrow> TelemetryMetrics \<Rightarrow>
      (IngestResult outcome \<times> 'b \<times> TelemetryMetrics) option" where
  "ingest ops bs b m =
     (let m = record_input m
      in case ingest_parse bs m of
           (Inl r, m) \<Rightarrow> Some (Returns r, b, m)
         | (Inr queued_bytes, m) \<Rightarrow>
             (case push ops queued_bytes b of
                None \<Rightarrow> None
              | Some (Raises w, b) \<Rightarrow> Some (Raises w, b, m)
              | Some (Returns pushed, b) \<Rightarrow>
                  (case ingest_finish pushed m of (r, m) \<Rightarrow> Some (Returns r, b, m))))"

subsection \<open>The reference\<close>

text \<open>The events an input contributes to the metrics when the buffer stays open.\<close>

definition valid_frame :: "bytes \<Rightarrow> bool" where
  "valid_frame bs \<longleftrightarrow> has_value (deserialize bs)"

definition input_events :: "bytes \<Rightarrow> IngestEvent list" where
  "input_events bs =
     (if valid_frame bs then [Ev_input, Ev_accepted]
      else [Ev_input, Ev_rejected (error (deserialize bs))])"

definition ingested :: "bytes list \<Rightarrow> IngestEvent list" where
  "ingested inputs = concat (map input_events inputs)"

definition decoded :: "bytes \<Rightarrow> TelemetryFrame" where
  "decoded bs = the (frame (deserialize bs))"

subsection \<open>Lemmas\<close>

lemma to_queued_bytes_id [simp]: "to_queued_bytes bs = bs"
proof -
  have "foldl (\<lambda>q b. q @ [b]) acc bs = acc @ bs" for acc
    by (induction bs arbitrary: acc) simp_all
  then show ?thesis by (simp add: to_queued_bytes_def)
qed

lemma ingested_simps [simp]:
  "ingested [] = []" "ingested (inputs @ [bs]) = ingested inputs @ input_events bs"
  by (simp_all add: ingested_def)

lemma valid_frame_length: "valid_frame bs \<Longrightarrow> length bs = frame_size"
  by (auto simp: valid_frame_def has_value_def deserialize_def failure_def split: if_splits)

lemma valid_frame_decoded: "valid_frame bs \<Longrightarrow> frame (deserialize bs) = Some (decoded bs)"
  by (simp add: valid_frame_def has_value_def decoded_def split: option.splits)

lemma valid_frame_error: "valid_frame bs \<longleftrightarrow> error (deserialize bs) = PE_none"
  by (simp add: valid_frame_def has_value_def deserialize_def failure_def Let_def)

lemma invalid_error: "\<not> valid_frame bs \<Longrightarrow> error (deserialize bs) \<noteq> PE_none"
  by (simp add: valid_frame_error)

lemma ingest_parse_cases:
  "ingest_parse bs m =
    (if valid_frame bs then (Inr bs, m)
     else (Inl \<lparr>status = parse_rejected, parse_error = error (deserialize bs)\<rparr>,
           record_parse_rejected (error (deserialize bs)) m))"
  by (simp add: ingest_parse_def valid_frame_def Let_def)

lemma ingest_rejects:
  "\<not> valid_frame bs \<Longrightarrow> ingest ops bs b m
    = Some (Returns \<lparr>status = parse_rejected, parse_error = error (deserialize bs)\<rparr>, b,
        fold record_ingest (input_events bs) m)"
  by (simp add: ingest_def ingest_parse_cases input_events_def)

context safe_buffer
begin

lemma ingest_valid:
  assumes "valid b" and "valid_frame bs"
  shows "ingest ops bs b m =
    (if closed b then Some (Returns \<lparr>status = queue_closed, parse_error = PE_none\<rparr>,
         snd (the (push ops bs b)), record_queue_closed (record_input m))
     else if length (items b) < capacity then Some (Returns \<lparr>status = accepted, parse_error = PE_none\<rparr>,
         the (buffer_send ops bs b), fold record_ingest (input_events bs) m)
     else None)"
  using assms push_room [of b bs] push_full [of b bs] push_closed [of b bs]
  by (auto simp: ingest_def ingest_parse_cases ingest_finish_def Let_def input_events_def buffer_send_def)

end

lemma ingest_total_behaviour:
  assumes contract: "safe_buffer ops items closed capacity valid" and "valid b"
  shows "(\<not> valid_frame bs \<longrightarrow> ingest ops bs b m
      = Some (Returns \<lparr>status = parse_rejected, parse_error = error (deserialize bs)\<rparr>, b,
          fold record_ingest [Ev_input, Ev_rejected (error (deserialize bs))] m))
    \<and> (valid_frame bs \<and> closed b \<longrightarrow> (\<exists>b'. ingest ops bs b m
      = Some (Returns \<lparr>status = queue_closed, parse_error = PE_none\<rparr>, b',
          fold record_ingest [Ev_input, Ev_queue_closed] m)
        \<and> valid b' \<and> closed b' \<and> items b' = items b))
    \<and> (valid_frame bs \<and> \<not> closed b \<and> length (items b) < capacity \<longrightarrow> (\<exists>b'. ingest ops bs b m
      = Some (Returns \<lparr>status = accepted, parse_error = PE_none\<rparr>, b',
          fold record_ingest [Ev_input, Ev_accepted] m)
        \<and> valid b' \<and> \<not> closed b' \<and> items b' = items b @ [bs]))
    \<and> (valid_frame bs \<and> \<not> closed b \<and> capacity \<le> length (items b) \<longrightarrow> ingest ops bs b m = None)"
proof (intro conjI impI)
  show "\<not> valid_frame bs \<Longrightarrow> ingest ops bs b m
      = Some (Returns \<lparr>status = parse_rejected, parse_error = error (deserialize bs)\<rparr>, b,
          fold record_ingest [Ev_input, Ev_rejected (error (deserialize bs))] m)"
    by (simp add: ingest_rejects input_events_def)
next
  assume "valid_frame bs \<and> closed b"
  with raising_buffer.push_closed [OF safe_buffer.axioms(1) [OF contract] \<open>valid b\<close>, of bs]
  show "\<exists>b'. ingest ops bs b m
      = Some (Returns \<lparr>status = queue_closed, parse_error = PE_none\<rparr>, b',
          fold record_ingest [Ev_input, Ev_queue_closed] m)
        \<and> valid b' \<and> closed b' \<and> items b' = items b"
    by (auto simp: safe_buffer.ingest_valid [OF contract \<open>valid b\<close>])
next
  assume "valid_frame bs \<and> \<not> closed b \<and> length (items b) < capacity"
  with raising_buffer.push_room [OF safe_buffer.axioms(1) [OF contract] \<open>valid b\<close>, of bs]
  show "\<exists>b'. ingest ops bs b m
      = Some (Returns \<lparr>status = accepted, parse_error = PE_none\<rparr>, b',
          fold record_ingest [Ev_input, Ev_accepted] m)
        \<and> valid b' \<and> \<not> closed b' \<and> items b' = items b @ [bs]"
    by (auto simp: safe_buffer.ingest_valid [OF contract \<open>valid b\<close>] buffer_send_def input_events_def)
next
  assume "valid_frame bs \<and> \<not> closed b \<and> capacity \<le> length (items b)"
  then show "ingest ops bs b m = None"
    by (simp add: safe_buffer.ingest_valid [OF contract \<open>valid b\<close>])
qed


subsection \<open>Properties\<close>

text \<open>C32: what \<open>ingest\<close> does on every branch, for any buffer that meets its contract: an
  undecodable input is counted under its error and never reaches the buffer; a valid one is
  refused and counted when the buffer is closed, stored unchanged at the back and counted when
  there is room, and waits without effect when the buffer is full.\<close>

theorem ingest_behaviour:
  assumes "safe_buffer ops items closed capacity valid" and "valid b"
  shows "(\<not> has_value (deserialize bs) \<longrightarrow> ingest ops bs b m
      = Some (Returns \<lparr>status = parse_rejected, parse_error = error (deserialize bs)\<rparr>, b,
          fold record_ingest [Ev_input, Ev_rejected (error (deserialize bs))] m))
    \<and> (has_value (deserialize bs) \<and> closed b \<longrightarrow> (\<exists>b'. ingest ops bs b m
      = Some (Returns \<lparr>status = queue_closed, parse_error = PE_none\<rparr>, b',
          fold record_ingest [Ev_input, Ev_queue_closed] m)
        \<and> valid b' \<and> closed b' \<and> items b' = items b))
    \<and> (has_value (deserialize bs) \<and> \<not> closed b \<and> length (items b) < capacity \<longrightarrow> (\<exists>b'. ingest ops bs b m
      = Some (Returns \<lparr>status = accepted, parse_error = PE_none\<rparr>, b',
          fold record_ingest [Ev_input, Ev_accepted] m)
        \<and> valid b' \<and> \<not> closed b' \<and> items b' = items b @ [bs]))
    \<and> (has_value (deserialize bs) \<and> \<not> closed b \<and> capacity \<le> length (items b)
      \<longrightarrow> ingest ops bs b m = None)"
  using ingest_total_behaviour [OF assms, of bs m] unfolding valid_frame_def .

theorem ingest_behaviour_witness:
  "\<exists>b'. ingest (list_buffer_ops 1) (frame_layout default_frame) empty_list_buffer new_metrics
      = Some (Returns \<lparr>status = accepted, parse_error = PE_none\<rparr>, b',
          fold record_ingest [Ev_input, Ev_accepted] new_metrics)
    \<and> \<not> is_closed b' \<and> stored b' = [frame_layout default_frame]"
  using ingest_behaviour [OF list_buffer_meets_contract [of 1] TrueI, of "frame_layout default_frame"
      empty_list_buffer new_metrics]
  by (auto simp: has_value_def deserialize_layout empty_list_buffer_def)

end
