(* ===== verification/Host_Processor.thy ===== *)
theory Host_Processor
  imports Host_Ingestor
begin

text \<open>
  \<^verbatim>\<open>TelemetryProcessor\<close> and the consumer loop \<^verbatim>\<open>consume_queued_frames\<close>,
  \<^verbatim>\<open>host/src/telemetry_processor.cpp\<close>. One turn of the loop is \<^verbatim>\<open>pop\<close>, \<open>consume_check\<close> and
  \<open>process\<close>; the loop has no bound of its own, so it is a partial function whose value \<open>None\<close>
  means that it does not return (it waits in \<^verbatim>\<open>pop\<close>, or goes on for ever). That it does return on
  a closed buffer, with every stored frame processed in order, is a theorem.
\<close>

subsection \<open>The code\<close>

record ConsumerResult =
  success :: bool
  frames_consumed :: u64

definition process :: "TelemetryFrame \<Rightarrow> TelemetryMetrics \<Rightarrow> TelemetryMetrics" where
  "process f m = record_processed f m"

text \<open>\<^verbatim>\<open>std::to_integer\<close> over the array of \<open>frame_size\<close> zero bytes, by index.\<close>

definition from_queued_bytes :: "bytes \<Rightarrow> bytes" where
  "from_queued_bytes queued =
     foldl (\<lambda>bs index. bs[index := queued ! index]) (replicate frame_size 0) [0..<frame_size]"

text \<open>What the loop does with the result of \<^verbatim>\<open>pop\<close>: return, or a frame to process.\<close>

definition consume_check :: "bytes option \<Rightarrow> u64 \<Rightarrow> ConsumerResult + TelemetryFrame" where
  "consume_check queued consumed =
     (case queued of
        None \<Rightarrow> Inl \<lparr>success = True, frames_consumed = consumed\<rparr>
      | Some q \<Rightarrow>
          if length q \<noteq> frame_size then Inl \<lparr>success = False, frames_consumed = consumed\<rparr>
          else
            let parsed = deserialize (from_queued_bytes q)
            in if \<not> has_value parsed then Inl \<lparr>success = False, frames_consumed = consumed\<rparr>
               else Inr (the (frame parsed)))"

partial_function (option) consume_loop ::
    "'b buffer_ops \<Rightarrow> 'b \<Rightarrow> TelemetryMetrics \<Rightarrow> u64 \<Rightarrow>
      (ConsumerResult \<times> 'b \<times> TelemetryMetrics) option" where
  "consume_loop ops b m consumed =
     (case pop ops b of
        None \<Rightarrow> None
      | Some (Raises w, b) \<Rightarrow> Some (\<lparr>success = False, frames_consumed = consumed\<rparr>, b, m)
      | Some (Returns queued, b) \<Rightarrow>
          (case consume_check queued consumed of
             Inl r \<Rightarrow> Some (r, b, m)
           | Inr f \<Rightarrow> consume_loop ops b (process f m) (consumed + 1)))"

definition consume_queued_frames ::
    "'b buffer_ops \<Rightarrow> 'b \<Rightarrow> TelemetryMetrics \<Rightarrow> (ConsumerResult \<times> 'b \<times> TelemetryMetrics) option" where
  "consume_queued_frames ops b m = consume_loop ops b m 0"

subsection \<open>Lemmas\<close>

lemma copy_prefix:
  assumes "length (q :: bytes) = k" and "n \<le> k"
  shows "foldl (\<lambda>bs index. bs[index := q ! index]) (replicate k 0) [0..<n]
    = take n q @ replicate (k - n) 0"
  using assms(2)
proof (induction n)
  case 0
  then show ?case by simp
next
  case (Suc n)
  have "replicate (k - n) (0 :: u8) = 0 # replicate (k - Suc n) 0"
    using Suc.prems by (metis Suc_diff_Suc Suc_le_lessD replicate_Suc)
  with Suc assms(1) show ?case
    by (simp add: list_update_append take_Suc_conv_app_nth)
qed

lemma from_queued_bytes_id: "length q = frame_size \<Longrightarrow> from_queued_bytes q = q"
  by (simp add: from_queued_bytes_def copy_prefix)

lemma consume_check_simps [simp]:
  "consume_check None n = Inl \<lparr>success = True, frames_consumed = n\<rparr>"
  "valid_frame q \<Longrightarrow> consume_check (Some q) n = Inr (decoded q)"
  "\<not> valid_frame q \<Longrightarrow> consume_check (Some q) n = Inl \<lparr>success = False, frames_consumed = n\<rparr>"
  using valid_frame_length [of q]
  by (auto simp: consume_check_def from_queued_bytes_id Let_def decoded_def valid_frame_def)

context safe_buffer
begin

lemma consume_loop_drains:
  assumes "valid b" and "closed b" and "\<forall>q \<in> set (items b). valid_frame q"
  shows "\<exists>b'. consume_loop ops b m n
    = Some (\<lparr>success = True, frames_consumed = n + of_nat (length (items b))\<rparr>, b',
        fold process (map decoded (items b)) m)
    \<and> valid b' \<and> closed b' \<and> items b' = []"
  using assms
proof (induction "items b" arbitrary: b m n)
  case Nil
  from pop_drained [OF Nil(2,3) Nil(1) [symmetric]] Nil(1) show ?case
    by (subst consume_loop.simps) auto
next
  case (Cons q qs)
  from pop_item [OF Cons(3) Cons(2) [symmetric]] Cons(4)
  obtain b' where b': "pop ops b = Some (Returns (Some q), b')" "valid b'" "closed b'" "items b' = qs"
    by auto
  have ok: "valid_frame q" "\<forall>q \<in> set qs. valid_frame q"
    using Cons(5) by (simp_all flip: Cons(2))
  have "consume_loop ops b m n = consume_loop ops b' (process (decoded q) m) (n + 1)"
    by (subst consume_loop.simps) (simp add: b' ok)
  then show ?case
    using Cons(1) [OF b'(4) [symmetric] b'(2,3), of "process (decoded q) m" "n + 1"] b'(4) ok
    by (simp flip: Cons(2) add: algebra_simps)
qed

lemma consume_loop_waits:
  assumes "valid b" and "\<not> closed b" and "\<forall>q \<in> set (items b). valid_frame q"
  shows "consume_loop ops b m n = None"
  using assms
proof (induction "items b" arbitrary: b m n)
  case Nil
  then show ?case by (subst consume_loop.simps) (simp add: pop_empty)
next
  case (Cons q qs)
  from pop_item [OF Cons(3) Cons(2) [symmetric]] Cons(4)
  obtain b' where b': "pop ops b = Some (Returns (Some q), b')" "valid b'" "\<not> closed b'" "items b' = qs"
    by auto
  have ok: "valid_frame q" "\<forall>q \<in> set qs. valid_frame q"
    using Cons(5) by (simp_all flip: Cons(2))
  have "consume_loop ops b m n = consume_loop ops b' (process (decoded q) m) (n + 1)"
    by (subst consume_loop.simps) (simp add: b' ok)
  with Cons(1) [OF b'(4) [symmetric] b'(2,3)] b'(4) ok show ?case by simp
qed

lemma consume_loop_stops_at_invalid:
  assumes "valid b" and "items b = good @ bad # rest" and "\<forall>q \<in> set good. valid_frame q"
    and "\<not> valid_frame bad"
  shows "\<exists>b'. consume_loop ops b m n
    = Some (\<lparr>success = False, frames_consumed = n + of_nat (length good)\<rparr>, b',
        fold process (map decoded good) m)
    \<and> valid b' \<and> closed b' = closed b \<and> items b' = rest"
  using assms(1-3)
proof (induction good arbitrary: b m n)
  case Nil
  with pop_item [OF Nil(1)] assms(4) show ?case
    by (subst consume_loop.simps) (auto dest!: pop_item [OF Nil(1)])
next
  case (Cons q qs)
  from pop_item [OF Cons(2)] Cons(3)
  obtain b' where b': "pop ops b = Some (Returns (Some q), b')" "valid b'" "closed b' = closed b"
      "items b' = qs @ bad # rest"
    by auto
  have "consume_loop ops b m n = consume_loop ops b' (process (decoded q) m) (n + 1)"
    using Cons(4) by (subst consume_loop.simps) (simp add: b')
  then show ?case
    using Cons(1) [OF b'(2,4), of "process (decoded q) m" "n + 1"] Cons(4) b'(3)
    by (simp add: algebra_simps)
qed

end

subsection \<open>Properties\<close>

text \<open>C33: the consumer drains a closed buffer: it returns success, has consumed exactly the stored
  frames, and has processed them in their order; the buffer is left empty.\<close>

theorem consumer_drains_closed_buffer:
  assumes "safe_buffer ops items closed capacity valid" and "valid b" and "closed b"
    and "\<forall>q \<in> set (items b). valid_frame q"
  shows "\<exists>b'. consume_queued_frames ops b m
    = Some (\<lparr>success = True, frames_consumed = of_nat (length (items b))\<rparr>, b',
        fold record_processed (map decoded (items b)) m)
    \<and> items b' = []"
proof -
  have "process = record_processed" by (rule ext)+ (simp add: process_def)
  then show ?thesis
    using safe_buffer.consume_loop_drains [OF assms, of m 0]
    by (auto simp: consume_queued_frames_def)
qed

theorem consumer_drains_closed_buffer_witness:
  "\<exists>b'. consume_queued_frames (list_buffer_ops 3)
      \<lparr>stored = [frame_layout default_frame], is_closed = True\<rparr> new_metrics
    = Some (\<lparr>success = True, frames_consumed = of_nat (length [frame_layout default_frame])\<rparr>, b',
        fold record_processed (map decoded [frame_layout default_frame]) new_metrics)
    \<and> stored b' = []"
  using consumer_drains_closed_buffer [OF list_buffer_meets_contract [of 3] TrueI,
      of "\<lparr>stored = [frame_layout default_frame], is_closed = True\<rparr>" new_metrics]
  by (simp add: valid_frame_def has_value_def deserialize_layout)

text \<open>C34: one undecodable element stops the consumer: it reports failure, having processed exactly
  the frames before it, and leaves the elements after it in the buffer, open or closed.\<close>

theorem consumer_stops_at_invalid_frame:
  assumes "safe_buffer ops items closed capacity valid" and "valid b"
    and "items b = good @ bad # rest" and "\<forall>q \<in> set good. valid_frame q" and "\<not> valid_frame bad"
  shows "\<exists>b'. consume_queued_frames ops b m
    = Some (\<lparr>success = False, frames_consumed = of_nat (length good)\<rparr>, b',
        fold record_processed (map decoded good) m)
    \<and> items b' = rest"
proof -
  have "process = record_processed" by (rule ext)+ (simp add: process_def)
  then show ?thesis
    using safe_buffer.consume_loop_stops_at_invalid [OF assms, of m 0]
    by (auto simp: consume_queued_frames_def)
qed

theorem consumer_stops_at_invalid_frame_witness:
  "\<exists>b'. consume_queued_frames (list_buffer_ops 3)
      \<lparr>stored = [frame_layout default_frame] @ [] # [[1]], is_closed = False\<rparr> new_metrics
    = Some (\<lparr>success = False, frames_consumed = of_nat (length [frame_layout default_frame])\<rparr>, b',
        fold record_processed (map decoded [frame_layout default_frame]) new_metrics)
    \<and> stored b' = [[1]]"
proof (rule consumer_stops_at_invalid_frame [OF list_buffer_meets_contract [of 3] TrueI])
  show "\<not> valid_frame []"
    using valid_frame_length [of "[]"] by (auto simp: frame_size_eq)
qed (simp_all add: valid_frame_def has_value_def deserialize_layout)

end
