(* ===== verification/Host_Report.thy ===== *)
theory Host_Report
  imports Host_Metrics
begin

text \<open>
  The text report of the host, \<^verbatim>\<open>host/src/telemetry_report.cpp\<close>. The stream insertions are the
  concatenation of the inserted pieces; \<^verbatim>\<open>std::to_string\<close> and \<^verbatim>\<open>operator<<\<close> of an integer are
  \<open>show_nat\<close> and \<open>show_int\<close>. The reference for the averages is \<open>average_text\<close>, the exact average
  over unbounded integers; the report itself is shown to determine the snapshot.
\<close>

subsection \<open>The code\<close>

definition format_optional :: "('a \<Rightarrow> string) \<Rightarrow> 'a option \<Rightarrow> string" where
  "format_optional to_string value = (case value of None \<Rightarrow> ''N/A'' | Some v \<Rightarrow> to_string v)"

definition unsigned_text :: "'a::len word \<Rightarrow> string" where
  "unsigned_text w = show_nat (unat w)"

definition signed_text :: "'a::len word \<Rightarrow> string" where
  "signed_text w = show_int (sint w)"

definition format_signed_average :: "i64 \<Rightarrow> u64 \<Rightarrow> string" where
  "format_signed_average acc count =
     (if count = 0 then ''N/A''
      else
        let negative = sint acc < 0;
            magnitude = (if negative then - (acc + 1) + 1 else acc);
            quotient = magnitude div count;
            remainder = magnitude mod count;
            sign = (if negative then ''-'' else '''')
        in if remainder = 0 then sign @ unsigned_text quotient
           else sign @ unsigned_text magnitude @ ''/'' @ unsigned_text count)"

definition format_unsigned_average :: "u64 \<Rightarrow> u64 \<Rightarrow> string" where
  "format_unsigned_average acc count =
     (if count = 0 then ''N/A''
      else
        let quotient = acc div count;
            remainder = acc mod count
        in if remainder = 0 then unsigned_text quotient
           else unsigned_text acc @ ''/'' @ unsigned_text count)"

definition newline :: char where
  "newline = CHR 0x0A"

definition make_text_report :: "TelemetryMetricsSnapshot \<Rightarrow> string" where
  "make_text_report s =
     ''Telemetry Host Pipeline Report'' @ [newline]
     @ ''=============================='' @ [newline]
     @ ''Inputs received: '' @ unsigned_text (inputs_received s) @ [newline]
     @ ''Frames accepted: '' @ unsigned_text (frames_accepted s) @ [newline]
     @ ''Frames rejected: '' @ unsigned_text (frames_rejected s) @ [newline]
     @ ''Frames processed: '' @ unsigned_text (frames_processed s) @ [newline]
     @ ''Queue closed rejections: '' @ unsigned_text (queue_closed_rejections s) @ [newline]
     @ ''Parse errors:'' @ [newline]
     @ ''  Invalid frame size: '' @ unsigned_text (invalid_frame_size (parse_errors s)) @ [newline]
     @ ''  Invalid magic: '' @ unsigned_text (invalid_magic (parse_errors s)) @ [newline]
     @ ''  Unsupported version: '' @ unsigned_text (unsupported_version (parse_errors s)) @ [newline]
     @ ''  Unsupported message type: '' @ unsigned_text (unsupported_message_type (parse_errors s))
       @ [newline]
     @ ''  Invalid payload size: '' @ unsigned_text (invalid_payload_size (parse_errors s)) @ [newline]
     @ ''  Checksum mismatch: '' @ unsigned_text (checksum_mismatch (parse_errors s)) @ [newline]
     @ ''Sequence analysis:'' @ [newline]
     @ ''  First sequence: '' @ format_optional unsigned_text (first_sequence s) @ [newline]
     @ ''  Last sequence: '' @ format_optional unsigned_text (last_sequence s) @ [newline]
     @ ''  Missing sequences: '' @ unsigned_text (missing_sequences s) @ [newline]
     @ ''  Duplicate sequences: '' @ unsigned_text (duplicate_sequences s) @ [newline]
     @ ''  Out-of-order sequences: '' @ unsigned_text (out_of_order_sequences s) @ [newline]
     @ ''Warnings:'' @ [newline]
     @ ''  Sensor: '' @ unsigned_text (sensor_warnings s) @ [newline]
     @ ''  Voltage: '' @ unsigned_text (voltage_warnings s) @ [newline]
     @ ''  Communication: '' @ unsigned_text (communication_warnings s) @ [newline]
     @ ''  Watchdog: '' @ unsigned_text (watchdog_events s) @ [newline]
     @ ''Temperature:'' @ [newline]
     @ ''  Minimum: '' @ format_optional signed_text (minimum_temperature_millicelsius s)
       @ '' millicelsius'' @ [newline]
     @ ''  Maximum: '' @ format_optional signed_text (maximum_temperature_millicelsius s)
       @ '' millicelsius'' @ [newline]
     @ ''  Average: '' @ format_signed_average (temperature_sum_millicelsius s) (frames_processed s)
       @ '' millicelsius'' @ [newline]
     @ ''Supply voltage:'' @ [newline]
     @ ''  Minimum: '' @ format_optional unsigned_text (minimum_supply_millivolts s)
       @ '' millivolts'' @ [newline]
     @ ''  Maximum: '' @ format_optional unsigned_text (maximum_supply_millivolts s)
       @ '' millivolts'' @ [newline]
     @ ''  Average: '' @ format_unsigned_average (supply_sum_millivolts s) (frames_processed s)
       @ '' millivolts'' @ [newline]"

subsection \<open>The reference\<close>

definition average_text :: "int \<Rightarrow> nat \<Rightarrow> string" where
  "average_text t n =
     (if n = 0 then ''N/A''
      else if int n dvd t then show_int (t div int n)
      else show_int t @ ''/'' @ show_nat n)"

subsection \<open>Averages are exact\<close>

lemma sint_i64_bounds: "- (2 ^ 63) \<le> sint (w :: i64)" "sint (w :: i64) < 2 ^ 63"
  using sint_range_size [of w] by (simp_all add: word_size)

lemma uint_of_sint: "uint (w :: i64) = sint w mod 2 ^ 64"
  using uint_sint [of w] by (simp add: take_bit_eq_mod)

lemma magnitude_negative:
  assumes "sint (w :: i64) < 0"
  shows "unat (- (w + 1) + 1) = nat (- sint w)"
proof -
  have "uint (- w) = (- sint w) mod 2 ^ 64"
    unfolding uint_word_ariths(4) uint_of_sint [of w] by (simp add: mod_minus_eq)
  also have "\<dots> = - sint w"
    using assms sint_i64_bounds [of w] by (intro mod_pos_pos_trivial) simp_all
  finally show ?thesis by (simp add: unat_eq_nat_uint)
qed

lemma magnitude_nonnegative:
  assumes "\<not> sint (w :: i64) < 0"
  shows "unat w = nat (sint w)"
proof -
  have "uint w = sint w"
    unfolding uint_of_sint using assms sint_i64_bounds [of w]
    by (intro mod_pos_pos_trivial) simp_all
  then show ?thesis by (simp add: unat_eq_nat_uint)
qed

lemma show_int_abs: "show_int i = (if i < 0 then ''-'' else '''') @ show_nat (nat \<bar>i\<bar>)"
  by (simp add: show_int_def)

lemma unat_mod_zero_iff: "(a :: u64) mod b = 0 \<longleftrightarrow> unat b dvd unat a"
proof -
  have "a mod b = 0 \<longleftrightarrow> unat (a mod b) = 0" by (simp only: unat_eq_0)
  then show ?thesis by (simp only: unat_mod_distrib dvd_eq_mod_eq_0)
qed

lemma average_text_nat:
  "average_text (int a) n =
    (if n = 0 then ''N/A'' else if n dvd a then show_nat (a div n)
     else show_nat a @ ''/'' @ show_nat n)"
  by (simp add: average_text_def show_int_def int_dvd_int_iff flip: zdiv_int)

lemma average_text_negative:
  assumes "0 < a"
  shows "average_text (- int a) n =
    (if n = 0 then ''N/A'' else if n dvd a then ''-'' @ show_nat (a div n)
     else ''-'' @ show_nat a @ ''/'' @ show_nat n)"
proof (cases "n dvd a")
  case True
  then obtain k where k: "a = n * k" by (rule dvdE)
  with assms have "- (int n * int k) div int n = - int k"
    by (simp add: div_mult_self1_is_m flip: mult_minus_right)
  with assms k show ?thesis
    by (simp add: average_text_def show_int_def)
next
  case False
  then show ?thesis using assms by (simp add: average_text_def show_int_def int_dvd_int_iff)
qed

lemma signed_average_exact:
  "format_signed_average s c = average_text (sint s) (unat c)"
proof (cases "sint s < 0")
  case True
  then have "average_text (sint s) (unat c) = average_text (- int (nat (- sint s))) (unat c)"
    by simp
  also have "\<dots> = format_signed_average s c"
    using True magnitude_negative [OF True]
    by (subst average_text_negative)
      (simp_all add: format_signed_average_def Let_def unsigned_text_def unat_mod_zero_iff
        unat_div_distrib unat_eq_0)
  finally show ?thesis ..
next
  case False
  then have "average_text (sint s) (unat c) = average_text (int (nat (sint s))) (unat c)"
    by simp
  also have "\<dots> = format_signed_average s c"
    using False magnitude_nonnegative [OF False]
    by (subst average_text_nat)
      (simp add: format_signed_average_def Let_def unsigned_text_def
        unat_mod_zero_iff unat_div_distrib unat_eq_0)
  finally show ?thesis ..
qed

lemma unsigned_average_exact:
  "format_unsigned_average s c = average_text (int (unat s)) (unat c)"
  by (simp add: average_text_nat format_unsigned_average_def Let_def unsigned_text_def
      unat_mod_zero_iff unat_div_distrib unat_eq_0 del: of_nat_unat)

subsection \<open>Numerals are injective and contain only digits\<close>

definition is_digit :: "char \<Rightarrow> bool" where
  "is_digit c \<longleftrightarrow> c \<in> set ''0123456789''"

lemma not_digits [simp]:
  "\<not> is_digit CHR ''-''" "\<not> is_digit CHR ''/''" "\<not> is_digit CHR ''N''" "\<not> is_digit CHR '' ''"
  "\<not> is_digit newline"
  by (simp_all add: is_digit_def newline_def)

lemma is_digit_digit_char: "d < 10 \<Longrightarrow> is_digit (digit_char d)"
  unfolding digit_char_def is_digit_def by (rule nth_mem) simp

lemma digits_show_nat: "c \<in> set (show_nat n) \<Longrightarrow> is_digit c"
proof (induction n rule: show_nat.induct)
  case (1 n)
  show ?case
  proof (cases "n < 10")
    case True
    with 1(2) show ?thesis by (subst (asm) show_nat.simps) (simp add: is_digit_digit_char)
  next
    case False
    with 1(2) have "c \<in> set (show_nat (n div 10)) \<or> c = digit_char (n mod 10)"
      by (subst (asm) show_nat.simps) auto
    with 1(1) False show ?thesis by (auto simp: is_digit_digit_char)
  qed
qed

lemma not_in_show_nat [simp]: "\<not> is_digit c \<Longrightarrow> c \<notin> set (show_nat n)"
  using digits_show_nat by blast

lemma show_nat_not_Cons [simp]:
  assumes "\<not> is_digit c"
  shows "show_nat n \<noteq> c # s" "c # s \<noteq> show_nat n"
  using not_in_show_nat [OF assms, of n] by (metis list.set_intros(1))+

lemma not_in_show_int [simp]: "\<not> is_digit c \<Longrightarrow> c \<noteq> CHR ''-'' \<Longrightarrow> c \<notin> set (show_int i)"
  by (simp add: show_int_def)

lemma show_int_not_Cons [simp]:
  assumes "\<not> is_digit c" and "c \<noteq> CHR ''-''"
  shows "show_int i \<noteq> c # s" "c # s \<noteq> show_int i"
  using not_in_show_int [OF assms, of i] by (metis list.set_intros(1))+

lemma show_int_inject: "show_int i = show_int j \<longleftrightarrow> i = j"
  by (simp add: show_int_def show_nat_inject) linarith

lemma average_text_inject:
  assumes eq: "average_text t n = average_text t' n" and "n \<noteq> 0"
  shows "t = t'"
proof -
  have free: "show_int i \<noteq> show_int j @ CHR ''/'' # s" for i j s
  proof
    assume "show_int i = show_int j @ CHR ''/'' # s"
    then have "CHR ''/'' \<in> set (show_int i)" by simp
    then show False by simp
  qed
  show ?thesis
    using assms free free [symmetric]
    by (auto simp: average_text_def show_int_inject split: if_splits)
qed

lemma average_text_inject_iff:
  "n \<noteq> 0 \<Longrightarrow> average_text t n = average_text t' n \<longleftrightarrow> t = t'"
  using average_text_inject by blast

subsection \<open>The report as lines\<close>

definition report_lines :: "TelemetryMetricsSnapshot \<Rightarrow> string list" where
  "report_lines s =
     [''Telemetry Host Pipeline Report'',
      ''=============================='',
      ''Inputs received: '' @ unsigned_text (inputs_received s),
      ''Frames accepted: '' @ unsigned_text (frames_accepted s),
      ''Frames rejected: '' @ unsigned_text (frames_rejected s),
      ''Frames processed: '' @ unsigned_text (frames_processed s),
      ''Queue closed rejections: '' @ unsigned_text (queue_closed_rejections s),
      ''Parse errors:'',
      ''  Invalid frame size: '' @ unsigned_text (invalid_frame_size (parse_errors s)),
      ''  Invalid magic: '' @ unsigned_text (invalid_magic (parse_errors s)),
      ''  Unsupported version: '' @ unsigned_text (unsupported_version (parse_errors s)),
      ''  Unsupported message type: '' @ unsigned_text (unsupported_message_type (parse_errors s)),
      ''  Invalid payload size: '' @ unsigned_text (invalid_payload_size (parse_errors s)),
      ''  Checksum mismatch: '' @ unsigned_text (checksum_mismatch (parse_errors s)),
      ''Sequence analysis:'',
      ''  First sequence: '' @ format_optional unsigned_text (first_sequence s),
      ''  Last sequence: '' @ format_optional unsigned_text (last_sequence s),
      ''  Missing sequences: '' @ unsigned_text (missing_sequences s),
      ''  Duplicate sequences: '' @ unsigned_text (duplicate_sequences s),
      ''  Out-of-order sequences: '' @ unsigned_text (out_of_order_sequences s),
      ''Warnings:'',
      ''  Sensor: '' @ unsigned_text (sensor_warnings s),
      ''  Voltage: '' @ unsigned_text (voltage_warnings s),
      ''  Communication: '' @ unsigned_text (communication_warnings s),
      ''  Watchdog: '' @ unsigned_text (watchdog_events s),
      ''Temperature:'',
      ''  Minimum: '' @ format_optional signed_text (minimum_temperature_millicelsius s) @ '' millicelsius'',
      ''  Maximum: '' @ format_optional signed_text (maximum_temperature_millicelsius s) @ '' millicelsius'',
      ''  Average: '' @ average_text (sint (temperature_sum_millicelsius s)) (unat (frames_processed s))
        @ '' millicelsius'',
      ''Supply voltage:'',
      ''  Minimum: '' @ format_optional unsigned_text (minimum_supply_millivolts s) @ '' millivolts'',
      ''  Maximum: '' @ format_optional unsigned_text (maximum_supply_millivolts s) @ '' millivolts'',
      ''  Average: '' @ average_text (int (unat (supply_sum_millivolts s))) (unat (frames_processed s))
        @ '' millivolts'']"

definition unlines :: "string list \<Rightarrow> string" where
  "unlines ls = concat (map (\<lambda>l. l @ [newline]) ls)"

lemma unlines_simps: "unlines [] = []" "unlines (l # ls) = l @ newline # unlines ls"
  by (simp_all add: unlines_def)

lemma report_as_lines: "make_text_report s = unlines (report_lines s)"
  by (simp add: make_text_report_def report_lines_def unlines_simps signed_average_exact
      unsigned_average_exact)

lemma append_separator:
  "c \<notin> set xs \<Longrightarrow> c \<notin> set ys \<Longrightarrow> xs @ c # r = ys @ c # r' \<longleftrightarrow> xs = ys \<and> r = r'"
  by (auto simp: append_eq_append_conv2 append_eq_Cons_conv Cons_eq_append_conv)

lemma unlines_inject:
  "\<forall>l \<in> set ls. newline \<notin> set l \<Longrightarrow> \<forall>l \<in> set ls'. newline \<notin> set l \<Longrightarrow>
    unlines ls = unlines ls' \<longleftrightarrow> ls = ls'"
proof (induction ls arbitrary: ls')
  case Nil
  then show ?case by (cases ls') (simp_all add: unlines_simps)
next
  case (Cons l ls)
  then show ?case by (cases ls') (auto simp: unlines_simps append_separator)
qed

lemma newline_neq [simp]:
  "newline \<noteq> CHR ''-''" "newline \<noteq> CHR ''/''" "newline \<noteq> CHR ''N''" "newline \<noteq> CHR ''A''"
  by (simp_all add: newline_def)

lemma newline_free_unsigned [simp]: "newline \<notin> set (unsigned_text w)"
  by (simp add: unsigned_text_def)

lemma newline_free_signed [simp]: "newline \<notin> set (signed_text v)"
  by (simp add: signed_text_def)

lemma newline_free_optional [simp]:
  "(\<And>v. newline \<notin> set (f v)) \<Longrightarrow> newline \<notin> set (format_optional f ov)"
  by (simp add: format_optional_def split: option.split)

lemma newline_free_average [simp]: "newline \<notin> set (average_text t n)"
  by (simp add: average_text_def)

lemma newline_free_lines: "\<forall>l \<in> set (report_lines s). newline \<notin> set l"
  by (simp add: report_lines_def) (simp add: newline_def)

lemma unat_inject: "unat v = unat w \<longleftrightarrow> v = (w :: 'a::len word)"
  by (rule word_eq_iff_unsigned [symmetric])

lemma sint_inject: "sint v = sint w \<longleftrightarrow> v = (w :: 'a::len word)"
  by (rule word_eq_iff_signed [symmetric])

lemma unsigned_text_inject [simp]: "unsigned_text v = unsigned_text w \<longleftrightarrow> v = w"
  by (simp add: unsigned_text_def show_nat_inject unat_inject)

lemma signed_text_inject [simp]: "signed_text v = signed_text w \<longleftrightarrow> v = w"
  by (simp add: signed_text_def show_int_inject sint_inject)

lemma text_not_NA [simp]:
  "unsigned_text v \<noteq> CHR ''N'' # r" "CHR ''N'' # r \<noteq> unsigned_text v"
  "signed_text w \<noteq> CHR ''N'' # r" "CHR ''N'' # r \<noteq> signed_text w"
  by (simp_all add: unsigned_text_def signed_text_def)

lemma unsigned_optional_inject [simp]:
  "format_optional unsigned_text v = format_optional unsigned_text w \<longleftrightarrow> v = w"
  by (auto simp: format_optional_def split: option.splits)

lemma signed_optional_inject [simp]:
  "format_optional signed_text v = format_optional signed_text w \<longleftrightarrow> v = w"
  by (auto simp: format_optional_def split: option.splits)

lemma lines_determine_snapshot:
  assumes "report_lines s = report_lines t" and "frames_processed s \<noteq> 0"
  shows "s = t"
proof -
  have pe: "parse_errors s = parse_errors t"
    using assms(1) by (intro ParseErrorCounters.equality) (simp_all add: report_lines_def)
  have processed: "frames_processed s = frames_processed t" "unat (frames_processed s) \<noteq> 0"
    using assms by (simp_all add: report_lines_def unat_eq_0)
  have sums: "temperature_sum_millicelsius s = temperature_sum_millicelsius t"
    "supply_sum_millivolts s = supply_sum_millivolts t"
    using assms(1) processed
    by (simp_all add: report_lines_def average_text_inject_iff sint_inject del: of_nat_unat)
      (simp add: unat_inject)
  show ?thesis
    by (rule TelemetryMetricsSnapshot.equality)
      (use assms(1) in \<open>simp_all add: pe processed sums, simp_all add: report_lines_def\<close>)
qed

subsection \<open>Properties\<close>

text \<open>C35: the printed averages are exact for every sum and count, the smallest \<^verbatim>\<open>std::int64_t\<close>
  included: the whole quotient when the count divides the sum, otherwise the unreduced ratio,
  with the sign of the sum.\<close>

theorem averages_are_exact:
  "format_signed_average s c = average_text (sint s) (unat c)
    \<and> format_unsigned_average u c = average_text (int (unat u)) (unat c)"
  by (simp add: signed_average_exact unsigned_average_exact)

text \<open>C36: the report loses nothing: two snapshots with the same report are the same snapshot, as
  soon as one frame has been processed (before, the sums are not printed).\<close>

theorem report_determines_snapshot:
  assumes "make_text_report s = make_text_report t" and "frames_processed s \<noteq> 0"
  shows "s = t"
proof (rule lines_determine_snapshot [OF _ assms(2)])
  show "report_lines s = report_lines t"
    using assms(1) newline_free_lines [of s] newline_free_lines [of t]
    by (simp add: report_as_lines unlines_inject)
qed

theorem report_determines_snapshot_witness:
  "snapshot (record_processed default_frame new_metrics)
    = snapshot (record_processed default_frame new_metrics)
    \<and> frames_processed (snapshot (record_processed default_frame new_metrics)) \<noteq> 0"
proof -
  have processed: "frames_processed (snapshot (record_processed default_frame new_metrics)) \<noteq> 0"
    by (simp add: snapshot_def record_processed_def new_metrics_def record_sequence_def
        record_flags_eq record_temperature_def record_supply_def Let_def)
  with report_determines_snapshot [OF refl processed] show ?thesis by simp
qed

end
