(* ===== verification/Host_Main.thy ===== *)
theory Host_Main
  imports Host_Processor Host_Report Step_System
begin

text \<open>
  The host program, \<^verbatim>\<open>host/src/main.cpp\<close>: the main thread ingests the frames of the source, the
  consumer thread runs \<^verbatim>\<open>consume_queued_frames\<close>, and they share the buffer and the metrics. Each
  thread is a program counter and a step function, \<open>None\<close> while its call waits; \<open>host_step\<close> is
  one step of either thread, so that a run is any interleaving. A step is one call on a shared
  object, or the code between two such calls.

  The exception paths are those of the buffer's operations: the inner \<^verbatim>\<open>catch (...)\<close> closes the
  buffer, joins and rethrows, and the outer handlers print and return 1.
\<close>

subsection \<open>The code\<close>

definition queue_capacity :: nat where
  "queue_capacity = 3"

datatype main_pc =
    M_next                          \<comment> \<open>head of the range-based for loop\<close>
  | M_input bytes                   \<comment> \<open>\<^verbatim>\<open>ingest\<close> entered\<close>
  | M_parse bytes                   \<comment> \<open>input recorded\<close>
  | M_push bytes                    \<comment> \<open>about to push the queued bytes\<close>
  | M_pushed bool                   \<comment> \<open>\<^verbatim>\<open>push\<close> has returned\<close>
  | M_ingested IngestResult         \<comment> \<open>\<^verbatim>\<open>ingest\<close> has returned\<close>
  | M_catch "string option"         \<comment> \<open>inner handler, before \<^verbatim>\<open>close\<close>\<close>
  | M_catch_join "string option"    \<comment> \<open>inner handler, before \<^verbatim>\<open>join\<close>\<close>
  | M_close                         \<comment> \<open>after the loop, before \<^verbatim>\<open>close\<close>\<close>
  | M_join                          \<comment> \<open>before \<^verbatim>\<open>join\<close>\<close>
  | M_exit nat                      \<comment> \<open>returned from \<^verbatim>\<open>main\<close>\<close>

datatype consumer_pc =
    C_pop u64                       \<comment> \<open>head of the loop, with the number consumed\<close>
  | C_popped "bytes option" u64     \<comment> \<open>\<^verbatim>\<open>pop\<close> has returned\<close>
  | C_process TelemetryFrame u64    \<comment> \<open>about to process a frame\<close>
  | C_done ConsumerResult           \<comment> \<open>returned, the result stored\<close>

record 'b host_state =
  the_buffer :: 'b
  the_metrics :: TelemetryMetrics
  frames_left :: "bytes list"
  main_at :: main_pc
  consumer_at :: consumer_pc
  ingestion_succeeded :: bool
  cout :: string
  cerr :: string

definition host_start :: "'b \<Rightarrow> bytes list \<Rightarrow> 'b host_state" where
  "host_start b inputs =
     \<lparr>the_buffer = b, the_metrics = new_metrics, frames_left = inputs, main_at = M_next,
      consumer_at = C_pop 0, ingestion_succeeded = True, cout = [], cerr = []\<rparr>"

text \<open>The message of the outer handlers: one for \<^verbatim>\<open>std::exception\<close>, one for anything else.\<close>

definition handler_message :: "string option \<Rightarrow> string" where
  "handler_message w = (case w of
      Some what \<Rightarrow> ''Telemetry host pipeline failed: '' @ what @ [newline]
    | None \<Rightarrow> ''Telemetry host pipeline failed unexpectedly'' @ [newline])"

definition finish_main :: "ConsumerResult \<Rightarrow> 'b host_state \<Rightarrow> 'b host_state" where
  "finish_main consumer_result s =
     (let snap = snapshot (the_metrics s)
      in if \<not> ingestion_succeeded s \<or> \<not> success consumer_result
            \<or> frames_consumed consumer_result \<noteq> frames_accepted snap
         then s\<lparr>cerr := cerr s @ ''Telemetry host pipeline failed operationally'' @ [newline],
                main_at := M_exit 1\<rparr>
         else s\<lparr>cout := cout s @ make_text_report snap, main_at := M_exit 0\<rparr>)"

definition main_step :: "'b buffer_ops \<Rightarrow> 'b host_state \<Rightarrow> 'b host_state option" where
  "main_step ops s =
     (case main_at s of
        M_next \<Rightarrow>
          (case frames_left s of
             [] \<Rightarrow> Some (s\<lparr>main_at := M_close\<rparr>)
           | raw_frame # rest \<Rightarrow> Some (s\<lparr>frames_left := rest, main_at := M_input raw_frame\<rparr>))
      | M_input bs \<Rightarrow> Some (s\<lparr>the_metrics := record_input (the_metrics s), main_at := M_parse bs\<rparr>)
      | M_parse bs \<Rightarrow>
          (case ingest_parse bs (the_metrics s) of
             (Inl r, m) \<Rightarrow> Some (s\<lparr>the_metrics := m, main_at := M_ingested r\<rparr>)
           | (Inr queued_bytes, m) \<Rightarrow> Some (s\<lparr>the_metrics := m, main_at := M_push queued_bytes\<rparr>))
      | M_push queued_bytes \<Rightarrow>
          (case push ops queued_bytes (the_buffer s) of
             None \<Rightarrow> None
           | Some (Raises w, b) \<Rightarrow> Some (s\<lparr>the_buffer := b, main_at := M_catch w\<rparr>)
           | Some (Returns pushed, b) \<Rightarrow> Some (s\<lparr>the_buffer := b, main_at := M_pushed pushed\<rparr>))
      | M_pushed pushed \<Rightarrow>
          (case ingest_finish pushed (the_metrics s) of
             (r, m) \<Rightarrow> Some (s\<lparr>the_metrics := m, main_at := M_ingested r\<rparr>))
      | M_ingested r \<Rightarrow>
          if status r = queue_closed
          then Some (s\<lparr>ingestion_succeeded := False, main_at := M_close\<rparr>)
          else Some (s\<lparr>main_at := M_next\<rparr>)
      | M_catch w \<Rightarrow> Some (s\<lparr>the_buffer := close ops (the_buffer s), main_at := M_catch_join w\<rparr>)
      | M_catch_join w \<Rightarrow>
          (case consumer_at s of
             C_done _ \<Rightarrow> Some (s\<lparr>cerr := cerr s @ handler_message w, main_at := M_exit 1\<rparr>)
           | _ \<Rightarrow> None)
      | M_close \<Rightarrow> Some (s\<lparr>the_buffer := close ops (the_buffer s), main_at := M_join\<rparr>)
      | M_join \<Rightarrow> (case consumer_at s of C_done r \<Rightarrow> Some (finish_main r s) | _ \<Rightarrow> None)
      | M_exit _ \<Rightarrow> None)"

definition consumer_step :: "'b buffer_ops \<Rightarrow> 'b host_state \<Rightarrow> 'b host_state option" where
  "consumer_step ops s =
     (case consumer_at s of
        C_pop consumed \<Rightarrow>
          (case pop ops (the_buffer s) of
             None \<Rightarrow> None
           | Some (Raises w, b) \<Rightarrow>
               Some (s\<lparr>the_buffer := b,
                       consumer_at := C_done \<lparr>success = False, frames_consumed = consumed\<rparr>\<rparr>)
           | Some (Returns queued, b) \<Rightarrow>
               Some (s\<lparr>the_buffer := b, consumer_at := C_popped queued consumed\<rparr>))
      | C_popped queued consumed \<Rightarrow>
          (case consume_check queued consumed of
             Inl r \<Rightarrow> Some (s\<lparr>consumer_at := C_done r\<rparr>)
           | Inr f \<Rightarrow> Some (s\<lparr>consumer_at := C_process f consumed\<rparr>))
      | C_process f consumed \<Rightarrow>
          Some (s\<lparr>the_metrics := process f (the_metrics s), consumer_at := C_pop (consumed + 1)\<rparr>)
      | C_done _ \<Rightarrow> None)"

inductive host_step :: "'b buffer_ops \<Rightarrow> 'b host_state \<Rightarrow> 'b host_state \<Rightarrow> bool" for ops where
  main_thread: "main_step ops s = Some t \<Longrightarrow> host_step ops s t"
| consumer_thread: "consumer_step ops s = Some t \<Longrightarrow> host_step ops s t"

inductive_cases host_stepE [elim]: "host_step ops s t"

lemma host_step_iff: "host_step ops s t \<longleftrightarrow> main_step ops s = Some t \<or> consumer_step ops s = Some t"
  by (auto intro: host_step.intros)

subsection \<open>What each thread has done\<close>

text \<open>
  \<open>main_view\<close> relates the main thread's program counter and remaining frames to the events it
  has recorded, the frames it has pushed and whether it has closed the buffer; \<open>consumer_view\<close>
  relates the consumer's program counter and the buffer to the frames processed and the frames
  pushed but not yet processed.
\<close>

inductive main_view ::
    "bytes list \<Rightarrow> main_pc \<Rightarrow> bytes list \<Rightarrow> IngestEvent list \<Rightarrow> bytes list \<Rightarrow> bool \<Rightarrow> bool"
  for inputs where
  at_next: "inputs = d @ rest \<Longrightarrow>
    main_view inputs M_next rest (ingested d) (filter valid_frame d) False"
| at_input: "inputs = d @ bs # rest \<Longrightarrow>
    main_view inputs (M_input bs) rest (ingested d) (filter valid_frame d) False"
| at_parse: "inputs = d @ bs # rest \<Longrightarrow>
    main_view inputs (M_parse bs) rest (ingested d @ [Ev_input]) (filter valid_frame d) False"
| at_push: "inputs = d @ bs # rest \<Longrightarrow> valid_frame bs \<Longrightarrow>
    main_view inputs (M_push bs) rest (ingested d @ [Ev_input]) (filter valid_frame d) False"
| at_pushed: "inputs = d @ bs # rest \<Longrightarrow> valid_frame bs \<Longrightarrow>
    main_view inputs (M_pushed True) rest (ingested d @ [Ev_input]) (filter valid_frame d @ [bs]) False"
| at_ingested: "inputs = d @ rest \<Longrightarrow> status r \<noteq> queue_closed \<Longrightarrow>
    main_view inputs (M_ingested r) rest (ingested d) (filter valid_frame d) False"
| at_close: "main_view inputs M_close [] (ingested inputs) (filter valid_frame inputs) False"
| at_join: "main_view inputs M_join [] (ingested inputs) (filter valid_frame inputs) True"
| at_exit: "main_view inputs (M_exit 0) [] (ingested inputs) (filter valid_frame inputs) True"

inductive consumer_view ::
    "consumer_pc \<Rightarrow> bytes list \<Rightarrow> bytes list \<Rightarrow> bytes list \<Rightarrow> bool \<Rightarrow> bool" where
  at_pop: "consumer_view (C_pop (of_nat (length pr))) pr qs qs cl"
| at_popped: "consumer_view (C_popped (Some q) (of_nat (length pr))) pr (q # qs) qs cl"
| at_empty: "consumer_view (C_popped None (of_nat (length pr))) pr [] [] True"
| at_process: "consumer_view (C_process (decoded q) (of_nat (length pr))) pr (q # qs) qs cl"
| at_done: "consumer_view (C_done \<lparr>success = True, frames_consumed = of_nat (length pr)\<rparr>) pr [] [] True"

inductive_cases main_view_cases:
  "main_view inputs M_next rest E P c" "main_view inputs (M_input bs) rest E P c"
  "main_view inputs (M_parse bs) rest E P c" "main_view inputs (M_push bs) rest E P c"
  "main_view inputs (M_pushed ok) rest E P c" "main_view inputs (M_ingested r) rest E P c"
  "main_view inputs M_close rest E P c" "main_view inputs M_join rest E P c"
  "main_view inputs (M_catch w) rest E P c" "main_view inputs (M_catch_join w) rest E P c"
  "main_view inputs (M_exit n) rest E P c"

inductive_cases consumer_view_cases:
  "consumer_view (C_pop n) pr Q its c" "consumer_view (C_popped q n) pr Q its c"
  "consumer_view (C_process f n) pr Q its c" "consumer_view (C_done r) pr Q its c"

lemma main_view_valid: "main_view inputs pc rest E P c \<Longrightarrow> \<forall>q \<in> set P. valid_frame q"
  by (induction rule: main_view.induct) auto

lemma consumer_view_closed:
  "consumer_view pc pr Q its False \<Longrightarrow> its = its' \<Longrightarrow>
    consumer_view pc pr Q its' True"
  by (erule consumer_view.cases) (auto intro: consumer_view.intros)

lemma consumer_view_append:
  "consumer_view pc pr Q its False \<Longrightarrow> consumer_view pc pr (Q @ [x]) (its @ [x]) False"
  by (erule consumer_view.cases) (simp_all add: consumer_view.intros)

definition metrics_after :: "IngestEvent list \<Rightarrow> bytes list \<Rightarrow> TelemetryMetrics" where
  "metrics_after E pr = fold record_processed (map decoded pr) (fold record_ingest E new_metrics)"

lemma metrics_after_event:
  "record_ingest e (metrics_after E pr) = metrics_after (E @ [e]) pr"
  by (simp add: metrics_after_def host_metrics.left_after_rights)

lemma metrics_after_calls:
  "record_input (metrics_after E pr) = metrics_after (E @ [Ev_input]) pr"
  "record_accepted (metrics_after E pr) = metrics_after (E @ [Ev_accepted]) pr"
  "record_parse_rejected e (metrics_after E pr) = metrics_after (E @ [Ev_rejected e]) pr"
  by (simp_all flip: metrics_after_event)

lemma metrics_after_frame: "process (decoded q) (metrics_after E pr) = metrics_after E (pr @ [q])"
  by (simp add: metrics_after_def process_def)

lemma frames_accepted_processed [simp]:
  "frames_accepted' (record_processed f m) = frames_accepted' m"
  by (simp add: record_processed_def record_sequence_def record_flags_eq record_temperature_def
      record_supply_def Let_def)

lemma frames_accepted_fold [simp]:
  "frames_accepted' (fold record_processed fs m) = frames_accepted' m"
  by (induction fs arbitrary: m) simp_all

lemma accepted_count:
  "frames_accepted' (metrics_after (ingested d) pr) = of_nat (length (filter valid_frame d))"
proof -
  have "frames_accepted' (fold record_ingest (ingested d) m)
      = frames_accepted' m + of_nat (length (filter valid_frame d))" for m
    by (induction d rule: rev_induct)
      (auto simp: input_events_def ingest_defs Let_def split: ParseError.split)
  then show ?thesis by (simp add: metrics_after_def new_metrics_def)
qed

subsection \<open>The invariant\<close>

definition output_ok :: "'b host_state \<Rightarrow> bool" where
  "output_ok s \<longleftrightarrow> cerr s = [] \<and>
     (case main_at s of
        M_exit _ \<Rightarrow> cout s = make_text_report (snapshot (the_metrics s)) \<and> (\<exists>r. consumer_at s = C_done r)
      | _ \<Rightarrow> cout s = [])"

lemma output_ok_running:
  assumes "output_ok s" and "\<forall>r. consumer_at s \<noteq> C_done r"
    and "cerr t = cerr s" and "cout t = cout s" and "main_at t = main_at s"
  shows "output_ok t"
  using assms by (cases "main_at s") (simp_all add: output_ok_def)

fun main_weight :: "main_pc \<Rightarrow> nat" where
  "main_weight M_next = 4"
| "main_weight (M_input _) = 13"
| "main_weight (M_parse _) = 12"
| "main_weight (M_push _) = 11"
| "main_weight (M_pushed _) = 6"
| "main_weight (M_ingested _) = 5"
| "main_weight (M_catch _) = 2"
| "main_weight (M_catch_join _) = 1"
| "main_weight M_close = 3"
| "main_weight M_join = 2"
| "main_weight (M_exit _) = 0"

fun consumer_weight :: "consumer_pc \<Rightarrow> nat" where
  "consumer_weight (C_pop _) = 2"
| "consumer_weight (C_popped None _) = 1"
| "consumer_weight (C_popped (Some _) _) = 4"
| "consumer_weight (C_process _ _) = 3"
| "consumer_weight (C_done _) = 0"

context safe_buffer
begin

text \<open>A step of the consumer moves frames from the pushed ones to the processed ones.\<close>

lemma consumer_step_view:
  assumes cv: "consumer_view (consumer_at s) pr Q (items (the_buffer s)) (closed (the_buffer s))"
    and m: "the_metrics s = metrics_after E pr" and v: "valid (the_buffer s)"
    and valid_frames: "\<forall>q \<in> set Q. valid_frame q" and "consumer_step ops s = Some t"
  shows "(\<exists>pr' Q'. pr' @ Q' = pr @ Q
      \<and> consumer_view (consumer_at t) pr' Q' (items (the_buffer t)) (closed (the_buffer t))
      \<and> the_metrics t = metrics_after E pr' \<and> valid (the_buffer t)
      \<and> closed (the_buffer t) = closed (the_buffer s))
    \<and> main_at t = main_at s \<and> frames_left t = frames_left s \<and> cout t = cout s \<and> cerr t = cerr s
    \<and> ingestion_succeeded t = ingestion_succeeded s \<and> (\<forall>r. consumer_at s \<noteq> C_done r)"
proof -
  note step = assms(5) [unfolded consumer_step_def]
  have views: ?thesis
    if "pr' @ Q' = pr @ Q" and "the_metrics t = metrics_after E pr'" and "valid (the_buffer t)"
      and "closed (the_buffer t) = closed (the_buffer s)"
      and "consumer_view (consumer_at t) pr' Q' (items (the_buffer t)) (closed (the_buffer t))"
      and "main_at t = main_at s" "frames_left t = frames_left s" "cout t = cout s" "cerr t = cerr s"
        "ingestion_succeeded t = ingestion_succeeded s" "\<forall>r. consumer_at s \<noteq> C_done r" for pr' Q'
    using that by blast
  from cv show ?thesis
  proof (cases rule: consumer_view.cases)
    case at_pop
    show ?thesis
      using v refl
    proof (cases rule: pop_cases)
      case waits
      with step at_pop show ?thesis by simp
    next
      case (item q b')
      with step at_pop m v show ?thesis by (intro views [of pr Q]) (auto simp: consumer_view.intros)
    next
      case (drained b')
      with step at_pop m v show ?thesis by (intro views [of pr Q]) (auto simp: consumer_view.intros)
    qed
  next
    case (at_popped q)
    with step m v valid_frames show ?thesis
      by (intro views [of pr Q]) (auto simp: consumer_view.intros)
  next
    case at_empty
    with step m v show ?thesis by (intro views [of pr Q]) (auto simp: consumer_view.intros)
  next
    case (at_process q)
    with step m v consumer_view.at_pop [of "pr @ [q]" "items (the_buffer s)"] show ?thesis
      by (intro views [of "pr @ [q]" "items (the_buffer s)"]) (auto simp: metrics_after_frame add.commute)
  next
    case at_done
    with step show ?thesis by simp
  qed
qed

lemma consumer_stuck:
  assumes "valid (the_buffer s)" and "consumer_step ops s = None"
  shows "(\<not> closed (the_buffer s) \<and> items (the_buffer s) = []) \<or> (\<exists>r. consumer_at s = C_done r)"
  using assms(1) refl
  by (cases rule: pop_cases)
    (use assms(2) in \<open>auto simp: consumer_step_def split: consumer_pc.splits sum.splits\<close>)

end

text \<open>A run of the host program over a buffer that meets its contract.\<close>

locale host_run = safe_buffer ops items closed capacity valid
  for ops :: "'b buffer_ops" and items closed capacity valid +
  fixes b0 :: 'b and inputs :: "bytes list"
  assumes initial: "valid b0" "\<not> closed b0" "items b0 = []"
begin

text \<open>The events recorded, the frames processed and those on their way, and the state they explain.\<close>

definition host_at :: "'b host_state \<Rightarrow> IngestEvent list \<Rightarrow> bytes list \<Rightarrow> bytes list \<Rightarrow> bool" where
  "host_at s E pr Q \<longleftrightarrow>
     main_view inputs (main_at s) (frames_left s) E (pr @ Q) (closed (the_buffer s))
     \<and> consumer_view (consumer_at s) pr Q (items (the_buffer s)) (closed (the_buffer s))
     \<and> the_metrics s = metrics_after E pr \<and> valid (the_buffer s)
     \<and> ingestion_succeeded s \<and> output_ok s"

definition host_inv :: "'b host_state \<Rightarrow> bool" where
  "host_inv s \<longleftrightarrow> (\<exists>E pr Q. host_at s E pr Q)"

lemma host_invI:
  assumes "main_view inputs (main_at s) (frames_left s) E (pr @ Q) (closed (the_buffer s))"
    and "consumer_view (consumer_at s) pr Q (items (the_buffer s)) (closed (the_buffer s))"
    and "the_metrics s = metrics_after E pr" and "valid (the_buffer s)"
    and "ingestion_succeeded s" and "output_ok s"
  shows "host_inv s"
  using assms unfolding host_inv_def host_at_def by blast

lemma host_inv_start: "host_inv (host_start b0 inputs)"
proof (rule host_invI [where E = "[]" and pr = "[]" and Q = "[]"])
  show "main_view inputs (main_at (host_start b0 inputs)) (frames_left (host_start b0 inputs)) []
      ([] @ []) (closed (the_buffer (host_start b0 inputs)))"
    using at_next [of inputs "[]" inputs] initial by (simp add: host_start_def)
  show "consumer_view (consumer_at (host_start b0 inputs)) [] []
      (items (the_buffer (host_start b0 inputs))) (closed (the_buffer (host_start b0 inputs)))"
    using at_pop [of "[]"] initial by (simp add: host_start_def)
qed (use initial in \<open>simp_all add: host_start_def metrics_after_def output_ok_def\<close>)

text \<open>The steps of the main thread that judge an input, use the buffer or end the program.\<close>

lemma main_parses:
  assumes at: "host_at s E pr Q" and pc: "main_at s = M_parse bs" and step: "main_step ops s = Some t"
  shows "host_inv t"
proof -
  from at pc obtain d where view: "inputs = d @ bs # frames_left s" "E = ingested d @ [Ev_input]"
    "pr @ Q = filter valid_frame d" "\<not> closed (the_buffer s)"
    by (auto simp: host_at_def elim: main_view_cases)
  note at' = at [unfolded host_at_def]
  show ?thesis
  proof (cases "valid_frame bs")
    case True
    with at' pc step view show ?thesis
      by (intro host_invI [of t E pr Q])
        (auto simp: main_step_def output_ok_def ingest_parse_cases intro: main_view.intros)
  next
    case False
    have "main_view inputs (M_ingested r) (frames_left s) (ingested (d @ [bs]))
        (filter valid_frame (d @ [bs])) False" if "status r \<noteq> queue_closed" for r
      using view(1) that by (intro main_view.at_ingested) simp_all
    with False at' pc step view show ?thesis
      by (intro host_invI [of t "E @ [Ev_rejected (error (deserialize bs))]" pr Q])
        (auto simp: main_step_def output_ok_def ingest_parse_cases input_events_def metrics_after_calls)
  qed
qed

lemma main_pushes:
  assumes at: "host_at s E pr Q" and pc: "main_at s = M_push bs" and step: "main_step ops s = Some t"
  shows "host_inv t"
proof -
  from at pc obtain d where view: "inputs = d @ bs # frames_left s" "valid_frame bs"
    "E = ingested d @ [Ev_input]" "pr @ Q = filter valid_frame d" "\<not> closed (the_buffer s)"
    and v: "valid (the_buffer s)"
    by (auto simp: host_at_def elim: main_view_cases)
  note at' = at [unfolded host_at_def]
  show ?thesis
    using v refl
  proof (cases rule: push_cases [of _ bs])
    case waits
    with pc step show ?thesis by (simp add: main_step_def)
  next
    case (stored b')
    with at' pc step view main_view.at_pushed [OF view(1,2)] show ?thesis
      by (intro host_invI [of t E pr "Q @ [bs]"])
        (auto simp: main_step_def output_ok_def consumer_view_append simp flip: append_assoc)
  next
    case (refused b')
    with view(5) show ?thesis by simp
  qed
qed

lemma main_finishes:
  assumes at: "host_at s E pr Q" and pc: "main_at s = M_join" and step: "main_step ops s = Some t"
  shows "host_inv t"
proof -
  from pc step obtain r where r: "consumer_at s = C_done r" "t = finish_main r s"
    by (auto simp: main_step_def split: consumer_pc.splits)
  with at have fin: "r = \<lparr>success = True, frames_consumed = of_nat (length pr)\<rparr>" "Q = []"
    by (auto simp: host_at_def elim: consumer_view_cases)
  from at pc fin(2) have view: "frames_left s = []" "E = ingested inputs" "pr = filter valid_frame inputs"
    "closed (the_buffer s)"
    by (auto simp: host_at_def elim: main_view_cases)
  with at fin have "frames_consumed r = frames_accepted (snapshot (the_metrics s))"
    by (simp add: host_at_def snapshot_def accepted_count)
  with r fin at have "t = s\<lparr>cout := cout s @ make_text_report (snapshot (the_metrics s)), main_at := M_exit 0\<rparr>"
    by (simp add: finish_main_def Let_def host_at_def)
  with at [unfolded host_at_def] pc r(1) view fin(2) show ?thesis
    by (intro host_invI [of t E pr Q]) (auto simp: output_ok_def intro: main_view.intros)
qed

lemma main_step_inv:
  assumes "host_inv s" and step: "main_step ops s = Some t"
  shows "host_inv t"
proof -
  from assms(1) obtain E pr Q where at: "host_at s E pr Q" unfolding host_inv_def by blast
  then have mv: "main_view inputs (main_at s) (frames_left s) E (pr @ Q) (closed (the_buffer s))"
    and v: "valid (the_buffer s)" by (simp_all add: host_at_def)
  note at' = at [unfolded host_at_def] step [unfolded main_step_def]
  from mv show ?thesis
  proof (cases rule: main_view.cases)
    case (at_next d)
    with at' show ?thesis
      by (intro host_invI [of t E pr Q]) (auto simp: output_ok_def split: list.splits intro: main_view.intros)
  next
    case (at_input d bs)
    with at' show ?thesis
      by (intro host_invI [of t "E @ [Ev_input]" pr Q])
        (auto simp: output_ok_def metrics_after_calls intro: main_view.intros)
  next
    case (at_pushed d bs)
    have "main_view inputs (M_ingested r) (frames_left s) (ingested (d @ [bs]))
        (filter valid_frame (d @ [bs])) False" if "status r \<noteq> queue_closed" for r
      using at_pushed that by (intro main_view.at_ingested) simp_all
    with at_pushed at' show ?thesis
      by (intro host_invI [of t "E @ [Ev_accepted]" pr Q])
        (auto simp: output_ok_def ingest_finish_def input_events_def metrics_after_calls)
  next
    case (at_ingested d r)
    with at' show ?thesis
      by (intro host_invI [of t E pr Q]) (auto simp: output_ok_def intro: main_view.intros)
  next
    case at_close
    with at' close_closes [OF v] show ?thesis
      by (intro host_invI [of t E pr Q])
        (auto simp: output_ok_def intro: main_view.intros consumer_view_closed)
  next
    case (at_parse d bs)
    show ?thesis by (rule main_parses [OF at at_parse(1) step])
  next
    case (at_push d bs)
    show ?thesis by (rule main_pushes [OF at at_push(1) step])
  next
    case at_join
    show ?thesis by (rule main_finishes [OF at at_join(1) step])
  next
    case at_exit
    with step show ?thesis by (simp add: main_step_def)
  qed
qed

lemma consumer_step_inv:
  assumes "host_inv s" and "consumer_step ops s = Some t"
  shows "host_inv t"
proof -
  from assms(1) obtain E pr Q where
    mv: "main_view inputs (main_at s) (frames_left s) E (pr @ Q) (closed (the_buffer s))" and
    cv: "consumer_view (consumer_at s) pr Q (items (the_buffer s)) (closed (the_buffer s))" and
    m: "the_metrics s = metrics_after E pr" and v: "valid (the_buffer s)" and
    ok: "ingestion_succeeded s" "output_ok s"
    unfolding host_inv_def host_at_def by blast
  have "\<forall>q \<in> set Q. valid_frame q" using main_view_valid [OF mv] by simp
  from consumer_step_view [OF cv m v this assms(2)] obtain pr' Q' where
    t: "pr' @ Q' = pr @ Q" "consumer_view (consumer_at t) pr' Q' (items (the_buffer t)) (closed (the_buffer t))"
      "the_metrics t = metrics_after E pr'" "valid (the_buffer t)"
      "closed (the_buffer t) = closed (the_buffer s)"
    and same: "main_at t = main_at s" "frames_left t = frames_left s" "cout t = cout s" "cerr t = cerr s"
      "ingestion_succeeded t = ingestion_succeeded s" and "\<forall>r. consumer_at s \<noteq> C_done r"
    by blast
  then show ?thesis
    using mv ok by (intro host_invI [of t E pr' Q']) (auto intro: output_ok_running [of s])
qed

lemma host_step_inv: "host_inv s \<Longrightarrow> host_step ops s t \<Longrightarrow> host_inv t"
  by (erule host_stepE) (auto intro: main_step_inv consumer_step_inv)

definition host_bound :: "'b host_state \<Rightarrow> nat" where
  "host_bound s = 10 * length (frames_left s) + main_weight (main_at s)
     + 3 * length (items (the_buffer s)) + consumer_weight (consumer_at s)"

lemma main_step_decreases:
  assumes "valid (the_buffer s)" and "main_step ops s = Some t" and "\<forall>w. main_at s \<noteq> M_catch w"
  shows "host_bound t < host_bound s"
proof (cases "main_at s")
  case (M_push q)
  show ?thesis
    using assms(1) refl
    by (cases rule: push_cases [of _ q])
      (use assms(2) M_push in \<open>auto simp: main_step_def host_bound_def\<close>)
qed (use assms close_closes [OF assms(1)] in \<open>auto simp: main_step_def host_bound_def
    ingest_parse_cases ingest_finish_def finish_main_def Let_def
    split: list.splits if_splits consumer_pc.splits\<close>)

lemma consumer_step_decreases:
  assumes "valid (the_buffer s)" and "consumer_step ops s = Some t"
  shows "host_bound t < host_bound s"
proof (cases "consumer_at s")
  case (C_pop n)
  show ?thesis
    using assms(1) refl
    by (cases rule: pop_cases)
      (use assms(2) C_pop in \<open>auto simp: consumer_step_def host_bound_def\<close>)
next
  case (C_popped q n)
  with assms(2) show ?thesis
    by (cases q) (auto simp: consumer_step_def host_bound_def split: sum.splits)
qed (use assms(2) in \<open>auto simp: consumer_step_def host_bound_def\<close>)

lemma host_step_decreases:
  assumes "host_inv s" and "host_step ops s t"
  shows "host_bound t < host_bound s"
proof -
  have "\<forall>w. main_at s \<noteq> M_catch w"
    using assms(1) by (auto simp: host_inv_def host_at_def elim: main_view_cases)
  moreover have "valid (the_buffer s)" using assms(1) by (auto simp: host_inv_def host_at_def)
  ultimately show ?thesis
    using assms(2) main_step_decreases consumer_step_decreases by (auto simp: host_step_iff)
qed

lemma host_progress:
  assumes "host_inv s" and "\<not> (\<exists>c. main_at s = M_exit c)"
  shows "\<exists>t. host_step ops s t"
proof (rule ccontr)
  assume stuck: "\<nexists>t. host_step ops s t"
  from assms(1) obtain E pr Q where
    mv: "main_view inputs (main_at s) (frames_left s) E (pr @ Q) (closed (the_buffer s))" and
    cv: "consumer_view (consumer_at s) pr Q (items (the_buffer s)) (closed (the_buffer s))" and
    v: "valid (the_buffer s)"
    unfolding host_inv_def host_at_def by blast
  from stuck have m: "main_step ops s = None" and c: "consumer_step ops s = None"
    by (simp_all add: host_step_iff all_conj_distrib)
  have waits: "(\<not> closed (the_buffer s) \<and> items (the_buffer s) = []) \<or> (\<exists>r. consumer_at s = C_done r)"
    using consumer_stuck [OF v c] .
  from mv show False
  proof (cases rule: main_view.cases)
    case (at_push d bs)
    with m have "push ops bs (the_buffer s) = None"
      by (auto simp: main_step_def split: option.splits outcome.splits)
    with at_push v have "items (the_buffer s) \<noteq> []"
      using open_buffer.send_blocks_iff [of "the_buffer s" bs] buffer_capacity
      by (auto simp: buffer_send_def)
    with waits obtain r where "consumer_at s = C_done r" by auto
    with cv at_push show False by (auto elim: consumer_view_cases)
  next
    case at_join
    with waits obtain r where "consumer_at s = C_done r" by auto
    with m at_join show False by (simp add: main_step_def)
  qed (use m assms(2) in \<open>auto simp: main_step_def split: list.splits prod.splits sum.splits\<close>)
qed

end

sublocale host_run \<subseteq> run: step_system "host_step ops" "host_start b0 inputs" host_inv host_bound
    "\<lambda>s. \<exists>c. main_at s = M_exit c"
  by unfold_locales (auto intro: host_inv_start host_step_inv host_step_decreases dest: host_progress)

subsection \<open>The outcome of every schedule\<close>

definition final_metrics :: "bytes list \<Rightarrow> TelemetryMetrics" where
  "final_metrics inputs =
     fold record_processed (map decoded (filter valid_frame inputs))
       (fold record_ingest (ingested inputs) new_metrics)"

context host_run
begin

lemma exit_state:
  assumes "host_inv s" and "main_at s = M_exit c"
  shows "c = 0 \<and> the_metrics s = final_metrics inputs
    \<and> cout s = make_text_report (snapshot (final_metrics inputs)) \<and> cerr s = []
    \<and> items (the_buffer s) = []"
proof -
  from assms(1) obtain E pr Q where
    mv: "main_view inputs (main_at s) (frames_left s) E (pr @ Q) (closed (the_buffer s))" and
    cv: "consumer_view (consumer_at s) pr Q (items (the_buffer s)) (closed (the_buffer s))" and
    m: "the_metrics s = metrics_after E pr" and ok: "output_ok s"
    unfolding host_inv_def host_at_def by blast
  from ok assms(2) obtain r where r: "consumer_at s = C_done r" "cerr s = []"
      "cout s = make_text_report (snapshot (the_metrics s))"
    by (auto simp: output_ok_def)
  from cv r(1) have "Q = []" "items (the_buffer s) = []" by (auto elim: consumer_view_cases)
  with mv assms(2) have "c = 0" "E = ingested inputs" "pr = filter valid_frame inputs"
    by (auto elim: main_view_cases)
  with m r \<open>items (the_buffer s) = []\<close> show ?thesis
    by (simp add: metrics_after_def final_metrics_def)
qed

lemma every_run_ends:
  assumes "(host_step ops)\<^sup>*\<^sup>* (host_start b0 inputs) s"
  shows "(\<exists>t. host_step ops s t) \<or> (main_at s = M_exit 0 \<and> cerr s = []
    \<and> cout s = make_text_report (snapshot (final_metrics inputs)))"
proof (cases "\<exists>t. host_step ops s t")
  case False
  then obtain c where "main_at s = M_exit c" using run.stuck_is_final [OF assms] by auto
  with exit_state [OF run.reachable_inv [OF assms]] show ?thesis by simp
qed simp

lemma host_bound_start: "host_bound (host_start b0 inputs) = 10 * length inputs + 6"
  using initial by (simp add: host_bound_def host_start_def)

lemma every_run_is_short:
  assumes "(host_step ops ^^ n) (host_start b0 inputs) s"
  shows "n \<le> 10 * length inputs + 6 \<and> (\<exists>t. (host_step ops)\<^sup>*\<^sup>* s t \<and> main_at t = M_exit 0)"
proof
  show "n \<le> 10 * length inputs + 6"
    using run.run_bounded [OF assms] by (simp add: host_bound_start)
  have "(host_step ops)\<^sup>*\<^sup>* (host_start b0 inputs) s"
    using assms by (rule relpowp_imp_rtranclp)
  then show "\<exists>t. (host_step ops)\<^sup>*\<^sup>* s t \<and> main_at t = M_exit 0"
    using run.reaches_final run.reachable_inv exit_state by blast
qed

lemma queue_is_valid:
  assumes "(host_step ops)\<^sup>*\<^sup>* (host_start b0 inputs) s"
  shows "list_all valid_frame (items (the_buffer s)) \<and> (\<forall>r. consumer_at s = C_done r \<longrightarrow> success r)"
proof -
  from run.reachable_inv [OF assms] obtain E pr Q where
    mv: "main_view inputs (main_at s) (frames_left s) E (pr @ Q) (closed (the_buffer s))" and
    cv: "consumer_view (consumer_at s) pr Q (items (the_buffer s)) (closed (the_buffer s))"
    unfolding host_inv_def host_at_def by blast
  from cv main_view_valid [OF mv] show ?thesis
    by (cases rule: consumer_view.cases) (auto simp: list_all_iff)
qed

end

lemma host_runI:
  assumes "safe_buffer ops items closed capacity valid" and "valid b0" and "\<not> closed b0" and "items b0 = []"
  shows "host_run ops items closed capacity valid b0"
  using assms by (simp add: host_run_def host_run_axioms_def)

interpretation demo_run: host_run "list_buffer_ops queue_capacity" stored is_closed queue_capacity
    "\<lambda>_. True" empty_list_buffer inputs for inputs
  by (rule host_runI [OF list_buffer_meets_contract])
    (simp_all add: queue_capacity_def empty_list_buffer_def)

subsection \<open>The steps of a thread are its function\<close>

text \<open>Running one thread alone: the steps of \<open>ingest\<close> and of \<open>consume_queued_frames\<close>.\<close>

abbreviation main_runs :: "'b buffer_ops \<Rightarrow> 'b host_state \<Rightarrow> 'b host_state \<Rightarrow> bool" where
  "main_runs ops \<equiv> (\<lambda>s t. main_step ops s = Some t)\<^sup>*\<^sup>*"

abbreviation consumer_runs :: "'b buffer_ops \<Rightarrow> 'b host_state \<Rightarrow> 'b host_state \<Rightarrow> bool" where
  "consumer_runs ops \<equiv> (\<lambda>s t. consumer_step ops s = Some t)\<^sup>*\<^sup>*"

lemma main_runs_first: "main_step ops s = Some u \<Longrightarrow> main_runs ops u t \<Longrightarrow> main_runs ops s t"
  by (rule converse_rtranclp_into_rtranclp)

lemma consumer_runs_first:
  "consumer_step ops s = Some u \<Longrightarrow> consumer_runs ops u t \<Longrightarrow> consumer_runs ops s t"
  by (rule converse_rtranclp_into_rtranclp)

lemma ingest_runs:
  assumes "main_at s = M_input bs"
  shows "case ingest ops bs (the_buffer s) (the_metrics s) of
      Some (Returns r, b, m) \<Rightarrow>
        main_runs ops s (s\<lparr>the_buffer := b, the_metrics := m, main_at := M_ingested r\<rparr>)
    | Some (Raises w, b, m) \<Rightarrow>
        main_runs ops s (s\<lparr>the_buffer := b, the_metrics := m, main_at := M_catch w\<rparr>)
    | None \<Rightarrow> \<exists>t. main_runs ops s t \<and> main_at t = M_push bs \<and> main_step ops t = None"
proof -
  let ?m = "record_input (the_metrics s)"
  let ?s1 = "s\<lparr>the_metrics := ?m, main_at := M_parse bs\<rparr>"
  have s1: "main_step ops s = Some ?s1" using assms by (simp add: main_step_def)
  show ?thesis
  proof (cases "valid_frame bs")
    case False
    let ?r = "\<lparr>status = parse_rejected, parse_error = error (deserialize bs)\<rparr>"
    have "main_step ops ?s1 = Some (s\<lparr>the_metrics := record_parse_rejected (error (deserialize bs)) ?m,
        main_at := M_ingested ?r\<rparr>)"
      using False by (simp add: main_step_def ingest_parse_cases)
    from main_runs_first [OF s1 r_into_rtranclp, OF this] False show ?thesis
      by (simp add: ingest_def ingest_parse_cases Let_def)
  next
    case True
    let ?s2 = "s\<lparr>the_metrics := ?m, main_at := M_push bs\<rparr>"
    have s2: "main_step ops ?s1 = Some ?s2"
      using True by (simp add: main_step_def ingest_parse_cases)
    have reach: "main_runs ops s ?s2" by (rule main_runs_first [OF s1 r_into_rtranclp]) (rule s2)
    show ?thesis
    proof (cases "push ops bs (the_buffer s)")
      case None
      then have "main_step ops ?s2 = None" by (simp add: main_step_def)
      with reach None True show ?thesis
        by (auto simp: ingest_def ingest_parse_cases Let_def intro!: exI [of _ ?s2])
    next
      case (Some rb)
      obtain res b where rb: "rb = (res, b)" by (cases rb)
      show ?thesis
      proof (cases res)
        case (Raises w)
        then have "main_step ops ?s2 = Some (s\<lparr>the_buffer := b, the_metrics := ?m, main_at := M_catch w\<rparr>)"
          using Some rb by (simp add: main_step_def)
        with reach have "main_runs ops s (s\<lparr>the_buffer := b, the_metrics := ?m, main_at := M_catch w\<rparr>)"
          by (rule rtranclp.rtrancl_into_rtrancl)
        with Some rb Raises True show ?thesis
          by (simp add: ingest_def ingest_parse_cases Let_def)
      next
        case (Returns ok)
        let ?s3 = "s\<lparr>the_buffer := b, the_metrics := ?m, main_at := M_pushed ok\<rparr>"
        have "main_step ops ?s2 = Some ?s3" using Some rb Returns by (simp add: main_step_def)
        with reach have "main_runs ops s ?s3" by (rule rtranclp.rtrancl_into_rtrancl)
        moreover have "main_step ops ?s3 = Some (s\<lparr>the_buffer := b,
            the_metrics := snd (ingest_finish ok ?m), main_at := M_ingested (fst (ingest_finish ok ?m))\<rparr>)"
          by (simp add: main_step_def split: prod.splits)
        ultimately have "main_runs ops s (s\<lparr>the_buffer := b,
            the_metrics := snd (ingest_finish ok ?m), main_at := M_ingested (fst (ingest_finish ok ?m))\<rparr>)"
          by (rule rtranclp.rtrancl_into_rtrancl)
        with Some rb Returns True show ?thesis
          by (auto simp: ingest_def ingest_parse_cases Let_def split: prod.splits)
      qed
    qed
  qed
qed

lemma consume_runs:
  assumes "consume_loop ops b m n = Some rbm"
    and "consumer_at s = C_pop n" and "the_buffer s = b" and "the_metrics s = m"
  shows "consumer_runs ops s (s\<lparr>the_buffer := fst (snd rbm), the_metrics := snd (snd rbm),
    consumer_at := C_done (fst rbm)\<rparr>)"
  using assms(2-4)
proof (induction ops b m n rbm arbitrary: s rule: consume_loop.raw_induct)
  case (1 loop ops b m n rbm)
  obtain res b' where pop: "pop ops b = Some (res, b')"
    using 1(2) by (cases "pop ops b") auto
  show ?case
  proof (cases res)
    case (Raises w)
    with 1 pop show ?thesis by (auto simp: consumer_step_def intro!: r_into_rtranclp)
  next
    case (Returns queued)
    let ?s1 = "s\<lparr>the_buffer := b', consumer_at := C_popped queued n\<rparr>"
    have s1: "consumer_step ops s = Some ?s1" using 1 pop Returns by (simp add: consumer_step_def)
    show ?thesis
    proof (cases "consume_check queued n")
      case (Inl r)
      then have "consumer_step ops ?s1 = Some (?s1\<lparr>consumer_at := C_done r\<rparr>)"
        by (simp add: consumer_step_def)
      with 1(2-) pop Returns Inl show ?thesis
        by (auto intro!: consumer_runs_first [OF s1 r_into_rtranclp])
    next
      case (Inr f)
      let ?s2 = "?s1\<lparr>consumer_at := C_process f n\<rparr>"
      let ?s3 = "?s2\<lparr>the_metrics := process f m, consumer_at := C_pop (n + 1)\<rparr>"
      have s2: "consumer_step ops ?s1 = Some ?s2" using Inr by (simp add: consumer_step_def)
      have s3: "consumer_step ops ?s2 = Some ?s3" using 1(2-) by (simp add: consumer_step_def)
      have "loop ops b' (process f m) (n + 1) = Some rbm"
        using 1(2) pop Returns Inr by simp
      from 1(1) [OF this, of ?s3] show ?thesis
        by (auto intro!: consumer_runs_first [OF s1] consumer_runs_first [OF s2]
            consumer_runs_first [OF s3])
    qed
  qed
qed (rule assms(1))

subsection \<open>Properties\<close>

text \<open>C2: every schedule of the host program ends well: for any input list and any buffer that
  meets its documented contract, a reachable state either has a next step or is the exit with
  code 0, an empty error stream, and the report of the metrics of the sequential run: all inputs
  recorded, every valid frame processed once, in input order.\<close>

theorem host_every_schedule:
  assumes "safe_buffer ops items closed capacity valid" and "valid b0" and "\<not> closed b0"
    and "items b0 = []" and "(host_step ops)\<^sup>*\<^sup>* (host_start b0 inputs) s"
  shows "(\<exists>t. host_step ops s t) \<or> (main_at s = M_exit 0 \<and> cerr s = []
    \<and> cout s = make_text_report (snapshot (fold record_processed (map decoded (filter valid_frame inputs))
        (fold record_ingest (ingested inputs) new_metrics))))"
  using host_run.every_run_ends [OF host_runI [OF assms(1-4)] assms(5)]
  by (simp add: final_metrics_def)

theorem host_every_schedule_witness:
  "\<exists>s. (host_step (list_buffer_ops queue_capacity))\<^sup>*\<^sup>* (host_start empty_list_buffer [[1], frame_layout default_frame]) s
    \<and> main_at s = M_exit 0 \<and> cerr s = []
    \<and> cout s = make_text_report (snapshot (fold record_processed (map decoded (filter valid_frame [[1], frame_layout default_frame]))
        (fold record_ingest (ingested [[1], frame_layout default_frame]) new_metrics)))"
proof -
  obtain s where s: "(host_step (list_buffer_ops queue_capacity))\<^sup>*\<^sup>* (host_start empty_list_buffer [[1], frame_layout default_frame]) s"
    "\<nexists>t. host_step (list_buffer_ops queue_capacity) s t"
    using demo_run.run.reaches_stuck [of "[[1], frame_layout default_frame]", OF rtranclp.rtrancl_refl] by auto
  have "safe_buffer (list_buffer_ops queue_capacity) stored is_closed queue_capacity (\<lambda>_. True)"
    by (rule list_buffer_meets_contract) (simp add: queue_capacity_def)
  from host_every_schedule [OF this TrueI _ _ s(1)] s show ?thesis
    by (auto simp: empty_list_buffer_def)
qed

text \<open>C18: the host program terminates: no schedule makes more than \<open>10 * n + 6\<close> steps for \<open>n\<close>
  inputs, and from every state of a run the exit can be reached.\<close>

theorem host_terminates:
  assumes "safe_buffer ops items closed capacity valid" and "valid b0" and "\<not> closed b0"
    and "items b0 = []" and "(host_step ops ^^ n) (host_start b0 inputs) s"
  shows "n \<le> 10 * length inputs + 6 \<and> (\<exists>t. (host_step ops)\<^sup>*\<^sup>* s t \<and> main_at t = M_exit 0)"
  using host_run.every_run_is_short [OF host_runI [OF assms(1-4)] assms(5)] .

theorem host_terminates_witness:
  "(0 :: nat) \<le> 10 * length [[1], [2 :: u8]] + 6
    \<and> (\<exists>t. (host_step (list_buffer_ops queue_capacity))\<^sup>*\<^sup>* (host_start empty_list_buffer [[1], [2]]) t
        \<and> main_at t = M_exit 0)"
  by (rule host_terminates [OF list_buffer_meets_contract, where ?b0.0 = empty_list_buffer])
    (simp_all add: queue_capacity_def empty_list_buffer_def)

text \<open>Only validated frames are in the queue, in every state of every run.\<close>

theorem host_queue_holds_valid_frames:
  assumes "safe_buffer ops items closed capacity valid" and "valid b0" and "\<not> closed b0"
    and "items b0 = []" and "(host_step ops)\<^sup>*\<^sup>* (host_start b0 inputs) s"
  shows "list_all valid_frame (items (the_buffer s)) \<and> (\<forall>r. consumer_at s = C_done r \<longrightarrow> success r)"
  using host_run.queue_is_valid [OF host_runI [OF assms(1-4)] assms(5)] .

theorem host_queue_holds_valid_frames_witness:
  "list_all valid_frame (stored (the_buffer (host_start empty_list_buffer [[1]])))
    \<and> consumer_at (host_start empty_list_buffer [[1]]) = C_pop 0"
  using host_queue_holds_valid_frames [OF list_buffer_meets_contract [of queue_capacity] TrueI,
      of empty_list_buffer "[[1]]" "host_start empty_list_buffer [[1]]"]
  by (simp add: queue_capacity_def empty_list_buffer_def host_start_def)

text \<open>The steps of the main thread between entering and leaving \<open>ingest\<close> are the function
  \<open>ingest\<close>: run alone, the thread reaches the result of the function, or the handler with its
  exception, or waits in \<^verbatim>\<open>push\<close> exactly when the function has no result.\<close>

theorem ingest_steps_are_ingest:
  assumes "main_at s = M_input bs"
  shows "case ingest ops bs (the_buffer s) (the_metrics s) of
      Some (Returns r, b, m) \<Rightarrow> (\<lambda>s t. main_step ops s = Some t)\<^sup>*\<^sup>* s
          (s\<lparr>the_buffer := b, the_metrics := m, main_at := M_ingested r\<rparr>)
    | Some (Raises w, b, m) \<Rightarrow> (\<lambda>s t. main_step ops s = Some t)\<^sup>*\<^sup>* s
          (s\<lparr>the_buffer := b, the_metrics := m, main_at := M_catch w\<rparr>)
    | None \<Rightarrow> \<exists>t. (\<lambda>s t. main_step ops s = Some t)\<^sup>*\<^sup>* s t
          \<and> main_at t = M_push bs \<and> main_step ops t = None"
  by (rule ingest_runs [OF assms])

theorem ingest_steps_are_ingest_witness:
  "case ingest (list_buffer_ops 0) [1] empty_list_buffer new_metrics of
      Some (Returns r, b, m) \<Rightarrow> (\<lambda>s t. main_step (list_buffer_ops 0) s = Some t)\<^sup>*\<^sup>*
          ((host_start empty_list_buffer [])\<lparr>main_at := M_input [1]\<rparr>)
          ((host_start empty_list_buffer [])\<lparr>main_at := M_input [1], the_buffer := b, the_metrics := m,
            main_at := M_ingested r\<rparr>)
    | Some (Raises w, b, m) \<Rightarrow> False
    | None \<Rightarrow> False"
proof -
  have "\<not> valid_frame [1]" using valid_frame_length [of "[1]"] by (auto simp: frame_size_eq)
  then show ?thesis
    using ingest_steps_are_ingest [of "(host_start empty_list_buffer [])\<lparr>main_at := M_input [1]\<rparr>" "[1]"
        "list_buffer_ops 0"]
    by (simp add: ingest_rejects host_start_def)
qed

text \<open>The steps of the consumer thread are the function \<open>consume_queued_frames\<close>: if the
  function returns, the thread run alone reaches its end with that result.\<close>

theorem consumer_steps_are_consume:
  assumes "consume_queued_frames ops (the_buffer s) (the_metrics s) = Some (r, b, m)"
    and "consumer_at s = C_pop 0"
  shows "(\<lambda>s t. consumer_step ops s = Some t)\<^sup>*\<^sup>* s
    (s\<lparr>the_buffer := b, the_metrics := m, consumer_at := C_done r\<rparr>)"
  using consume_runs [OF assms(1) [unfolded consume_queued_frames_def] assms(2) refl refl] by simp

theorem consumer_steps_are_consume_witness:
  "(\<lambda>s t. consumer_step (list_buffer_ops 1) s = Some t)\<^sup>*\<^sup>*
    (host_start \<lparr>stored = [], is_closed = True\<rparr> [])
    ((host_start \<lparr>stored = [], is_closed = True\<rparr> [])\<lparr>consumer_at :=
      C_done \<lparr>success = True, frames_consumed = 0\<rparr>\<rparr>)"
proof -
  have "consume_queued_frames (list_buffer_ops 1) \<lparr>stored = [], is_closed = True\<rparr> new_metrics
      = Some (\<lparr>success = True, frames_consumed = 0\<rparr>, \<lparr>stored = [], is_closed = True\<rparr>, new_metrics)"
    unfolding consume_queued_frames_def by (subst consume_loop.simps) (simp add: list_buffer_ops_def)
  then show ?thesis
    using consumer_steps_are_consume [of "list_buffer_ops 1" "host_start \<lparr>stored = [], is_closed = True\<rparr> []"]
    by (simp add: host_start_def)
qed

end
