(* ===== verification/Host_Robustness.thy ===== *)
theory Host_Robustness
  imports Host_Main
begin

text \<open>
  The host program when the external buffer does not behave. First, nothing at all is assumed of
  the buffer: whatever its operations return, exit code 0 means that every input was ingested and
  every accepted frame processed. Second, a buffer whose \<^verbatim>\<open>pop\<close> may throw at any call, the locale
  \<open>raising_run\<close>: the consumer then returns with a failure and nothing closes the buffer, so that
  the main thread either pushes what is left, closes and reports the failure, or fills the buffer
  and waits in \<^verbatim>\<open>push\<close> for ever, depending on how many valid frames are left. The run is a
  \<open>step_system\<close> whose final states are the exits and the states \<open>hung\<close>.
\<close>

subsection \<open>Any buffer\<close>

definition on_track :: "'b host_state \<Rightarrow> bool" where
  "on_track s \<longleftrightarrow> ingestion_succeeded s \<and> (case main_at s of
      M_pushed ok \<Rightarrow> ok
    | M_ingested r \<Rightarrow> status r \<noteq> queue_closed
    | M_catch _ \<Rightarrow> False
    | M_catch_join _ \<Rightarrow> False
    | M_exit c \<Rightarrow> c = 0
    | _ \<Rightarrow> True)"

fun consumed_by :: "consumer_pc \<Rightarrow> u64" where
  "consumed_by (C_pop n) = n"
| "consumed_by (C_popped q n) = n"
| "consumed_by (C_process f n) = n"
| "consumed_by (C_done r) = frames_consumed r"

definition exit_ok :: "'b host_state \<Rightarrow> bool" where
  "exit_ok s \<longleftrightarrow> (case main_at s of
      M_exit c \<Rightarrow> (\<exists>r. consumer_at s = C_done r) \<and> (c = 0 \<longrightarrow> ingestion_succeeded s \<and> cerr s = []
        \<and> consumed_by (consumer_at s) = frames_accepted' (the_metrics s)
        \<and> cout s = make_text_report (snapshot (the_metrics s)))
    | _ \<Rightarrow> cout s = [] \<and> cerr s = [])"

definition tracked :: "bytes list \<Rightarrow> main_pc \<Rightarrow> bytes list \<Rightarrow> IngestEvent list \<Rightarrow> bool" where
  "tracked inputs pc rest E \<longleftrightarrow> (\<exists>P c. main_view inputs pc rest E P c)"

lemma trackedI: "main_view inputs pc rest E P c \<Longrightarrow> tracked inputs pc rest E"
  by (auto simp: tracked_def)

lemma trackedE:
  assumes "tracked inputs pc rest E"
  obtains P c where "main_view inputs pc rest E P c"
  using assms by (auto simp: tracked_def)

lemmas tracked_intros = main_view.intros [THEN trackedI]

lemma tracked_ends [simp]:
  "tracked inputs M_close [] (ingested inputs)" "tracked inputs M_join [] (ingested inputs)"
  "tracked inputs (M_exit 0) [] (ingested inputs)"
  by (rule tracked_intros)+

definition robust_inv :: "bytes list \<Rightarrow> 'b host_state \<Rightarrow> bool" where
  "robust_inv inputs s \<longleftrightarrow> exit_ok s \<and> (\<exists>E fs.
     the_metrics s = fold record_processed fs (fold record_ingest E new_metrics)
     \<and> consumed_by (consumer_at s) = of_nat (length fs)
     \<and> (on_track s \<longrightarrow> tracked inputs (main_at s) (frames_left s) E))"

lemma record_calls:
  "record_input m = record_ingest Ev_input m"
  "record_accepted m = record_ingest Ev_accepted m"
  "record_parse_rejected e m = record_ingest (Ev_rejected e) m"
  "record_queue_closed m = record_ingest Ev_queue_closed m"
  by simp_all

lemma robust_event:
  "record_ingest e (fold record_processed fs (fold record_ingest E m))
    = fold record_processed fs (fold record_ingest (E @ [e]) m)"
  by (simp add: host_metrics.left_after_rights)

lemma robust_invI:
  assumes "exit_ok s" and "the_metrics s = fold record_processed fs (fold record_ingest E new_metrics)"
    and "consumed_by (consumer_at s) = of_nat (length fs)"
    and "on_track s \<Longrightarrow> tracked inputs (main_at s) (frames_left s) E"
  shows "robust_inv inputs s"
  using assms unfolding robust_inv_def by blast

lemma robust_start: "robust_inv inputs (host_start b inputs)"
  using trackedI [OF main_view.at_next [of inputs "[]" inputs]]
  by (intro robust_invI [where fs = "[]" and E = "[]"])
    (auto simp: exit_ok_def host_start_def)

lemma view_rejected:
  "inputs = d @ bs # rest \<Longrightarrow> \<not> valid_frame bs \<Longrightarrow> status r \<noteq> queue_closed \<Longrightarrow>
    main_view inputs (M_ingested r) rest (ingested d @ [Ev_input, Ev_rejected (error (deserialize bs))])
      (filter valid_frame d) False"
  using main_view.at_ingested [of inputs "d @ [bs]" rest r] by (simp add: input_events_def)

lemma view_accepted:
  "inputs = d @ bs # rest \<Longrightarrow> valid_frame bs \<Longrightarrow> status r \<noteq> queue_closed \<Longrightarrow>
    main_view inputs (M_ingested r) rest (ingested d @ [Ev_input, Ev_accepted])
      (filter valid_frame d @ [bs]) False"
  using main_view.at_ingested [of inputs "d @ [bs]" rest r] by (simp add: input_events_def)

text \<open>The steps of the main thread that record the answer of the decoder or of \<^verbatim>\<open>push\<close>.\<close>

lemma robust_parse:
  assumes ok: "exit_ok s" and m: "the_metrics s = fold record_processed fs (fold record_ingest E new_metrics)"
    and n: "consumed_by (consumer_at s) = of_nat (length fs)"
    and tr: "on_track s \<Longrightarrow> tracked inputs (main_at s) (frames_left s) E"
    and pc: "main_at s = M_parse bs" and step: "main_step ops s = Some t"
  shows "robust_inv inputs t"
proof -
  have view: "on_track s \<Longrightarrow> \<exists>d. inputs = d @ bs # frames_left s \<and> E = ingested d @ [Ev_input]"
    using tr pc by (auto elim!: trackedE main_view_cases)
  show ?thesis
  proof (cases "valid_frame bs")
    case True
    with step pc have "t = s\<lparr>main_at := M_push bs\<rparr>" by (simp add: main_step_def ingest_parse_cases)
    with True ok m n pc view show ?thesis
      by (intro robust_invI [of t fs E]) (auto simp: exit_ok_def on_track_def intro: tracked_intros)
  next
    case False
    with step pc have "t = s\<lparr>the_metrics := record_ingest (Ev_rejected (error (deserialize bs))) (the_metrics s),
        main_at := M_ingested \<lparr>status = parse_rejected, parse_error = error (deserialize bs)\<rparr>\<rparr>"
      by (simp add: main_step_def ingest_parse_cases)
    with False ok m n pc view show ?thesis
      by (intro robust_invI [of t fs "E @ [Ev_rejected (error (deserialize bs))]"])
        (auto simp: exit_ok_def on_track_def robust_event simp del: record_ingest.simps
          intro!: view_rejected [THEN trackedI])
  qed
qed

lemma robust_pushed:
  assumes ok: "exit_ok s" and m: "the_metrics s = fold record_processed fs (fold record_ingest E new_metrics)"
    and n: "consumed_by (consumer_at s) = of_nat (length fs)"
    and tr: "on_track s \<Longrightarrow> tracked inputs (main_at s) (frames_left s) E"
    and pc: "main_at s = M_pushed pushed" and step: "main_step ops s = Some t"
  shows "robust_inv inputs t"
proof (cases pushed)
  case True
  with step pc have "t = s\<lparr>the_metrics := record_ingest Ev_accepted (the_metrics s),
      main_at := M_ingested \<lparr>status = accepted, parse_error = PE_none\<rparr>\<rparr>"
    by (simp add: main_step_def ingest_finish_def)
  with True ok m n pc tr show ?thesis
    by (intro robust_invI [of t fs "E @ [Ev_accepted]"])
      (auto simp: exit_ok_def on_track_def robust_event simp del: record_ingest.simps
        elim!: trackedE main_view_cases intro!: view_accepted [THEN trackedI])
next
  case False
  with step pc have "t = s\<lparr>the_metrics := record_ingest Ev_queue_closed (the_metrics s),
      main_at := M_ingested \<lparr>status = queue_closed, parse_error = PE_none\<rparr>\<rparr>"
    by (simp add: main_step_def ingest_finish_def)
  with False ok m n pc show ?thesis
    by (intro robust_invI [of t fs "E @ [Ev_queue_closed]"])
      (auto simp: exit_ok_def on_track_def robust_event simp del: record_ingest.simps)
qed

lemma robust_main:
  assumes "robust_inv inputs s" and step: "main_step ops s = Some t"
  shows "robust_inv inputs t"
proof -
  from assms(1) obtain E fs where at: "exit_ok s"
    "the_metrics s = fold record_processed fs (fold record_ingest E new_metrics)"
    "consumed_by (consumer_at s) = of_nat (length fs)"
    "on_track s \<Longrightarrow> tracked inputs (main_at s) (frames_left s) E"
    unfolding robust_inv_def by blast
  note step' = step [unfolded main_step_def]
  show ?thesis
  proof (cases "main_at s")
    case (M_input bs)
    with step' at show ?thesis
      by (intro robust_invI [of t fs "E @ [Ev_input]"])
        (auto simp: exit_ok_def on_track_def record_calls robust_event
          elim!: trackedE main_view_cases intro: tracked_intros simp del: record_ingest.simps)
  next
    case (M_parse bs)
    from robust_parse [OF at this step] show ?thesis .
  next
    case (M_pushed pushed)
    from robust_pushed [OF at this step] show ?thesis .
  next
    case (M_push q)
    with step' at show ?thesis
      by (intro robust_invI [of t fs E])
        (auto simp: exit_ok_def on_track_def split: option.splits outcome.splits
          elim!: trackedE main_view_cases intro!: tracked_intros(5))
  next
    case (M_catch_join w)
    with step' at show ?thesis
      by (intro robust_invI [of t fs E])
        (auto simp: exit_ok_def on_track_def split: consumer_pc.splits)
  next
    case M_join
    with step' at show ?thesis
      by (intro robust_invI [of t fs E])
        (auto simp: exit_ok_def on_track_def finish_main_def Let_def snapshot_def
          split: consumer_pc.splits if_splits elim!: trackedE main_view_cases intro: tracked_intros)
  qed (use step' at in \<open>(intro robust_invI [of t fs E]; auto simp: exit_ok_def on_track_def
      split: list.splits if_splits elim!: trackedE main_view_cases intro: tracked_intros)+\<close>)
qed

lemma robust_consumer:
  assumes "robust_inv inputs s" and "consumer_step ops s = Some t"
  shows "robust_inv inputs t"
proof -
  from assms(1) obtain E fs where ok: "exit_ok s"
    and m: "the_metrics s = fold record_processed fs (fold record_ingest E new_metrics)"
    and n: "consumed_by (consumer_at s) = of_nat (length fs)"
    and tr: "on_track s \<Longrightarrow> tracked inputs (main_at s) (frames_left s) E"
    unfolding robust_inv_def by blast
  have same: "main_at t = main_at s" "frames_left t = frames_left s" "cout t = cout s"
    "cerr t = cerr s" "ingestion_succeeded t = ingestion_succeeded s"
    using assms(2)
    by (auto simp: consumer_step_def split: consumer_pc.splits option.splits outcome.splits sum.splits)
  have "\<not> (\<exists>r. consumer_at s = C_done r)" using assms(2) by (auto simp: consumer_step_def)
  then have ok': "exit_ok t" using ok same by (cases "main_at s") (auto simp: exit_ok_def)
  have tr': "on_track t \<Longrightarrow> tracked inputs (main_at t) (frames_left t) E"
    using tr same by (simp add: on_track_def)
  obtain fs' where "the_metrics t = fold record_processed fs' (fold record_ingest E new_metrics)"
    "consumed_by (consumer_at t) = of_nat (length fs')"
  proof (cases "consumer_at s")
    case (C_process f k)
    with assms(2) m n show ?thesis
      by (intro that [of "fs @ [f]"]) (auto simp: consumer_step_def process_def)
  next
    case (C_pop k)
    with assms(2) m n show ?thesis
      by (intro that [of fs]) (auto simp: consumer_step_def split: option.splits outcome.splits)
  next
    case (C_popped q k)
    with assms(2) m n show ?thesis
      by (intro that [of fs]) (auto simp: consumer_step_def consume_check_def Let_def
          split: option.splits if_splits)
  next
    case (C_done r)
    with assms(2) show ?thesis by (simp add: consumer_step_def)
  qed
  with ok' tr' show ?thesis by (intro robust_invI)
qed

lemma robust_steps:
  assumes "(host_step ops)\<^sup>*\<^sup>* (host_start b inputs) s"
  shows "robust_inv inputs s"
  using assms
  by (induction rule: rtranclp_induct)
    (auto intro: robust_start dest: robust_main robust_consumer)

lemma processed_count:
  "frames_processed' (fold record_processed fs m) = frames_processed' m + of_nat (length fs)"
proof (induction fs arbitrary: m)
  case (Cons f fs)
  have "frames_processed' (record_processed f m) = frames_processed' m + 1"
    by (simp add: record_processed_def record_sequence_def record_flags_eq record_temperature_def
        record_supply_def Let_def)
  with Cons show ?case by (simp add: algebra_simps)
qed simp

lemma input_count:
  "inputs_received' (fold record_processed fs (fold record_ingest (ingested d) m))
    = inputs_received' m + of_nat (length d)"
proof -
  have "inputs_received' (record_processed f m) = inputs_received' m" for f m
    by (simp add: record_processed_def record_sequence_def record_flags_eq record_temperature_def
        record_supply_def Let_def)
  then have "inputs_received' (fold record_processed fs m) = inputs_received' m" for m
    by (induction fs arbitrary: m) simp_all
  moreover have "inputs_received' (fold record_ingest (ingested d) m)
      = inputs_received' m + of_nat (length d)"
    by (induction d rule: rev_induct)
      (auto simp: input_events_def ingest_defs Let_def split: ParseError.split)
  ultimately show ?thesis by simp
qed

lemma processed_untouched: "frames_processed' (fold record_ingest E m) = frames_processed' m"
proof (induction E arbitrary: m)
  case (Cons e E)
  have "frames_processed' (record_ingest e m) = frames_processed' m"
    by (cases e) (auto simp: ingest_defs Let_def split: ParseError.split)
  with Cons show ?case by simp
qed simp

subsection \<open>A consumer that fails\<close>

definition operational_failure :: string where
  "operational_failure = ''Telemetry host pipeline failed operationally'' @ [newline]"

text \<open>A consumer whose \<^verbatim>\<open>pop\<close> raised: what it had not taken stays in the buffer.\<close>

inductive failing_view ::
    "consumer_pc \<Rightarrow> bytes list \<Rightarrow> bytes list \<Rightarrow> bytes list \<Rightarrow> bool \<Rightarrow> bool" where
  goes_on: "consumer_view pc pr Q its c \<Longrightarrow> failing_view pc pr Q its c"
| has_failed: "failing_view (C_done \<lparr>success = False, frames_consumed = of_nat (length pr)\<rparr>) pr its its c"

text \<open>The main thread as in a run without failures, up to its exit code.\<close>

inductive failed_main_view ::
    "bytes list \<Rightarrow> main_pc \<Rightarrow> bytes list \<Rightarrow> IngestEvent list \<Rightarrow> bytes list \<Rightarrow> bool \<Rightarrow> bool"
  for inputs where
  runs: "main_view inputs pc rest E P c \<Longrightarrow> failed_main_view inputs pc rest E P c"
| reports: "failed_main_view inputs (M_exit 1) [] (ingested inputs) (filter valid_frame inputs) True"

inductive_cases failed_main_view_cases:
  "failed_main_view inputs M_next rest E P c" "failed_main_view inputs (M_exit n) rest E P c"

lemma failed_main_view_valid:
  "failed_main_view inputs pc rest E P c \<Longrightarrow> \<forall>q \<in> set P. valid_frame q"
  by (induction rule: failed_main_view.induct) (auto dest: main_view_valid)

lemma failed_main_view_length:
  "failed_main_view inputs pc rest E P c \<Longrightarrow> length P \<le> length (filter valid_frame inputs)"
  by (induction rule: failed_main_view.induct) (auto elim!: main_view.cases)

definition failure_output_ok :: "'b host_state \<Rightarrow> bool" where
  "failure_output_ok s \<longleftrightarrow> (case main_at s of
      M_exit c \<Rightarrow> (\<exists>r. consumer_at s = C_done r \<and> (success r \<longleftrightarrow> c = 0))
        \<and> (c \<noteq> 0 \<longrightarrow> cout s = [] \<and> cerr s = operational_failure)
    | _ \<Rightarrow> cout s = [] \<and> cerr s = [])"

locale raising_run = raising_buffer ops items closed capacity valid
  for ops :: "'b buffer_ops" and items closed capacity valid +
  fixes b0 :: 'b and inputs :: "bytes list"
  assumes initial: "valid b0" "\<not> closed b0" "items b0 = []"
begin

definition raising_at :: "'b host_state \<Rightarrow> IngestEvent list \<Rightarrow> bytes list \<Rightarrow> bytes list \<Rightarrow> bool" where
  "raising_at s E pr Q \<longleftrightarrow>
     failed_main_view inputs (main_at s) (frames_left s) E (pr @ Q) (closed (the_buffer s))
     \<and> failing_view (consumer_at s) pr Q (items (the_buffer s)) (closed (the_buffer s))
     \<and> the_metrics s = metrics_after E pr \<and> valid (the_buffer s)
     \<and> length (items (the_buffer s)) \<le> capacity \<and> ingestion_succeeded s \<and> failure_output_ok s"

definition raising_inv :: "'b host_state \<Rightarrow> bool" where
  "raising_inv s \<longleftrightarrow> (\<exists>E pr Q. raising_at s E pr Q)"

lemma raising_invI:
  assumes "failed_main_view inputs (main_at s) (frames_left s) E (pr @ Q) (closed (the_buffer s))"
    and "failing_view (consumer_at s) pr Q (items (the_buffer s)) (closed (the_buffer s))"
    and "the_metrics s = metrics_after E pr" and "valid (the_buffer s)"
    and "length (items (the_buffer s)) \<le> capacity" and "ingestion_succeeded s" and "failure_output_ok s"
  shows "raising_inv s"
  using assms unfolding raising_inv_def raising_at_def by blast

lemma raising_start: "raising_inv (host_start b0 inputs)"
  using main_view.at_next [of inputs "[]" inputs] consumer_view.at_pop [of "[]"]
  by (intro raising_invI [where E = "[]" and pr = "[]" and Q = "[]"])
    (simp_all add: host_start_def initial metrics_after_def failure_output_ok_def runs goes_on)

lemma failing_view_append:
  assumes "failing_view pc pr Q its False"
  shows "failing_view pc pr (Q @ [x]) (its @ [x]) False"
  using assms
  by (cases rule: failing_view.cases) (auto intro: goes_on has_failed consumer_view_append)

lemma failing_view_closed:
  assumes "failing_view pc pr Q its False"
  shows "failing_view pc pr Q its True"
  using assms
  by (cases rule: failing_view.cases) (auto intro: goes_on has_failed consumer_view_closed)

lemma failing_consumer_step:
  assumes "raising_inv s" and "consumer_step ops s = Some t"
  shows "raising_inv t"
proof -
  from assms(1) obtain E pr Q where
    mv: "failed_main_view inputs (main_at s) (frames_left s) E (pr @ Q) (closed (the_buffer s))" and
    fv: "failing_view (consumer_at s) pr Q (items (the_buffer s)) (closed (the_buffer s))" and
    m: "the_metrics s = metrics_after E pr" and v: "valid (the_buffer s)" and
    room: "length (items (the_buffer s)) \<le> capacity" and ok: "ingestion_succeeded s" "failure_output_ok s"
    unfolding raising_inv_def raising_at_def by blast
  have running: "\<And>r. consumer_at s \<noteq> C_done r" using assms(2) by (auto simp: consumer_step_def)
  with fv have cv: "consumer_view (consumer_at s) pr Q (items (the_buffer s)) (closed (the_buffer s))"
    by (cases rule: failing_view.cases) auto
  have valid_frames: "\<forall>q \<in> set Q. valid_frame q" using failed_main_view_valid [OF mv] by simp
  note step = assms(2) [unfolded consumer_step_def]
  have same: "main_at t = main_at s" "frames_left t = frames_left s" "cout t = cout s" "cerr t = cerr s"
    "ingestion_succeeded t = ingestion_succeeded s"
    using step by (auto split: consumer_pc.splits option.splits outcome.splits sum.splits)
  have ok': "failure_output_ok t" "ingestion_succeeded t"
    using ok same running by (auto simp: failure_output_ok_def split: main_pc.splits)
  have result: "raising_inv t"
    if "pr' @ Q' = pr @ Q" "failing_view (consumer_at t) pr' Q' (items (the_buffer t)) (closed (the_buffer t))"
      "the_metrics t = metrics_after E pr'" "valid (the_buffer t)"
      "closed (the_buffer t) = closed (the_buffer s)" "length (items (the_buffer t)) \<le> capacity" for pr' Q'
    using that mv ok' same by (intro raising_invI [of t E pr' Q']) simp_all
  from cv show ?thesis
  proof (cases rule: consumer_view.cases)
    case at_pop
    show ?thesis
      using v refl
    proof (cases rule: raising_pop_cases)
      case waits
      with step at_pop show ?thesis by simp
    next
      case (item q b')
      with step at_pop m room show ?thesis
        by (intro result [of pr Q]) (auto intro: consumer_view.intros [THEN goes_on])
    next
      case (drained b')
      with step at_pop m show ?thesis
        by (intro result [of pr Q]) (auto intro: consumer_view.intros [THEN goes_on])
    next
      case (raised w b')
      with step at_pop m room has_failed [of pr Q "closed (the_buffer s)"] show ?thesis
        by (intro result [of pr Q]) auto
    qed
  next
    case (at_popped q)
    with step m v room valid_frames show ?thesis
      by (intro result [of pr Q]) (auto intro: consumer_view.intros [THEN goes_on])
  next
    case at_empty
    with step m v show ?thesis by (intro result [of pr Q]) (auto intro: consumer_view.intros [THEN goes_on])
  next
    case (at_process q)
    with step m v room goes_on [OF consumer_view.at_pop [of "pr @ [q]" "items (the_buffer s)"]] show ?thesis
      by (intro result [of "pr @ [q]" "items (the_buffer s)"]) (auto simp: metrics_after_frame add.commute)
  next
    case at_done
    with running show ?thesis by metis
  qed
qed

text \<open>The end of main: the report, or the failure of the consumer.\<close>

lemma raising_main_joins:
  assumes at: "raising_at s E pr Q" and mv: "main_view inputs M_join (frames_left s) E (pr @ Q) (closed (the_buffer s))"
    and pc: "main_at s = M_join" and step: "main_step ops s = Some t"
  shows "raising_inv t"
proof -
  from pc step obtain r where r: "consumer_at s = C_done r" "t = finish_main r s"
    by (auto simp: main_step_def split: consumer_pc.splits)
  from mv have view: "frames_left s = []" "E = ingested inputs" "pr @ Q = filter valid_frame inputs"
    "closed (the_buffer s)" by (auto elim: main_view_cases)
  have out: "cout s = []" "cerr s = []" "ingestion_succeeded s"
    using at pc by (simp_all add: raising_at_def failure_output_ok_def)
  from at r(1) have "failing_view (C_done r) pr Q (items (the_buffer s)) (closed (the_buffer s))"
    by (simp add: raising_at_def)
  then show ?thesis
  proof (cases rule: failing_view.cases)
    case goes_on
    then have "r = \<lparr>success = True, frames_consumed = of_nat (length pr)\<rparr> \<and> Q = []"
      by (cases rule: consumer_view.cases) simp
    then have fin: "r = \<lparr>success = True, frames_consumed = of_nat (length pr)\<rparr>" "Q = []" by simp_all
    with at view have "frames_consumed r = frames_accepted (snapshot (the_metrics s))"
      by (simp add: raising_at_def snapshot_def accepted_count)
    with r fin out have t: "t = s\<lparr>cout := make_text_report (snapshot (the_metrics s)), main_at := M_exit 0\<rparr>"
      by (simp add: finish_main_def Let_def)
    have "main_view inputs (M_exit 0) [] (ingested inputs) (pr @ Q) True"
      using main_view.at_exit [of inputs] view(3) by simp
    with at t view r(1) fin show ?thesis
      by (intro raising_invI [of t E pr Q])
        (auto simp: raising_at_def failure_output_ok_def intro: runs)
  next
    case has_failed
    with r out have t: "t = s\<lparr>cerr := operational_failure, main_at := M_exit 1\<rparr>"
      by (simp add: finish_main_def Let_def operational_failure_def)
    have "failed_main_view inputs (M_exit 1) [] (ingested inputs) (pr @ Q) True"
      using reports [of inputs] view(3) by simp
    with at t view r(1) has_failed out show ?thesis
      by (intro raising_invI [of t E pr Q]) (auto simp: raising_at_def failure_output_ok_def)
  qed
qed

lemma raising_main_step:
  assumes "raising_inv s" and step: "main_step ops s = Some t"
  shows "raising_inv t"
proof -
  from assms(1) obtain E pr Q where at: "raising_at s E pr Q" unfolding raising_inv_def by blast
  then have fmv: "failed_main_view inputs (main_at s) (frames_left s) E (pr @ Q) (closed (the_buffer s))"
    and v: "valid (the_buffer s)" by (simp_all add: raising_at_def)
  have mv: "main_view inputs (main_at s) (frames_left s) E (pr @ Q) (closed (the_buffer s))"
    using fmv by (cases rule: failed_main_view.cases) (use step in \<open>auto simp: main_step_def\<close>)
  note at' = at [unfolded raising_at_def] step [unfolded main_step_def]
  note views = main_view.intros [THEN runs]
  from mv show ?thesis
  proof (cases rule: main_view.cases)
    case (at_next d)
    with at' show ?thesis
      by (intro raising_invI [of t E pr Q])
        (auto simp: failure_output_ok_def split: list.splits intro: views)
  next
    case (at_input d bs)
    with at' show ?thesis
      by (intro raising_invI [of t "E @ [Ev_input]" pr Q])
        (auto simp: failure_output_ok_def metrics_after_calls intro: views)
  next
    case (at_parse d bs)
    show ?thesis
    proof (cases "valid_frame bs")
      case True
      with at_parse at' show ?thesis
        by (intro raising_invI [of t E pr Q])
          (auto simp: failure_output_ok_def ingest_parse_cases intro: views)
    next
      case False
      with at_parse at' show ?thesis
        by (intro raising_invI [of t "E @ [Ev_rejected (error (deserialize bs))]" pr Q])
          (auto simp: failure_output_ok_def ingest_parse_cases metrics_after_calls
            intro!: runs view_rejected)
    qed
  next
    case (at_push d bs)
    show ?thesis
      using v refl
    proof (cases rule: push_cases [of _ bs])
      case waits
      with at_push step show ?thesis by (simp add: main_step_def)
    next
      case (stored b')
      have room: "length (items (the_buffer s)) < capacity"
        using stored push_full [OF v stored(2)] by (metis not_le option.distinct(1))
      have "failed_main_view inputs (M_pushed True) (frames_left s) (ingested d @ [Ev_input])
          (filter valid_frame d @ [bs]) False"
        using at_push by (intro runs main_view.at_pushed)
      with stored room at_push at' show ?thesis
        by (intro raising_invI [of t E pr "Q @ [bs]"])
          (auto simp: failure_output_ok_def failing_view_append simp flip: append_assoc)
    next
      case (refused b')
      with at_push show ?thesis by simp
    qed
  next
    case (at_pushed d bs)
    with at' show ?thesis
      by (intro raising_invI [of t "E @ [Ev_accepted]" pr Q])
        (auto simp: failure_output_ok_def ingest_finish_def metrics_after_calls
          intro!: runs view_accepted)
  next
    case (at_ingested d r)
    with at' show ?thesis
      by (intro raising_invI [of t E pr Q]) (auto simp: failure_output_ok_def intro: views)
  next
    case at_close
    with at' close_closes [OF v] show ?thesis
      by (intro raising_invI [of t E pr Q])
        (auto simp: failure_output_ok_def intro: views failing_view_closed)
  next
    case at_join
    with raising_main_joins [OF at _ at_join(1) step] mv show ?thesis by simp
  next
    case at_exit
    with step show ?thesis by (simp add: main_step_def)
  qed
qed

definition raising_bound :: "'b host_state \<Rightarrow> nat" where
  "raising_bound s = 10 * length (frames_left s) + main_weight (main_at s)
     + 3 * length (items (the_buffer s)) + consumer_weight (consumer_at s)"

lemma raising_main_decreases:
  assumes "valid (the_buffer s)" and "main_step ops s = Some t" and "\<forall>w. main_at s \<noteq> M_catch w"
  shows "raising_bound t < raising_bound s"
proof (cases "main_at s")
  case (M_push q)
  show ?thesis
    using assms(1) refl
    by (cases rule: push_cases [of _ q])
      (use assms(2) M_push in \<open>auto simp: main_step_def raising_bound_def\<close>)
qed (use assms close_closes [OF assms(1)] in \<open>auto simp: main_step_def raising_bound_def
    ingest_parse_cases ingest_finish_def finish_main_def Let_def
    split: list.splits if_splits consumer_pc.splits\<close>)

lemma raising_consumer_decreases:
  assumes "valid (the_buffer s)" and "consumer_step ops s = Some t"
  shows "raising_bound t < raising_bound s"
proof (cases "consumer_at s")
  case (C_pop n)
  show ?thesis
    using assms(1) refl
    by (cases rule: raising_pop_cases)
      (use assms(2) C_pop in \<open>auto simp: consumer_step_def raising_bound_def\<close>)
next
  case (C_popped q n)
  with assms(2) show ?thesis
    by (cases q) (auto simp: consumer_step_def raising_bound_def split: sum.splits)
qed (use assms(2) in \<open>auto simp: consumer_step_def raising_bound_def\<close>)

lemma raising_step_decreases:
  assumes "raising_inv s" and "host_step ops s t"
  shows "raising_bound t < raising_bound s"
proof -
  from assms(1) obtain E pr Q where at: "raising_at s E pr Q" unfolding raising_inv_def by blast
  have "\<forall>w. main_at s \<noteq> M_catch w"
    using at by (auto simp: raising_at_def elim!: failed_main_view.cases elim: main_view_cases)
  with at assms(2) show ?thesis
    using raising_main_decreases raising_consumer_decreases by (auto simp: host_step_iff raising_at_def)
qed

text \<open>A run ends at an exit, or with the main thread waiting in \<^verbatim>\<open>push\<close> on a full buffer that
  nobody reads.\<close>

definition hung :: "'b host_state \<Rightarrow> bool" where
  "hung s \<longleftrightarrow> (\<exists>bs. main_at s = M_push bs) \<and> (\<exists>r. consumer_at s = C_done r \<and> \<not> success r)
     \<and> length (items (the_buffer s)) = capacity"

lemma raising_progress:
  assumes "raising_inv s" and "\<not> ((\<exists>c. main_at s = M_exit c) \<or> hung s)"
  shows "\<exists>t. host_step ops s t"
proof (rule ccontr)
  assume stuck: "\<nexists>t. host_step ops s t"
  from assms(1) obtain E pr Q where at: "raising_at s E pr Q" unfolding raising_inv_def by blast
  then have fv: "failing_view (consumer_at s) pr Q (items (the_buffer s)) (closed (the_buffer s))"
    and v: "valid (the_buffer s)" and room: "length (items (the_buffer s)) \<le> capacity"
    by (simp_all add: raising_at_def)
  have mv: "main_view inputs (main_at s) (frames_left s) E (pr @ Q) (closed (the_buffer s))"
    using at assms(2) by (auto simp: raising_at_def elim: failed_main_view.cases)
  from stuck have m: "main_step ops s = None" and c: "consumer_step ops s = None"
    by (simp_all add: host_step_iff all_conj_distrib)
  have waits: "(\<not> closed (the_buffer s) \<and> items (the_buffer s) = []) \<or> (\<exists>r. consumer_at s = C_done r)"
    using v refl
    by (cases rule: raising_pop_cases)
      (use c in \<open>auto simp: consumer_step_def split: consumer_pc.splits sum.splits\<close>)
  from mv show False
  proof (cases rule: main_view.cases)
    case (at_push d bs)
    have full: "capacity \<le> length (items (the_buffer s))"
      using v refl by (cases rule: push_cases [of _ bs]) (use m at_push in \<open>auto simp: main_step_def\<close>)
    with waits buffer_capacity obtain r where r: "consumer_at s = C_done r" by auto
    with fv at_push have "\<not> success r" by (auto elim!: failing_view.cases elim: consumer_view.cases)
    moreover have "length (items (the_buffer s)) = capacity" using full room by simp
    ultimately have "hung s" unfolding hung_def using r at_push(1) by blast
    with assms(2) show False by simp
  next
    case at_join
    with waits m show False by (auto simp: main_step_def)
  qed (use m assms(2) in \<open>auto simp: main_step_def split: list.splits sum.splits prod.splits\<close>)
qed

end

sublocale raising_run \<subseteq> raised: step_system "host_step ops" "host_start b0 inputs" raising_inv
    raising_bound "\<lambda>s. (\<exists>c. main_at s = M_exit c) \<or> hung s"
proof
  show "raising_inv (host_start b0 inputs)" by (rule raising_start)
next
  fix s t
  assume "raising_inv s" and "host_step ops s t"
  then show "raising_inv t"
    by (auto simp: host_step_iff intro: raising_main_step failing_consumer_step)
next
  fix s t
  assume "raising_inv s" and "host_step ops s t"
  then show "raising_bound t < raising_bound s" by (rule raising_step_decreases)
next
  fix s
  assume "raising_inv s" and "\<not> ((\<exists>c. main_at s = M_exit c) \<or> hung s)"
  then show "\<exists>t. host_step ops s t" by (rule raising_progress)
qed

lemma finished_consumer_stays:
  assumes "(host_step ops)\<^sup>*\<^sup>* s t" and "consumer_at s = C_done r"
  shows "consumer_at t = C_done r"
  using assms
proof (induction rule: rtranclp_induct)
  case (step t u)
  then show ?case
    by (auto simp: host_step_iff consumer_step_def main_step_def finish_main_def Let_def
        split: main_pc.splits list.splits option.splits outcome.splits sum.splits prod.splits if_splits)
qed

context raising_run
begin

lemma failed_end:
  assumes "raising_inv s" and "consumer_at s = C_done r" and "\<not> success r" and "length inputs < 2 ^ 64"
  shows "(main_at s = M_exit c \<longrightarrow> c = 1 \<and> cout s = [] \<and> cerr s = operational_failure
      \<and> length (filter valid_frame inputs) \<le> unat (frames_consumed r) + capacity)
    \<and> (hung s \<longrightarrow> cout s = [] \<and> cerr s = []
      \<and> unat (frames_consumed r) + capacity < length (filter valid_frame inputs))"
proof -
  from assms(1) obtain E pr Q where at: "raising_at s E pr Q" unfolding raising_inv_def by blast
  then have fv: "failing_view (C_done r) pr Q (items (the_buffer s)) (closed (the_buffer s))"
    and mv: "failed_main_view inputs (main_at s) (frames_left s) E (pr @ Q) (closed (the_buffer s))"
    and room: "length (items (the_buffer s)) \<le> capacity" and out: "failure_output_ok s"
    using assms(2) by (simp_all add: raising_at_def)
  from fv assms(3) have r: "frames_consumed r = of_nat (length pr)" and Q: "Q = items (the_buffer s)"
    by (auto elim!: failing_view.cases elim: consumer_view.cases)
  from failed_main_view_length [OF mv] have "length pr \<le> length (filter valid_frame inputs)" by simp
  also have "\<dots> \<le> length inputs" by (rule length_filter_le)
  also note assms(4)
  finally have "length pr < 2 ^ 64" .
  then have k: "unat (frames_consumed r) = length pr"
    by (simp add: r unsigned_of_nat take_bit_nat_eq_self)
  have "c = 1 \<and> cout s = [] \<and> cerr s = operational_failure
      \<and> length (filter valid_frame inputs) \<le> length pr + capacity" if "main_at s = M_exit c"
  proof -
    from out assms(2,3) that have c: "c \<noteq> 0" "cout s = []" "cerr s = operational_failure"
      by (auto simp: failure_output_ok_def)
    with mv that have "c = 1 \<and> pr @ Q = filter valid_frame inputs"
      by (auto elim!: failed_main_view_cases main_view_cases)
    then have "c = 1" "length (filter valid_frame inputs) = length pr + length Q"
      using length_append [of pr Q] by simp_all
    with c room Q show ?thesis by simp
  qed
  moreover have "cout s = [] \<and> cerr s = []
      \<and> length pr + capacity < length (filter valid_frame inputs)" if "hung s"
  proof -
    from that obtain bs where bs: "main_at s = M_push bs" and full: "length Q = capacity"
      by (auto simp: hung_def Q)
    from mv bs obtain d where "inputs = d @ bs # frames_left s" "valid_frame bs" "pr @ Q = filter valid_frame d"
      by (auto elim!: failed_main_view.cases main_view_cases)
    then have "length pr + length Q < length (filter valid_frame inputs)"
      using length_append [of pr Q] by simp
    with full out bs show ?thesis by (simp add: failure_output_ok_def)
  qed
  ultimately show ?thesis by (simp add: k)
qed

lemma failed_outcome:
  assumes steps: "(host_step ops ^^ n) (host_start b0 inputs) s"
    and failed: "consumer_at s = C_done r" "\<not> success r" and small: "length inputs < 2 ^ 64"
  shows "n \<le> 10 * length inputs + 6
    \<and> (\<exists>t. (host_step ops)\<^sup>*\<^sup>* s t \<and> (\<nexists>u. host_step ops t u))
    \<and> (if unat (frames_consumed r) + capacity < length (filter valid_frame inputs)
       then \<forall>t. (host_step ops)\<^sup>*\<^sup>* s t \<longrightarrow> (\<forall>c. main_at t \<noteq> M_exit c)
         \<and> ((\<nexists>u. host_step ops t u) \<longrightarrow> (\<exists>bs. main_at t = M_push bs) \<and> cout t = [] \<and> cerr t = [])
       else \<forall>t. (host_step ops)\<^sup>*\<^sup>* s t \<and> (\<nexists>u. host_step ops t u) \<longrightarrow>
         main_at t = M_exit 1 \<and> cout t = [] \<and> cerr t = operational_failure)"
proof -
  have start: "(host_step ops)\<^sup>*\<^sup>* (host_start b0 inputs) s" using steps by (rule relpowp_imp_rtranclp)
  have "n \<le> raising_bound (host_start b0 inputs)" by (rule raised.run_bounded [OF steps])
  then have bound: "n \<le> 10 * length inputs + 6"
    by (simp add: raising_bound_def host_start_def initial)
  have ends: "(main_at t = M_exit c \<longrightarrow> c = 1 \<and> cout t = [] \<and> cerr t = operational_failure
        \<and> length (filter valid_frame inputs) \<le> unat (frames_consumed r) + capacity)
      \<and> (hung t \<longrightarrow> cout t = [] \<and> cerr t = []
        \<and> unat (frames_consumed r) + capacity < length (filter valid_frame inputs))
      \<and> ((\<nexists>u. host_step ops t u) \<longrightarrow> (\<exists>c. main_at t = M_exit c) \<or> hung t)"
    if "(host_step ops)\<^sup>*\<^sup>* s t" for t c
  proof -
    have reach: "(host_step ops)\<^sup>*\<^sup>* (host_start b0 inputs) t" using start that by (rule rtranclp_trans)
    show ?thesis
      using failed_end [OF raised.reachable_inv [OF reach] finished_consumer_stays [OF that failed(1)] failed(2) small]
        raised.stuck_is_final [OF reach] by blast
  qed
  show ?thesis
  proof (cases "unat (frames_consumed r) + capacity < length (filter valid_frame inputs)")
    case True
    have "(\<forall>c. main_at t \<noteq> M_exit c)
        \<and> ((\<nexists>u. host_step ops t u) \<longrightarrow> (\<exists>bs. main_at t = M_push bs) \<and> cout t = [] \<and> cerr t = [])"
      if "(host_step ops)\<^sup>*\<^sup>* s t" for t
    proof -
      have runs_on: "main_at t \<noteq> M_exit c" for c using ends [OF that, of c] True by auto
      moreover have "(\<exists>bs. main_at t = M_push bs) \<and> cout t = [] \<and> cerr t = []" if "\<nexists>u. host_step ops t u"
      proof -
        have "hung t" using ends [OF \<open>(host_step ops)\<^sup>*\<^sup>* s t\<close>] that runs_on by blast
        then show ?thesis using ends [OF \<open>(host_step ops)\<^sup>*\<^sup>* s t\<close>] unfolding hung_def by blast
      qed
      ultimately show ?thesis by blast
    qed
    with True bound raised.reaches_stuck [OF start] show ?thesis by simp
  next
    case False
    have "main_at t = M_exit 1 \<and> cout t = [] \<and> cerr t = operational_failure"
      if "(host_step ops)\<^sup>*\<^sup>* s t \<and> (\<nexists>u. host_step ops t u)" for t
      using ends [OF conjunct1 [OF that]] that False by auto
    with False bound raised.reaches_stuck [OF start] show ?thesis by simp
  qed
qed

end

text \<open>Every buffer that never raises is a special case, and the faulty buffer is another.\<close>

sublocale host_run \<subseteq> sound: raising_run ops items closed capacity valid b0 inputs
  by unfold_locales (rule initial)+

lemma raising_runI:
  assumes "raising_buffer ops items closed capacity valid" and "valid b0" and "\<not> closed b0" and "items b0 = []"
  shows "raising_run ops items closed capacity valid b0"
  using assms by (simp add: raising_run_def raising_run_axioms_def)

lemma faulty_contract:
  "raising_buffer (faulty_ops queue_capacity) (\<lambda>b. stored (faulty_list b)) (\<lambda>b. is_closed (faulty_list b))
    queue_capacity (\<lambda>_. True)"
  by (rule faulty_buffer_meets_contract) (simp add: queue_capacity_def)

interpretation faulty_run: raising_run "faulty_ops queue_capacity" "\<lambda>b. stored (faulty_list b)"
    "\<lambda>b. is_closed (faulty_list b)" queue_capacity "\<lambda>_. True" "faulty_start k" inputs for k inputs
  by (rule raising_runI [OF faulty_contract]) (simp_all add: faulty_start_def empty_list_buffer_def)

subsection \<open>Properties\<close>

text \<open>C15: exit code 0 can be trusted whatever the external buffer does: no assumption is made on
  its operations, and still every run that exits with 0 has received every input, has accepted
  exactly the valid ones, has processed as many frames as it accepted, and has printed the report
  of that state and no error.\<close>

theorem exit_zero_is_trustworthy:
  assumes "(host_step ops)\<^sup>*\<^sup>* (host_start b inputs) s" and "main_at s = M_exit 0"
    and "snap = snapshot (the_metrics s)"
  shows "inputs_received snap = of_nat (length inputs)
    \<and> frames_accepted snap = of_nat (length (filter valid_frame inputs))
    \<and> frames_processed snap = frames_accepted snap
    \<and> cout s = make_text_report snap \<and> cerr s = []"
proof -
  from robust_steps [OF assms(1)] obtain E fs where ok: "exit_ok s"
    and m: "the_metrics s = fold record_processed fs (fold record_ingest E new_metrics)"
    and n: "consumed_by (consumer_at s) = of_nat (length fs)"
    and tr: "on_track s \<Longrightarrow> tracked inputs (main_at s) (frames_left s) E"
    unfolding robust_inv_def by blast
  from ok assms(2) have out: "consumed_by (consumer_at s) = frames_accepted' (the_metrics s)"
      "cout s = make_text_report (snapshot (the_metrics s))" "cerr s = []" "ingestion_succeeded s"
    by (simp_all add: exit_ok_def)
  from out(4) assms(2) tr have "E = ingested inputs"
    by (auto simp: on_track_def elim!: trackedE main_view_cases)
  then have "the_metrics s = fold record_processed fs (fold record_ingest (ingested inputs) new_metrics)"
    using m by simp
  then show ?thesis
    using out n accepted_count [of inputs "[]"] assms(3)
    by (simp add: snapshot_def processed_count processed_untouched input_count metrics_after_def
        new_metrics_def)
qed

theorem exit_zero_is_trustworthy_witness:
  "\<exists>s. (host_step (list_buffer_ops queue_capacity))\<^sup>*\<^sup>* (host_start empty_list_buffer [[1], [2]]) s
    \<and> main_at s = M_exit 0 \<and> inputs_received (snapshot (the_metrics s)) = of_nat (length [[1 :: u8], [2]])
    \<and> frames_accepted (snapshot (the_metrics s)) = of_nat (length (filter valid_frame [[1], [2]]))
    \<and> frames_processed (snapshot (the_metrics s)) = frames_accepted (snapshot (the_metrics s))
    \<and> cout s = make_text_report (snapshot (the_metrics s)) \<and> cerr s = []"
proof -
  obtain s where s: "(host_step (list_buffer_ops queue_capacity))\<^sup>*\<^sup>* (host_start empty_list_buffer [[1], [2]]) s"
    "main_at s = M_exit 0"
    using demo_run.every_run_is_short [of 0 "[[1], [2]]"] by auto
  with exit_zero_is_trustworthy [OF s refl] show ?thesis by blast
qed

text \<open>C22: what becomes of the program when the consumer fails: over any buffer whose \<^verbatim>\<open>pop\<close> may
  throw at any call, in any state of any run whose consumer has returned with a failure after \<open>k\<close>
  frames. No code closes the buffer, so it is decided by how many valid frames the inputs hold. With
  more than \<open>k\<close> and the capacity, the program never exits, with any code: every schedule ends with the
  main thread waiting in \<^verbatim>\<open>push\<close> and no output, and the failure is never reported. Otherwise every
  schedule ends with exit code 1 and the message. Either end is reached, within \<open>10 * n + 6\<close> steps
  for \<open>n\<close> inputs.\<close>

theorem failed_consumer_outcome:
  assumes "raising_buffer ops items closed capacity valid" and "valid b0" and "\<not> closed b0"
    and "items b0 = []" and "length inputs < 2 ^ 64"
    and "(host_step ops ^^ n) (host_start b0 inputs) s"
    and "consumer_at s = C_done r" and "\<not> success r"
  shows "n \<le> 10 * length inputs + 6
    \<and> (\<exists>t. (host_step ops)\<^sup>*\<^sup>* s t \<and> (\<nexists>u. host_step ops t u))
    \<and> (if unat (frames_consumed r) + capacity < length (filter valid_frame inputs)
       then \<forall>t. (host_step ops)\<^sup>*\<^sup>* s t \<longrightarrow> (\<forall>c. main_at t \<noteq> M_exit c)
         \<and> ((\<nexists>u. host_step ops t u) \<longrightarrow> (\<exists>bs. main_at t = M_push bs) \<and> cout t = [] \<and> cerr t = [])
       else \<forall>t. (host_step ops)\<^sup>*\<^sup>* s t \<and> (\<nexists>u. host_step ops t u) \<longrightarrow>
         main_at t = M_exit 1 \<and> cout t = []
         \<and> cerr t = ''Telemetry host pipeline failed operationally'' @ [newline])"
  unfolding operational_failure_def [symmetric]
  by (rule raising_run.failed_outcome [OF raising_runI [OF assms(1-4)] assms(6-8,5)])

text \<open>A run in which the first frame is processed and the next \<^verbatim>\<open>pop\<close> raises.\<close>

lemma host_main_runs:
  "main_step ops s = Some t \<Longrightarrow> \<exists>n. (host_step ops ^^ n) t u \<Longrightarrow> \<exists>n. (host_step ops ^^ n) s u"
  by (meson host_step.main_thread relpowp_Suc_I2)

lemma host_consumer_runs:
  "consumer_step ops s = Some t \<Longrightarrow> \<exists>n. (host_step ops ^^ n) t u \<Longrightarrow> \<exists>n. (host_step ops ^^ n) s u"
  by (meson host_step.consumer_thread relpowp_Suc_I2)

lemma runs_here: "\<exists>n. (host_step ops ^^ n) s s"
  by (rule exI [of _ 0]) simp

lemma faulty_runs:
  assumes "valid_frame q"
  shows "\<exists>s. (\<exists>n. (host_step (faulty_ops 3) ^^ n) (host_start (faulty_start 1) (q # rest)) s)
    \<and> consumer_at s = C_done \<lparr>success = False, frames_consumed = 1\<rparr>"
proof -
  note main = main_step_def ingest_parse_cases assms faulty_ops_def list_buffer_ops_def
    faulty_start_def empty_list_buffer_def
  note consumer = consumer_step_def assms faulty_ops_def list_buffer_ops_def
  show ?thesis
    unfolding host_start_def
    by (rule exI, rule conjI, (rule host_main_runs, (simp add: main; fail)), (rule host_main_runs, (simp add: main; fail)),
      (rule host_main_runs, (simp add: main; fail)), (rule host_main_runs, (simp add: main; fail)),
      (rule host_consumer_runs, (simp add: consumer; fail)), (rule host_consumer_runs, (simp add: consumer; fail)),
      (rule host_consumer_runs, (simp add: consumer; fail)), (rule host_consumer_runs, (simp add: consumer; fail)),
      rule runs_here, simp)
qed

theorem failed_consumer_outcome_witness:
  "(\<exists>s t. (host_step (faulty_ops 3))\<^sup>*\<^sup>*
        (host_start (faulty_start 1) (replicate 5 (frame_layout default_frame))) s
      \<and> consumer_at s = C_done \<lparr>success = False, frames_consumed = 1\<rparr>
      \<and> (host_step (faulty_ops 3))\<^sup>*\<^sup>* s t \<and> (\<nexists>u. host_step (faulty_ops 3) t u)
      \<and> (\<exists>bs. main_at t = M_push bs) \<and> cout t = [] \<and> cerr t = [])
    \<and> (\<exists>t. (host_step (faulty_ops 3))\<^sup>*\<^sup>* (host_start (faulty_start 1) [frame_layout default_frame]) t
      \<and> main_at t = M_exit 1 \<and> cout t = []
      \<and> cerr t = ''Telemetry host pipeline failed operationally'' @ [newline])"
proof -
  let ?q = "frame_layout default_frame" and ?step = "host_step (faulty_ops 3)"
  have q: "valid_frame ?q"
    by (simp add: valid_frame_def has_value_def deserialize_layout)
  have contract: "raising_buffer (faulty_ops 3) (\<lambda>b. stored (faulty_list b)) (\<lambda>b. is_closed (faulty_list b)) 3
      (\<lambda>_. True)" by (rule faulty_buffer_meets_contract) simp
  note outcome = failed_consumer_outcome [OF contract TrueI, of "faulty_start 1"]
  obtain s n where s: "(?step ^^ n) (host_start (faulty_start 1) (replicate 5 ?q)) s"
      "consumer_at s = C_done \<lparr>success = False, frames_consumed = 1\<rparr>"
    using faulty_runs [OF q, of "replicate 4 ?q"] by (auto simp: numeral_eq_Suc)
  obtain s' n' where s': "(?step ^^ n') (host_start (faulty_start 1) [?q]) s'"
      "consumer_at s' = C_done \<lparr>success = False, frames_consumed = 1\<rparr>"
    using faulty_runs [OF q, of "[]"] by auto
  have "(\<exists>t. ?step\<^sup>*\<^sup>* s t \<and> (\<nexists>u. ?step t u))
      \<and> (\<forall>t. ?step\<^sup>*\<^sup>* s t \<longrightarrow> (\<forall>c. main_at t \<noteq> M_exit c)
        \<and> ((\<nexists>u. ?step t u) \<longrightarrow> (\<exists>bs. main_at t = M_push bs) \<and> cout t = [] \<and> cerr t = []))"
    using outcome [OF _ _ _ s] q by (simp add: faulty_start_def empty_list_buffer_def)
  moreover have "(\<exists>t. ?step\<^sup>*\<^sup>* s' t \<and> (\<nexists>u. ?step t u))
      \<and> (\<forall>t. ?step\<^sup>*\<^sup>* s' t \<and> (\<nexists>u. ?step t u) \<longrightarrow> main_at t = M_exit 1 \<and> cout t = []
        \<and> cerr t = ''Telemetry host pipeline failed operationally'' @ [newline])"
    using outcome [OF _ _ _ s'] q by (simp add: faulty_start_def empty_list_buffer_def)
  moreover have "?step\<^sup>*\<^sup>* (host_start (faulty_start 1) (replicate 5 ?q)) s"
    "?step\<^sup>*\<^sup>* (host_start (faulty_start 1) [?q]) s'"
    using s(1) s'(1) by (auto dest: relpowp_imp_rtranclp)
  ultimately show ?thesis using s(2) by (meson rtranclp_trans)
qed

end
