(* ===== verification/Transcript.thy ===== *)
theory Transcript
  imports Firmware_Outcome Host_Robustness
begin

text \<open>
  Reading the firmware's console on the receiving side: the lines of the transcript, the frame
  lines among them and the bytes they encode. The lemma \<open>received_console\<close> says that the
  transcript of a complete firmware run gives back exactly the encoded frames; the properties in
  the root theory feed them to the host.
\<close>

function lines_in :: "string \<Rightarrow> string list" where
  "lines_in s =
     (if s = [] then []
      else takeWhile (\<lambda>c. c \<noteq> newline) s # lines_in (drop 1 (dropWhile (\<lambda>c. c \<noteq> newline) s)))"
  by pat_completeness auto

termination
proof (relation "measure length")
  fix s :: string
  assume "s \<noteq> []"
  then show "(drop 1 (dropWhile (\<lambda>c. c \<noteq> newline) s), s) \<in> measure length"
    using length_dropWhile_le [of "\<lambda>c. c \<noteq> newline" s] by (cases s) auto
qed simp

declare lines_in.simps [simp del]

definition received :: "string \<Rightarrow> bytes list" where
  "received out =
     map (\<lambda>l. hex_value (drop 13 l)) (filter (\<lambda>l. take 8 l = ''TLFRAME '') (lines_in out))"

lemma lines_in_line: "newline \<notin> set l \<Longrightarrow> lines_in (l @ newline # r) = l # lines_in r"
proof -
  assume l: "newline \<notin> set l"
  then have "takeWhile (\<lambda>c. c \<noteq> newline) (l @ newline # r) = l"
    "dropWhile (\<lambda>c. c \<noteq> newline) (l @ newline # r) = newline # r"
    by (induction l) auto
  then show ?thesis by (subst lines_in.simps) simp
qed

lemma lines_in_unlines: "\<forall>l \<in> set ls. newline \<notin> set l \<Longrightarrow> lines_in (unlines ls) = ls"
  by (induction ls) (simp_all add: unlines_simps lines_in_line lines_in.simps [of "[]"])

definition frame_text :: "u32 \<Rightarrow> string \<Rightarrow> string" where
  "frame_text index hexadecimal =
     ''TLFRAME '' @ pad4 (show_nat (unat index)) @ '' '' @ c_string hexadecimal"

lemma frame_line_text: "frame_line i h = frame_text i h @ [newline]"
  by (simp add: frame_line_def frame_text_def newline_def)

lemma hex_not_newline: "newline \<notin> set (hex_text bs)"
proof
  assume "newline \<in> set (hex_text bs)"
  then have "is_hex_digit newline" using hex_text_digits by blast
  then show False by (simp add: is_hex_digit_def newline_def)
qed

lemma frame_text_facts:
  assumes "i < 9" and "length fr = frame_size"
  shows "newline \<notin> set (frame_text (of_nat (Suc i)) (format fr))"
    "take 8 (frame_text (of_nat (Suc i)) (format fr)) = ''TLFRAME ''"
    "hex_value (drop 13 (frame_text (of_nat (Suc i)) (format fr))) = fr"
proof -
  have "unat (of_nat (Suc i) :: u32) = Suc i"
    using assms(1) by (simp add: unsigned_of_nat take_bit_nat_eq_self del: of_nat_Suc)
  then have pad: "length (pad4 (show_nat (unat (of_nat (Suc i) :: u32)))) = 4"
    using assms(1) by (cases "Suc i < 10") (simp_all add: pad4_def show_nat.simps [of "Suc i"])
  have hex: "c_string (format fr) = hex_text fr"
    using format_eq [OF assms(2)] c_string_hex [of fr "[]"] by simp
  show "newline \<notin> set (frame_text (of_nat (Suc i)) (format fr))"
    unfolding frame_text_def hex using hex_not_newline [of fr]
    by (simp add: pad4_def) (simp add: newline_def)
  show "take 8 (frame_text (of_nat (Suc i)) (format fr)) = ''TLFRAME ''"
    by (simp add: frame_text_def)
  have "drop 13 (frame_text (of_nat (Suc i)) (format fr)) = hex_text fr"
    using pad by (simp add: frame_text_def hex drop_append del: of_nat_Suc)
  then show "hex_value (drop 13 (frame_text (of_nat (Suc i)) (format fr))) = fr"
    by (simp add: hex_value_text)
qed

definition frame_texts :: "string list" where
  "frame_texts = map (\<lambda>(i, fr). frame_text (of_nat (Suc i)) (format fr)) (enumerate 0 encoded)"

definition final_texts :: "string list" where
  "final_texts =
     [''TLFIRMWARE SUMMARY produced=8 transmitted=8 queue_errors=0'', ''TLFIRMWARE DONE'']"

lemma console_as_lines: "lines_of encoded @ final_text = unlines (frame_texts @ final_texts)"
  by (simp add: lines_of_def unlines_def final_text_def frame_line_text newline_def frame_texts_def
      final_texts_def case_prod_unfold comp_def)

lemma encoded_entry:
  assumes "(i, fr) \<in> set (enumerate 0 encoded)"
  shows "i < 8" "fr = encoded ! i" "length fr = frame_size"
  using assms by (auto simp: in_set_enumerate_eq encoded_def)

lemma received_console: "received (lines_of encoded @ final_text) = encoded"
proof -
  have enc: "i < 9 \<and> length fr = frame_size" if "(i, fr) \<in> set (enumerate 0 encoded)" for i fr
    using encoded_entry [OF that] by simp
  have "\<forall>l \<in> set (frame_texts @ final_texts). newline \<notin> set l"
    using enc frame_text_facts(1)
    by (auto simp: frame_texts_def final_texts_def) (auto simp: newline_def)
  then have lines: "lines_in (lines_of encoded @ final_text) = frame_texts @ final_texts"
    by (simp only: console_as_lines lines_in_unlines)
  have "filter (\<lambda>l. take 8 l = ''TLFRAME '') (frame_texts @ final_texts) = frame_texts"
    using enc frame_text_facts(2) by (auto simp: frame_texts_def final_texts_def filter_id_conv)
  then have "received (lines_of encoded @ final_text) = map (\<lambda>l. hex_value (drop 13 l)) frame_texts"
    by (simp only: received_def lines)
  also have "\<dots> = map snd (enumerate 0 encoded)"
    unfolding frame_texts_def map_map by (rule map_cong) (use enc frame_text_facts(3) in auto)
  finally show ?thesis by simp
qed

subsection \<open>The received frames on the host\<close>

lemma encoded_decodes: "map (\<lambda>bs. frame (deserialize bs)) encoded = map Some sensor_frames"
proof -
  have "frame (deserialize (serialize (sensor_frame k))) = Some (sensor_frame k)" if "k < 8" for k
    using payload_size_sensor [OF that]
    by (simp add: serialize_eq_layout deserialize_layout frame_eqI)
  then show ?thesis
    by (simp add: encoded_def sensor_frames_def deterministic_sample_count_def)
qed

lemma encoded_valid: "filter valid_frame encoded = encoded" "map decoded encoded = sensor_frames"
proof -
  have all: "frame (deserialize (encoded ! k)) = Some (sensor_frames ! k)" if "k < 8" for k
    using arg_cong [OF encoded_decodes, of "\<lambda>xs. xs ! k"] that by simp
  then have "valid_frame (encoded ! k)" if "k < 8" for k
    using that by (simp add: valid_frame_def has_value_def)
  then show "filter valid_frame encoded = encoded"
    by (auto simp: filter_id_conv in_set_conv_nth)
  show "map decoded encoded = sensor_frames"
    using all by (intro nth_equalityI) (simp_all add: decoded_def)
qed

definition received_snapshot :: TelemetryMetricsSnapshot where
  "received_snapshot =
     \<lparr>inputs_received = 8, frames_accepted = 8, frames_rejected = 0, queue_closed_rejections = 0,
      frames_processed = 8,
      parse_errors =
        \<lparr>invalid_frame_size = 0, invalid_magic = 0, unsupported_version = 0,
         unsupported_message_type = 0, invalid_payload_size = 0, checksum_mismatch = 0\<rparr>,
      first_sequence = Some 1000, last_sequence = Some 1007, missing_sequences = 0,
      duplicate_sequences = 0, out_of_order_sequences = 0, sensor_warnings = 2,
      voltage_warnings = 2, communication_warnings = 2, watchdog_events = 2,
      minimum_temperature_millicelsius = Some (- 5500),
      maximum_temperature_millicelsius = Some 45000, temperature_sum_millicelsius = 152000,
      minimum_supply_millivolts = Some 2800, maximum_supply_millivolts = Some 3350,
      supply_sum_millivolts = 25050\<rparr>"

lemma received_metrics: "snapshot (final_metrics encoded) = received_snapshot"
proof -
  have "ingested encoded = concat (map (\<lambda>_. [Ev_input, Ev_accepted]) encoded)"
    using encoded_valid(1)
    by (auto simp: ingested_def input_events_def filter_id_conv intro!: arg_cong [where f = concat])
  also have "map (\<lambda>_. [Ev_input, Ev_accepted]) encoded = replicate 8 [Ev_input, Ev_accepted]"
    by (simp add: map_replicate_const)
  finally have "fold record_ingest (ingested encoded) new_metrics
      = new_metrics\<lparr>inputs_received' := 8, frames_accepted' := 8\<rparr>"
    by (simp add: numeral_eq_Suc ingest_defs new_metrics_def)
  moreover have "snapshot (fold record_processed sensor_frames
      (new_metrics\<lparr>inputs_received' := 8, frames_accepted' := 8\<rparr>)) = received_snapshot"
    by (simp add: sensor_frames_def deterministic_sample_count_def upt_rec sensor_frame_def
        next_frame_def has_next_iff samples_def sample_def combine_flags_def initial_sequence_def
        initial_timestamp_microseconds_def timestamp_increment_microseconds_def
        record_processed_def record_sequence_def record_flags_eq has_flag_def
        record_temperature_def record_supply_def min_i32_def max_i32_def Let_def new_metrics_def
        snapshot_def received_snapshot_def)
  ultimately show ?thesis by (simp add: final_metrics_def encoded_valid)
qed

end
