(* ===== verification/Simulated_Source.thy ===== *)
theory Simulated_Source
  imports Host_Ingestor
begin

unbundle bit_operations_syntax

text \<open>
  The deterministic scenario of the host, \<^verbatim>\<open>host/src/simulated_frame_source.cpp\<close>: eight frames
  built by \<open>make_raw_frame\<close>, seven damaged copies, in the order in which \<^verbatim>\<open>generate\<close> returns
  them. The lemmas say what the decoder answers on each of the fifteen inputs. They do not
  evaluate a checksum: the undamaged frames decode by the round trip of the protocol, and the
  damaged ones are rejected by the checks of the header or by the burst detection of the CRC.
\<close>

subsection \<open>The code\<close>

definition simulated_input_count :: nat where
  "simulated_input_count = 15"

definition simulated_valid_frame_count :: nat where
  "simulated_valid_frame_count = 8"

definition simulated_frame :: "u32 \<Rightarrow> i32 \<Rightarrow> u16 \<Rightarrow> u16 \<Rightarrow> TelemetryFrame" where
  "simulated_frame seq temperature supply flags =
     \<lparr>header =
        \<lparr>version = v1, message_type = telemetry_sample, payload_size = telemetry_payload_size,
         sequence = seq, timestamp_microseconds = 1000000 + ucast seq\<rparr>,
      payload =
        \<lparr>temperature_millicelsius = temperature, pressure_pascal = 100000 + seq,
         supply_millivolts = supply, status_flags = flags\<rparr>\<rparr>"

definition make_raw_frame :: "u32 \<Rightarrow> i32 \<Rightarrow> u16 \<Rightarrow> u16 \<Rightarrow> bytes" where
  "make_raw_frame seq temperature supply flags =
     serialize (simulated_frame seq temperature supply flags)"

definition generate :: "bytes list" where
  "generate =
     (let sensor = flag_value sensor_warning;
          voltage = flag_value voltage_warning;
          communication = flag_value communication_warning;
          watchdog = flag_value watchdog_event;
          valid_100 = make_raw_frame 100 (- 5000) 3000 sensor;
          valid_101 = make_raw_frame 101 0 3100 voltage;
          valid_103_communication = make_raw_frame 103 10000 3200 communication;
          valid_103_watchdog = make_raw_frame 103 20000 3300 watchdog;
          valid_102 = make_raw_frame 102 (- 10000) 2900 (sensor OR voltage);
          valid_104 = make_raw_frame 104 30000 3400 (communication OR watchdog);
          valid_105 = make_raw_frame 105 5000 3500 (flag_value SF_none);
          valid_106 = make_raw_frame 106 15000 3600 (sensor OR voltage OR communication OR watchdog);
          invalid_magic = valid_100[0 := 0x00];
          invalid_version = valid_101[version_offset := 0x02];
          invalid_type = valid_103_communication[message_type_offset := 0x02];
          invalid_payload_size = valid_103_watchdog[payload_size_offset + 1 := 0x0B];
          corrupted_payload = valid_104[temperature_offset := valid_104 ! temperature_offset XOR 0x01];
          corrupted_crc = valid_105[crc_offset + crc_size - 1 :=
            valid_105 ! (crc_offset + crc_size - 1) XOR 0x01];
          truncated = butlast valid_106
      in [valid_100, invalid_magic, valid_101, invalid_version, valid_103_communication, invalid_type,
          valid_103_watchdog, invalid_payload_size, valid_102, corrupted_payload, valid_104,
          corrupted_crc, valid_105, truncated, valid_106])"

subsection \<open>What the decoder answers\<close>

lemma raw_frame_layout: "make_raw_frame q t v w = frame_layout (simulated_frame q t v w)"
  by (simp add: make_raw_frame_def serialize_eq_layout)

lemma raw_frame_decodes:
  "deserialize (make_raw_frame q t v w) = \<lparr>frame = Some (simulated_frame q t v w), error = PE_none\<rparr>"
  by (simp add: raw_frame_layout deserialize_layout simulated_frame_def telemetry_payload_size_def)

lemmas damaged_simps = take_update_swap drop_update_swap layout_fields layout_fields [simplified]
  list_update_beyond version_offset_def message_type_offset_def payload_size_offset_def be_encode_u16

lemma damaged_magic: "deserialize ((frame_layout f)[0 := 0]) = failure PE_invalid_magic"
  by (subst deserialize_cases) (simp_all add: damaged_simps)

lemma damaged_version:
  "deserialize ((frame_layout f)[version_offset := 2]) = failure PE_unsupported_version"
  by (subst deserialize_cases) (simp_all add: damaged_simps)

lemma damaged_type:
  "deserialize ((frame_layout f)[message_type_offset := 2]) = failure PE_unsupported_message_type"
  by (subst deserialize_cases) (simp_all add: damaged_simps)

lemma damaged_payload_size:
  "deserialize ((frame_layout f)[payload_size_offset + 1 := 0x0B]) = failure PE_invalid_payload_size"
  by (subst deserialize_cases) (simp_all add: damaged_simps)

lemma damaged_byte:
  assumes "6 \<le> i" and "i < 34" and "v \<noteq> 0"
  shows "error (deserialize ((frame_layout f)[i := frame_layout f ! i XOR v])) = PE_checksum_mismatch"
proof -
  let ?bs = "frame_layout f" and ?start = "if i < 30 then min i 26 else 30"
  have "has_value (deserialize ?bs)" by (simp add: has_value_def deserialize_layout)
  moreover have "?bs ! i \<noteq> ?bs[i := ?bs ! i XOR v] ! i"
    using assms xor_cancel_left [of "?bs ! i" 0 v] by simp
  then have "?bs \<noteq> ?bs[i := ?bs ! i XOR v]" by auto
  moreover have "\<forall>j < length ?bs. j < ?start \<or> ?start + 4 \<le> j \<longrightarrow> ?bs ! j = ?bs[i := ?bs ! i XOR v] ! j"
    using assms by (auto simp: nth_list_update)
  moreover have "?start + 4 \<le> crc_offset \<or> crc_offset \<le> ?start" and "6 \<le> ?start"
    using assms by (simp_all add: crc_offset_def)
  ultimately show ?thesis
    using corruption_detected [of ?bs "?bs[i := ?bs ! i XOR v]" ?start] by simp
qed

lemma truncated_size: "deserialize (butlast (frame_layout f)) = failure PE_invalid_frame_size"
  by (rule deserialize_wrong_size) simp

definition expected_errors :: "ParseError list" where
  "expected_errors =
     [PE_none, PE_invalid_magic, PE_none, PE_unsupported_version, PE_none, PE_unsupported_message_type,
      PE_none, PE_invalid_payload_size, PE_none, PE_checksum_mismatch, PE_none, PE_checksum_mismatch,
      PE_none, PE_invalid_frame_size, PE_none]"

definition expected_frames :: "TelemetryFrame list" where
  "expected_frames =
     [simulated_frame 100 (- 5000) 3000 1, simulated_frame 101 0 3100 2,
      simulated_frame 103 10000 3200 4, simulated_frame 103 20000 3300 8,
      simulated_frame 102 (- 10000) 2900 3, simulated_frame 104 30000 3400 12,
      simulated_frame 105 5000 3500 0, simulated_frame 106 15000 3600 15]"

lemma generate_errors: "map (\<lambda>bs. error (deserialize bs)) generate = expected_errors"
  by (simp add: generate_def expected_errors_def Let_def raw_frame_decodes raw_frame_layout
      deserialize_layout damaged_magic damaged_version damaged_type damaged_payload_size [simplified]
      truncated_size failure_def)
    (simp add: damaged_byte temperature_offset_def crc_offset_def crc_size_def)

lemma valid_raw [simp]: "valid_frame (make_raw_frame q t v w)"
  by (simp add: valid_frame_error raw_frame_decodes)

lemma decoded_raw [simp]: "decoded (make_raw_frame q t v w) = simulated_frame q t v w"
  by (simp add: decoded_def raw_frame_decodes)

lemma damaged_invalid:
  "\<not> valid_frame ((make_raw_frame q t v w)[0 := 0])"
  "\<not> valid_frame ((make_raw_frame q t v w)[version_offset := 2])"
  "\<not> valid_frame ((make_raw_frame q t v w)[message_type_offset := 2])"
  "\<not> valid_frame ((make_raw_frame q t v w)[payload_size_offset + 1 := 0x0B])"
  "\<not> valid_frame (butlast (make_raw_frame q t v w))"
  by (simp_all only: raw_frame_layout valid_frame_error damaged_magic damaged_version damaged_type
      damaged_payload_size truncated_size failure_def ParseResult.simps) simp_all

lemma damaged_byte_invalid:
  "6 \<le> i \<Longrightarrow> i < 34 \<Longrightarrow> \<not> valid_frame ((make_raw_frame q t v w)[i := make_raw_frame q t v w ! i XOR 1])"
  by (simp add: raw_frame_layout valid_frame_error damaged_byte)

lemma generate_decoded: "map decoded (filter valid_frame generate) = expected_frames"
  unfolding generate_def Let_def
  by (simp add: damaged_invalid damaged_invalid(4) [simplified] damaged_byte_invalid
      temperature_offset_def crc_offset_def crc_size_def expected_frames_def)

definition events_of_error :: "ParseError \<Rightarrow> IngestEvent list" where
  "events_of_error e = (if e = PE_none then [Ev_input, Ev_accepted] else [Ev_input, Ev_rejected e])"

lemma ingested_by_error:
  "ingested inputs = concat (map events_of_error (map (\<lambda>bs. error (deserialize bs)) inputs))"
proof -
  have "input_events = (\<lambda>bs. events_of_error (error (deserialize bs)))"
    by (rule ext) (simp add: input_events_def events_of_error_def valid_frame_error)
  then show ?thesis by (simp add: ingested_def comp_def)
qed

subsection \<open>Properties\<close>

text \<open>The scenario is the documented one: fifteen inputs, eight of them valid, on which the
  decoder reports the documented errors, and the valid ones decode to frames with the sequence
  numbers 100, 101, 103, 103, 102, 104, 105, 106.\<close>

theorem scenario_is_as_documented:
  "length generate = simulated_input_count
    \<and> length (filter valid_frame generate) = simulated_valid_frame_count
    \<and> map (\<lambda>bs. error (deserialize bs)) generate = expected_errors
    \<and> map (\<lambda>f. sequence (header f)) (map decoded (filter valid_frame generate))
      = [100, 101, 103, 103, 102, 104, 105, 106]"
proof -
  have "length (filter valid_frame generate) = length expected_frames"
    by (simp flip: generate_decoded)
  then show ?thesis
    unfolding generate_decoded
    by (simp add: generate_errors simulated_input_count_def simulated_valid_frame_count_def
        expected_frames_def simulated_frame_def) (simp add: generate_def Let_def)
qed

end
