(* ===== verification/Sequence_Analysis.thy ===== *)
theory Sequence_Analysis
  imports Main
begin

text \<open>
  The reference for the host's sequence policy (\<^verbatim>\<open>docs/HOST_PIPELINE.md\<close>, section on
  sequences), over unbounded numbers. For the list \<open>xs\<close> of sequence numbers in processing order:

  \<^item> \<open>peak xs\<close>: the highest number; \<open>highest xs i\<close>: the highest one before position \<open>i\<close>;
  \<^item> \<open>advances\<close>, \<open>duplicates\<close>, \<open>late\<close>: the positions after the first whose number is above, equal
    to, or below the highest number before it;
  \<^item> \<open>front\<close>: the numbers that advanced the sequence, the first included;
  \<^item> \<open>skipped\<close>: the numbers between the first and the highest that never advanced it.
\<close>

definition peak :: "nat list \<Rightarrow> nat" where
  "peak xs = Max (set xs)"

definition highest :: "nat list \<Rightarrow> nat \<Rightarrow> nat" where
  "highest xs i = peak (take i xs)"

definition advances :: "nat list \<Rightarrow> nat list" where
  "advances xs = filter (\<lambda>i. highest xs i < xs ! i) [1..<length xs]"

definition duplicates :: "nat list \<Rightarrow> nat list" where
  "duplicates xs = filter (\<lambda>i. xs ! i = highest xs i) [1..<length xs]"

definition late :: "nat list \<Rightarrow> nat list" where
  "late xs = filter (\<lambda>i. xs ! i < highest xs i) [1..<length xs]"

definition front :: "nat list \<Rightarrow> nat set" where
  "front xs = insert (hd xs) ((!) xs ` set (advances xs))"

definition skipped :: "nat list \<Rightarrow> nat set" where
  "skipped xs = {hd xs..peak xs} - front xs"

subsection \<open>One more number\<close>

lemma filter_positions_snoc:
  assumes "xs \<noteq> []" "\<And>i. 1 \<le> i \<Longrightarrow> i < length xs \<Longrightarrow> Q i = P i"
  shows "filter Q [1..<length (xs @ [x])] = filter P [1..<length xs] @ (if Q (length xs) then [length xs] else [])"
proof -
  have "[1..<length (xs @ [x])] = [1..<length xs] @ [length xs]"
    using assms(1) by (cases xs) simp_all
  moreover have "filter Q [1..<length xs] = filter P [1..<length xs]"
    using assms(2) by (intro filter_cong) auto
  ultimately show ?thesis by simp
qed

lemma highest_snoc: "i \<le> length xs \<Longrightarrow> highest (xs @ [x]) i = highest xs i"
  by (simp add: highest_def)

lemma peak_single [simp]: "peak [x] = x"
  by (simp add: peak_def)

lemma peak_snoc: "xs \<noteq> [] \<Longrightarrow> peak (xs @ [x]) = max (peak xs) x"
  by (simp add: peak_def max.commute)

lemma peak_in: "xs \<noteq> [] \<Longrightarrow> peak xs \<in> set xs"
  by (simp add: peak_def)

lemma hd_le_peak: "xs \<noteq> [] \<Longrightarrow> hd xs \<le> peak xs"
  by (simp add: peak_def)

lemma highest_all: "highest (xs @ [x]) (length xs) = peak xs"
  by (simp add: highest_def)

lemma advances_snoc:
  "xs \<noteq> [] \<Longrightarrow> advances (xs @ [x]) = advances xs @ (if peak xs < x then [length xs] else [])"
  unfolding advances_def
  by (subst filter_positions_snoc) (auto simp: highest_snoc highest_all nth_append)

lemma duplicates_snoc:
  "xs \<noteq> [] \<Longrightarrow> duplicates (xs @ [x]) = duplicates xs @ (if x = peak xs then [length xs] else [])"
  unfolding duplicates_def
  by (subst filter_positions_snoc) (auto simp: highest_snoc highest_all nth_append)

lemma late_snoc:
  "xs \<noteq> [] \<Longrightarrow> late (xs @ [x]) = late xs @ (if x < peak xs then [length xs] else [])"
  unfolding late_def
  by (subst filter_positions_snoc) (auto simp: highest_snoc highest_all nth_append)

lemma single [simp]:
  "advances [x] = []" "duplicates [x] = []" "late [x] = []" "front [x] = {x}" "skipped [x] = {}"
  by (simp_all add: advances_def duplicates_def late_def front_def skipped_def)

lemma set_advances: "set (advances xs) \<subseteq> {1..<length xs}"
  by (auto simp: advances_def)

lemma front_snoc:
  assumes "xs \<noteq> []"
  shows "front (xs @ [x]) = front xs \<union> (if peak xs < x then {x} else {})"
proof -
  have "(!) (xs @ [x]) ` set (advances xs) = (!) xs ` set (advances xs)"
    by (rule image_cong) (auto simp: nth_append advances_def)
  with assms show ?thesis
    by (cases "peak xs < x") (simp_all add: front_def advances_snoc insert_commute)
qed

lemma front_bounds: "xs \<noteq> [] \<Longrightarrow> front xs \<subseteq> {hd xs..peak xs}"
proof (induction xs rule: rev_induct)
  case Nil
  then show ?case by simp
next
  case (snoc x xs)
  show ?case
  proof (cases "xs = []")
    case True
    then show ?thesis by simp
  next
    case False
    with snoc hd_le_peak [OF False] show ?thesis by (auto simp: front_snoc peak_snoc)
  qed
qed

lemma finite_front [simp]: "finite (front xs)"
  by (simp add: front_def)

lemma front_subset: "xs \<noteq> [] \<Longrightarrow> front xs \<subseteq> set xs"
  using set_advances [of xs] by (auto simp: front_def)

lemma card_front: "xs \<noteq> [] \<Longrightarrow> card (front xs) = Suc (length (advances xs))"
proof (induction xs rule: rev_induct)
  case Nil
  then show ?case by simp
next
  case (snoc x xs)
  show ?case
  proof (cases "xs = []")
    case True
    then show ?thesis by simp
  next
    case False
    then have "peak xs < x \<Longrightarrow> x \<notin> front xs" using front_bounds [of xs] by auto
    with snoc False show ?thesis by (simp add: front_snoc advances_snoc)
  qed
qed

lemma skipped_snoc:
  assumes "xs \<noteq> []"
  shows "skipped (xs @ [x]) = skipped xs \<union> {peak xs <..< x}"
  using assms front_bounds [OF assms] hd_le_peak [OF assms]
  by (auto simp: skipped_def front_snoc peak_snoc)

lemma card_skipped_snoc:
  assumes "xs \<noteq> []"
  shows "card (skipped (xs @ [x])) = card (skipped xs) + (x - peak xs - 1)"
proof -
  have "skipped xs \<inter> {peak xs <..< x} = {}" by (auto simp: skipped_def)
  then show ?thesis
    unfolding skipped_snoc [OF assms] by (subst card_Un_disjoint) (auto simp: skipped_def)
qed

subsection \<open>Counting\<close>

lemma positions_partition:
  "length xs - 1 = length (advances xs) + length (duplicates xs) + length (late xs)"
proof (induction xs rule: rev_induct)
  case Nil
  then show ?case by (simp add: advances_def duplicates_def late_def)
next
  case (snoc x xs)
  then show ?case
    by (cases xs) (auto simp: advances_snoc duplicates_snoc late_snoc simp flip: append_Cons)
qed

lemma increasing_sequence:
  assumes "sorted_wrt (<) xs" and "xs \<noteq> []"
  shows "peak xs = last xs \<and> duplicates xs = [] \<and> late xs = []"
  using assms
proof (induction xs rule: rev_induct)
  case (snoc x xs)
  show ?case
  proof (cases "xs = []")
    case False
    with snoc have "peak xs = last xs" "last xs < x" by (auto simp: sorted_wrt_append)
    then have "x \<noteq> last xs" "\<not> x < last xs" by simp_all
    with False snoc \<open>peak xs = last xs\<close> show ?thesis
      by (simp add: peak_snoc duplicates_snoc late_snoc sorted_wrt_append)
  qed simp
qed simp

lemma card_skipped:
  assumes "xs \<noteq> []"
  shows "card (skipped xs) + length (advances xs) = peak xs - hd xs"
proof -
  have "card (skipped xs) = card {hd xs..peak xs} - card (front xs)"
    unfolding skipped_def using front_bounds [OF assms] by (simp add: card_Diff_subset)
  moreover have "card (front xs) \<le> card {hd xs..peak xs}"
    using front_bounds [OF assms] by (intro card_mono) simp_all
  ultimately show ?thesis using card_front [OF assms] hd_le_peak [OF assms] by simp
qed

text \<open>
  The numbers between the first and the highest that never arrived are all skipped; a skipped
  number that did arrive arrived late.
\<close>

lemma absent_subset_skipped: "xs \<noteq> [] \<Longrightarrow> {hd xs..peak xs} - set xs \<subseteq> skipped xs"
  using front_subset [of xs] by (auto simp: skipped_def)

lemma arrived_front_or_late: "set xs \<subseteq> front xs \<union> (!) xs ` set (late xs)"
proof (induction xs rule: rev_induct)
  case Nil
  then show ?case by simp
next
  case (snoc x xs)
  show ?case
  proof (cases "xs = []")
    case True
    then show ?thesis by simp
  next
    case False
    have late: "(!) (xs @ [x]) ` set (late xs) = (!) xs ` set (late xs)"
      by (rule image_cong) (auto simp: late_def nth_append)
    have "peak xs \<in> front xs" using False
    proof (induction xs rule: rev_induct)
      case (snoc y ys)
      then show ?case
        by (cases "ys = []") (auto simp: front_snoc peak_snoc max_def)
    qed simp
    then have "x \<in> front (xs @ [x]) \<union> (!) (xs @ [x]) ` set (late (xs @ [x]))"
      using False by (cases x "peak xs" rule: linorder_cases) (auto simp: front_snoc late_snoc)
    moreover have "front xs \<subseteq> front (xs @ [x])"
      using False by (simp add: front_snoc)
    moreover have "(!) xs ` set (late xs) \<subseteq> (!) (xs @ [x]) ` set (late (xs @ [x]))"
      unfolding late [symmetric] by (rule image_mono) (simp add: late_snoc False)
    moreover have "set xs \<subseteq> front xs \<union> (!) xs ` set (late xs)"
      using snoc by simp
    ultimately have "set xs \<subseteq> front (xs @ [x]) \<union> (!) (xs @ [x]) ` set (late (xs @ [x]))"
      by (meson Un_mono order_trans)
    then show ?thesis
      using \<open>x \<in> front (xs @ [x]) \<union> (!) (xs @ [x]) ` set (late (xs @ [x]))\<close> by simp
  qed
qed

lemma skipped_subset_absent_late:
  "skipped xs \<subseteq> ({hd xs..peak xs} - set xs) \<union> (!) xs ` set (late xs)"
  using arrived_front_or_late [of xs] by (auto simp: skipped_def)

lemma card_skipped_bounds:
  assumes "xs \<noteq> []"
  shows "card ({hd xs..peak xs} - set xs) \<le> card (skipped xs)"
    and "card (skipped xs) \<le> card ({hd xs..peak xs} - set xs) + length (late xs)"
proof -
  show "card ({hd xs..peak xs} - set xs) \<le> card (skipped xs)"
    using absent_subset_skipped [OF assms] by (intro card_mono) (simp_all add: skipped_def)
  have "card (skipped xs) \<le> card (({hd xs..peak xs} - set xs) \<union> (!) xs ` set (late xs))"
    using skipped_subset_absent_late by (intro card_mono) simp_all
  also have "\<dots> \<le> card ({hd xs..peak xs} - set xs) + card ((!) xs ` set (late xs))"
    by (rule card_Un_le)
  also have "card ((!) xs ` set (late xs)) \<le> length (late xs)"
    by (meson card_image_le card_length le_trans finite_set)
  finally show "card (skipped xs) \<le> card ({hd xs..peak xs} - set xs) + length (late xs)"
    by simp
qed

end
