(* ===== verification/Processing_Summary.thy ===== *)
theory Processing_Summary
  imports Host_Metrics Sequence_Analysis
begin

unbundle bit_operations_syntax

text \<open>
  The processing statistics of the host against their meaning. \<open>summary_of\<close> says what the
  statistics of a list of processed frames are, over unbounded numbers; \<open>summary\<close> reads a
  \<open>TelemetryMetrics\<close> object as such numbers. The refinement: processing any list of fewer than
  \<open>2 ^ 32\<close> frames leaves an object whose reading is the summary of the list, so no counter
  wraps and no sum overflows up to that bound.

  The proof goes through four independent views of the object (counters, sequence, temperature,
  supply voltage), each updated by one part of \<^verbatim>\<open>record_processed\<close>.
\<close>

subsection \<open>The reference\<close>

record ProcessingSummary =
  sum_processed :: nat
  sum_first :: "nat option"
  sum_last :: "nat option"
  sum_missing :: nat
  sum_duplicates :: nat
  sum_late :: nat
  sum_sensor :: nat
  sum_voltage :: nat
  sum_communication :: nat
  sum_watchdog :: nat
  sum_min_temperature :: "int option"
  sum_max_temperature :: "int option"
  sum_temperature :: int
  sum_min_supply :: "nat option"
  sum_max_supply :: "nat option"
  sum_supply :: nat

definition sequences :: "TelemetryFrame list \<Rightarrow> nat list" where
  "sequences fs = map (\<lambda>f. unat (sequence (header f))) fs"

definition temperatures :: "TelemetryFrame list \<Rightarrow> int list" where
  "temperatures fs = map (\<lambda>f. sint (temperature_millicelsius (payload f))) fs"

definition supplies :: "TelemetryFrame list \<Rightarrow> nat list" where
  "supplies fs = map (\<lambda>f. unat (supply_millivolts (payload f))) fs"

definition flag_count :: "StatusFlag \<Rightarrow> TelemetryFrame list \<Rightarrow> nat" where
  "flag_count s fs = length (filter (\<lambda>f. has_flag (status_flags (payload f)) s) fs)"

definition unless_empty :: "'a list \<Rightarrow> 'b \<Rightarrow> 'b option" where
  "unless_empty xs y = (if xs = [] then None else Some y)"

definition summary_of :: "TelemetryFrame list \<Rightarrow> ProcessingSummary" where
  "summary_of fs =
     \<lparr>sum_processed = length fs,
      sum_first = unless_empty fs (hd (sequences fs)),
      sum_last = unless_empty fs (peak (sequences fs)),
      sum_missing = (if fs = [] then 0 else card (skipped (sequences fs))),
      sum_duplicates = length (duplicates (sequences fs)),
      sum_late = length (late (sequences fs)),
      sum_sensor = flag_count sensor_warning fs,
      sum_voltage = flag_count voltage_warning fs,
      sum_communication = flag_count communication_warning fs,
      sum_watchdog = flag_count watchdog_event fs,
      sum_min_temperature = unless_empty fs (Min (set (temperatures fs))),
      sum_max_temperature = unless_empty fs (Max (set (temperatures fs))),
      sum_temperature = sum_list (temperatures fs),
      sum_min_supply = unless_empty fs (Min (set (supplies fs))),
      sum_max_supply = unless_empty fs (Max (set (supplies fs))),
      sum_supply = sum_list (supplies fs)\<rparr>"

definition summary :: "TelemetryMetrics \<Rightarrow> ProcessingSummary" where
  "summary m =
     \<lparr>sum_processed = unat (frames_processed' m),
      sum_first = map_option unat (first_sequence' m),
      sum_last = map_option unat (last_sequence' m),
      sum_missing = unat (missing_sequences' m),
      sum_duplicates = unat (duplicate_sequences' m),
      sum_late = unat (out_of_order_sequences' m),
      sum_sensor = unat (sensor_warnings' m),
      sum_voltage = unat (voltage_warnings' m),
      sum_communication = unat (communication_warnings' m),
      sum_watchdog = unat (watchdog_events' m),
      sum_min_temperature = map_option sint (minimum_temperature_millicelsius' m),
      sum_max_temperature = map_option sint (maximum_temperature_millicelsius' m),
      sum_temperature = sint (temperature_sum_millicelsius' m),
      sum_min_supply = map_option unat (minimum_supply_millivolts' m),
      sum_max_supply = map_option unat (maximum_supply_millivolts' m),
      sum_supply = unat (supply_sum_millivolts' m)\<rparr>"

subsection \<open>Views\<close>

type_synonym sequence_view = "u32 option \<times> u32 option \<times> u64 \<times> u64 \<times> u64"

definition sequence_view :: "TelemetryMetrics \<Rightarrow> sequence_view" where
  "sequence_view m = (first_sequence' m, last_sequence' m, missing_sequences' m,
     duplicate_sequences' m, out_of_order_sequences' m)"

fun sequence_update :: "u32 \<Rightarrow> sequence_view \<Rightarrow> sequence_view" where
  "sequence_update q (None, l, ms, d, r) = (Some q, Some q, ms, d, r)"
| "sequence_update q (Some p, l, ms, d, r) =
     (if q = the l then (Some p, l, ms, d + 1, r)
      else if q > the l then
        (Some p, Some q, (if q - the l > 1 then ms + ucast (q - the l - 1) else ms), d, r)
      else (Some p, l, ms, d, r + 1))"

definition temperature_view :: "TelemetryMetrics \<Rightarrow> i32 option \<times> i32 option \<times> i64" where
  "temperature_view m = (minimum_temperature_millicelsius' m, maximum_temperature_millicelsius' m,
     temperature_sum_millicelsius' m)"

fun temperature_update :: "i32 \<Rightarrow> i32 option \<times> i32 option \<times> i64 \<Rightarrow> i32 option \<times> i32 option \<times> i64" where
  "temperature_update t (None, hi, s) = (Some t, Some t, s + scast t)"
| "temperature_update t (Some lo, hi, s) = (Some (min_i32 lo t), Some (max_i32 (the hi) t), s + scast t)"

definition supply_view :: "TelemetryMetrics \<Rightarrow> u16 option \<times> u16 option \<times> u64" where
  "supply_view m = (minimum_supply_millivolts' m, maximum_supply_millivolts' m,
     supply_sum_millivolts' m)"

fun supply_update :: "u16 \<Rightarrow> u16 option \<times> u16 option \<times> u64 \<Rightarrow> u16 option \<times> u16 option \<times> u64" where
  "supply_update v (None, hi, s) = (Some v, Some v, s + ucast v)"
| "supply_update v (Some lo, hi, s) = (Some (min lo v), Some (max (the hi) v), s + ucast v)"

lemmas view_defs = sequence_view_def temperature_view_def supply_view_def

lemma record_sequence_views:
  "sequence_view (record_sequence q m) = sequence_update q (sequence_view m)"
  "temperature_view (record_sequence q m) = temperature_view m"
  "supply_view (record_sequence q m) = supply_view m"
  by (cases "first_sequence' m"; simp add: record_sequence_def view_defs Let_def)+

lemma record_flags_views:
  "sequence_view (record_flags w m) = sequence_view m"
  "temperature_view (record_flags w m) = temperature_view m"
  "supply_view (record_flags w m) = supply_view m"
  by (simp_all add: record_flags_def view_defs Let_def)

lemma record_temperature_views:
  "sequence_view (record_temperature t m) = sequence_view m"
  "temperature_view (record_temperature t m) = temperature_update t (temperature_view m)"
  "supply_view (record_temperature t m) = supply_view m"
  by (cases "minimum_temperature_millicelsius' m"; simp add: record_temperature_def view_defs)+

lemma record_supply_views:
  "sequence_view (record_supply v m) = sequence_view m"
  "temperature_view (record_supply v m) = temperature_view m"
  "supply_view (record_supply v m) = supply_update v (supply_view m)"
  by (cases "minimum_supply_millivolts' m"; simp add: record_supply_def view_defs)+

lemmas part_views = record_sequence_views record_flags_views record_temperature_views
  record_supply_views

lemma record_processed_views:
  "sequence_view (record_processed f m) = sequence_update (sequence (header f)) (sequence_view m)"
  "temperature_view (record_processed f m)
    = temperature_update (temperature_millicelsius (payload f)) (temperature_view m)"
  "supply_view (record_processed f m) = supply_update (supply_millivolts (payload f)) (supply_view m)"
  by (simp_all add: record_processed_def Let_def part_views)
    (simp_all add: view_defs)

definition counter_view :: "TelemetryMetrics \<Rightarrow> u64 \<times> u64 \<times> u64 \<times> u64 \<times> u64" where
  "counter_view m = (frames_processed' m, sensor_warnings' m, voltage_warnings' m,
     communication_warnings' m, watchdog_events' m)"

fun flags_update :: "u16 \<Rightarrow> u64 \<times> u64 \<times> u64 \<times> u64 \<times> u64 \<Rightarrow> u64 \<times> u64 \<times> u64 \<times> u64 \<times> u64" where
  "flags_update w (n, s, v, c, d) =
     (n, s + of_bool (has_flag w sensor_warning), v + of_bool (has_flag w voltage_warning),
      c + of_bool (has_flag w communication_warning), d + of_bool (has_flag w watchdog_event))"

lemma counter_views:
  "counter_view (record_sequence q m) = counter_view m"
  "counter_view (record_flags w m) = flags_update w (counter_view m)"
  "counter_view (record_temperature t m) = counter_view m"
  "counter_view (record_supply v m) = counter_view m"
  "counter_view (m\<lparr>frames_processed' := n\<rparr>) = (n, snd (counter_view m))"
  by (simp_all add: counter_view_def record_sequence_def record_flags_def record_temperature_def
      record_supply_def Let_def)

lemma record_processed_counters:
  "counter_view (record_processed f m)
    = flags_update (status_flags (payload f)) (frames_processed' m + 1, snd (counter_view m))"
  by (simp add: record_processed_def Let_def counter_views)

subsection \<open>The four views of a processed list\<close>

text \<open>The processing of a list of frames, in order, by \<^verbatim>\<open>record_processed\<close>.\<close>

abbreviation process_all :: "TelemetryFrame list \<Rightarrow> TelemetryMetrics \<Rightarrow> TelemetryMetrics" where
  "process_all fs m \<equiv> fold record_processed fs m"

lemma counters_of_list:
  assumes "counter_view m = (0, 0, 0, 0, 0)" and "length fs < 2 ^ 64"
  shows "\<exists>n s v c d. counter_view (process_all fs m) = (n, s, v, c, d) \<and> unat n = length fs
    \<and> unat s = flag_count sensor_warning fs \<and> unat v = flag_count voltage_warning fs
    \<and> unat c = flag_count communication_warning fs \<and> unat d = flag_count watchdog_event fs"
  using assms(2)
proof (induction fs rule: rev_induct)
  case Nil
  then show ?case using assms(1) by (simp add: flag_count_def)
next
  case (snoc f fs)
  then obtain n s v c d where IH: "counter_view (process_all fs m) = (n, s, v, c, d)"
      "unat n = length fs" "unat s = flag_count sensor_warning fs"
      "unat v = flag_count voltage_warning fs" "unat c = flag_count communication_warning fs"
      "unat d = flag_count watchdog_event fs" by auto
  have n: "frames_processed' (process_all fs m) = n"
    using IH(1) by (simp add: counter_view_def)
  have bound: "flag_count x fs \<le> length fs" for x by (simp add: flag_count_def)
  have inc: "unat (w + of_bool b :: u64) = k + of_bool b"
    if "unat w = k" "k \<le> length fs" for w :: u64 and b k
    using that snoc.prems unat_plus_one [of w] by (cases b) simp_all
  have count: "flag_count x (fs @ [f]) = flag_count x fs + of_bool (has_flag (status_flags (payload f)) x)" for x
    by (simp add: flag_count_def)
  show ?case
    using IH(1) inc [OF IH(3) bound] inc [OF IH(4) bound] inc [OF IH(5) bound] inc [OF IH(6) bound]
      inc [of n "length fs" True] IH(2) by (simp add: record_processed_counters n count)
qed

text \<open>The numbers between the last one and a higher one are added to the missing ones.\<close>

lemma missing_update:
  fixes l q :: u32 and ms :: u64
  assumes up: "l < q" and fits: "unat ms + (unat q - unat l - 1) < 2 ^ 64"
  shows "unat (if 1 < q - l then ms + ucast (q - l - 1) else ms) = unat ms + (unat q - unat l - 1)"
proof (cases "1 < q - l")
  case True
  have dist: "unat (q - l) = unat q - unat l" using up by (simp add: unat_sub less_imp_le)
  then have "unat (q - l - 1) = unat q - unat l - 1"
    using True by (simp add: unat_sub less_imp_le)
  then have "unat (ucast (q - l - 1) :: u64) = unat q - unat l - 1" by (simp add: unat_ucast_up)
  with True fits show ?thesis by (simp add: unat_word_ariths)
next
  case False
  have "unat (q - l) = unat q - unat l" using up by (simp add: unat_sub less_imp_le)
  with False have "unat q - unat l \<le> 1" by (simp add: word_less_nat_alt not_less)
  with False show ?thesis by simp
qed

lemma sequence_of_list:
  assumes "sequence_view m = (None, None, 0, 0, 0)" and "fs \<noteq> []" and "length fs < 2 ^ 32"
  shows "\<exists>p l ms d r. sequence_view (process_all fs m) = (Some p, Some l, ms, d, r)
    \<and> unat p = hd (sequences fs) \<and> unat l = peak (sequences fs)
    \<and> unat ms = card (skipped (sequences fs)) \<and> unat d = length (duplicates (sequences fs))
    \<and> unat r = length (late (sequences fs))"
  using assms(2,3)
proof (induction fs rule: rev_induct)
  case Nil
  then show ?case by simp
next
  case (snoc f fs)
  let ?q = "sequence (header f)" and ?xs = "sequences fs"
  have snoc_eq: "sequences (fs @ [f]) = ?xs @ [unat ?q]" by (simp add: sequences_def)
  show ?case
  proof (cases "fs = []")
    case True
    then show ?thesis
      using assms(1) by (simp add: record_processed_views sequences_def)
  next
    case False
    with snoc obtain p l ms d r where IH: "sequence_view (process_all fs m) = (Some p, Some l, ms, d, r)"
        "unat p = hd ?xs" "unat l = peak ?xs" "unat ms = card (skipped ?xs)"
        "unat d = length (duplicates ?xs)" "unat r = length (late ?xs)" by auto
    have xs: "?xs \<noteq> []" using False by (simp add: sequences_def)
    have small: "length (duplicates ?xs) + length (late ?xs) < 2 ^ 32"
      using positions_partition [of ?xs] snoc.prems by (simp add: sequences_def)
    have gap: "card (skipped ?xs) + (unat ?q - peak ?xs - 1) < 2 ^ 64"
    proof -
      have "card (skipped ?xs) \<le> peak ?xs" using card_skipped [OF xs] by simp
      moreover have "unat ?q < 2 ^ 32" "unat l < 2 ^ 32" using unsigned_less [of ?q] unsigned_less [of l] by simp_all
      ultimately show ?thesis using IH(3) by simp
    qed
    have step: "sequence_view (record_processed f (process_all fs m)) = sequence_update ?q (Some p, Some l, ms, d, r)"
      by (simp add: record_processed_views IH(1))
    note facts = snoc_eq peak_snoc [OF xs] card_skipped_snoc [OF xs] duplicates_snoc [OF xs] late_snoc [OF xs]
    consider (eq) "?q = l" | (up) "l < ?q" | (down) "?q < l" by (metis linorder_cases)
    then show ?thesis
    proof cases
      case eq
      have "unat (d + 1) = unat d + 1" using small IH(5) by (intro unat_plus_one) simp
      with eq show ?thesis using IH xs by (simp add: step facts)
    next
      case up
      then have lt: "unat l < unat ?q" by (simp add: word_less_nat_alt)
      have "unat (if 1 < ?q - l then ms + ucast (?q - l - 1) else ms)
          = card (skipped ?xs) + (unat ?q - peak ?xs - 1)"
        using missing_update [OF up, of ms] gap IH(3,4) by simp
      with up lt show ?thesis using IH xs by (auto simp: step facts)
    next
      case down
      then have "unat ?q < unat l" by (simp add: word_less_nat_alt)
      moreover have "unat (r + 1) = unat r + 1" using small IH(6) by (intro unat_plus_one) simp
      ultimately show ?thesis using IH xs down by (auto simp: step facts max_def)
    qed
  qed
qed

lemma temperature_of_list:
  assumes "temperature_view m = (None, None, 0)" and "fs \<noteq> []" and "length fs < 2 ^ 32"
  shows "\<exists>lo hi s. temperature_view (process_all fs m) = (Some lo, Some hi, s)
    \<and> sint lo = Min (set (temperatures fs)) \<and> sint hi = Max (set (temperatures fs))
    \<and> sint s = sum_list (temperatures fs)
    \<and> \<bar>sum_list (temperatures fs)\<bar> \<le> int (length fs) * 2 ^ 31"
  using assms(2,3)
proof (induction fs rule: rev_induct)
  case Nil
  then show ?case by simp
next
  case (snoc f fs)
  let ?t = "temperature_millicelsius (payload f)" and ?ts = "temperatures fs"
  have snoc_eq: "temperatures (fs @ [f]) = ?ts @ [sint ?t]" by (simp add: temperatures_def)
  show ?case
  proof (cases "fs = []")
    case True
    then show ?thesis
      using assms(1) sint_i32_bounds [of ?t]
      by (auto simp: record_processed_views temperatures_def sint_scast_i64)
  next
    case False
    with snoc obtain lo hi s where IH: "temperature_view (process_all fs m) = (Some lo, Some hi, s)"
        "sint lo = Min (set ?ts)" "sint hi = Max (set ?ts)" "sint s = sum_list ?ts"
        "\<bar>sum_list ?ts\<bar> \<le> int (length fs) * 2 ^ 31" by auto
    have ts: "?ts \<noteq> []" using False by (simp add: temperatures_def)
    have range: "\<bar>sum_list ?ts + sint ?t\<bar> \<le> int (length (fs @ [f])) * 2 ^ 31"
      using IH(5) sint_i32_bounds [of ?t] by (simp add: algebra_simps)
    also have "\<dots> \<le> (2 ^ 32 - 1) * 2 ^ 31" using snoc.prems by simp
    finally have "sint (s + scast ?t) = sum_list ?ts + sint ?t"
      using IH(4) by (subst sint_plus_i64) (simp_all add: sint_scast_i64)
    moreover have "sint (min_i32 lo ?t) = min (sint ?t) (Min (set ?ts))"
      "sint (max_i32 hi ?t) = max (sint ?t) (Max (set ?ts))"
      using IH(2,3) by (auto simp: min_i32_def max_i32_def)
    ultimately show ?thesis
      using IH(1) range ts by (simp add: record_processed_views snoc_eq)
  qed
qed

lemma supply_of_list:
  assumes "supply_view m = (None, None, 0)" and "fs \<noteq> []" and "length fs < 2 ^ 32"
  shows "\<exists>lo hi s. supply_view (process_all fs m) = (Some lo, Some hi, s)
    \<and> unat lo = Min (set (supplies fs)) \<and> unat hi = Max (set (supplies fs))
    \<and> unat s = sum_list (supplies fs) \<and> sum_list (supplies fs) \<le> length fs * 2 ^ 16"
  using assms(2,3)
proof (induction fs rule: rev_induct)
  case Nil
  then show ?case by simp
next
  case (snoc f fs)
  let ?v = "supply_millivolts (payload f)" and ?vs = "supplies fs"
  have snoc_eq: "supplies (fs @ [f]) = ?vs @ [unat ?v]" by (simp add: supplies_def)
  have v: "unat ?v < 2 ^ 16" using unsigned_less [of ?v] by simp
  have cast: "unat (ucast ?v :: u64) = unat ?v" by (simp add: unat_ucast_up)
  show ?case
  proof (cases "fs = []")
    case True
    then show ?thesis
      using assms(1) v by (auto simp: record_processed_views supplies_def cast)
  next
    case False
    with snoc obtain lo hi s where IH: "supply_view (process_all fs m) = (Some lo, Some hi, s)"
        "unat lo = Min (set ?vs)" "unat hi = Max (set ?vs)" "unat s = sum_list ?vs"
        "sum_list ?vs \<le> length fs * 2 ^ 16" by auto
    have vs: "?vs \<noteq> []" using False by (simp add: supplies_def)
    have "unat (s + ucast ?v) = sum_list ?vs + unat ?v"
      using IH(4,5) v snoc.prems by (subst unat_plus_fits) (simp_all add: cast)
    moreover have "unat (min lo ?v) = min (unat ?v) (Min (set ?vs))"
      "unat (max hi ?v) = max (unat ?v) (Max (set ?vs))"
      using IH(2,3) by (auto simp: min_def max_def word_le_nat_alt)
    ultimately show ?thesis
      using IH(1,5) v vs by (simp add: record_processed_views snoc_eq)
  qed
qed

subsection \<open>The summary of a processed list\<close>

definition unprocessed :: "TelemetryMetrics \<Rightarrow> bool" where
  "unprocessed m \<longleftrightarrow> counter_view m = (0, 0, 0, 0, 0) \<and> sequence_view m = (None, None, 0, 0, 0)
     \<and> temperature_view m = (None, None, 0) \<and> supply_view m = (None, None, 0)"

lemma unprocessed_new [simp]: "unprocessed new_metrics"
  by (simp add: unprocessed_def counter_view_def view_defs new_metrics_def)

lemma unprocessed_ingest: "unprocessed m \<Longrightarrow> unprocessed (record_ingest e m)"
  by (cases e) (auto simp: unprocessed_def counter_view_def view_defs ingest_defs Let_def
      split: ParseError.split)

lemma unprocessed_ingested: "unprocessed (fold record_ingest es new_metrics)"
proof -
  have "unprocessed m \<Longrightarrow> unprocessed (fold record_ingest es m)" for m
    by (induction es arbitrary: m) (simp_all add: unprocessed_ingest)
  then show ?thesis by simp
qed

lemma summary_views:
  assumes "counter_view m = (n, s, v, c, d)" "sequence_view m = (p, l, ms, du, la)"
    "temperature_view m = (lo, hi, ts)" "supply_view m = (slo, shi, ss)"
  shows "summary m = \<lparr>sum_processed = unat n, sum_first = map_option unat p,
    sum_last = map_option unat l, sum_missing = unat ms, sum_duplicates = unat du,
    sum_late = unat la, sum_sensor = unat s, sum_voltage = unat v, sum_communication = unat c,
    sum_watchdog = unat d, sum_min_temperature = map_option sint lo,
    sum_max_temperature = map_option sint hi, sum_temperature = sint ts,
    sum_min_supply = map_option unat slo, sum_max_supply = map_option unat shi,
    sum_supply = unat ss\<rparr>"
  using assms by (simp add: summary_def counter_view_def view_defs)

lemma summary_of_processing:
  assumes "unprocessed m" and "length fs < 2 ^ 32"
  shows "summary (process_all fs m) = summary_of fs"
proof (cases "fs = []")
  case True
  from assms(1) have "summary m = summary_of []"
    unfolding unprocessed_def
    by (subst summary_views) (auto simp: summary_of_def unless_empty_def sequences_def supplies_def
        temperatures_def flag_count_def duplicates_def late_def)
  with True show ?thesis by simp
next
  case False
  from assms(1) have views: "counter_view m = (0, 0, 0, 0, 0)"
      "sequence_view m = (None, None, 0, 0, 0)" "temperature_view m = (None, None, 0)"
      "supply_view m = (None, None, 0)"
    by (simp_all add: unprocessed_def)
  have "length fs < 2 ^ 64" using assms(2) by simp
  then show ?thesis
    using counters_of_list [OF views(1), of fs] sequence_of_list [OF views(2) False assms(2)]
      temperature_of_list [OF views(3) False assms(2)] supply_of_list [OF views(4) False assms(2)]
      False
    by (auto simp: summary_views summary_of_def unless_empty_def)
qed

subsection \<open>Optional members are set together\<close>

text \<open>
  \<^verbatim>\<open>record_processed\<close> tests one optional of each pair and dereferences the other:
  \<^verbatim>\<open>*last_sequence_\<close> after testing \<^verbatim>\<open>first_sequence_\<close>, and both extremes after testing the
  minimum. That is defined behaviour as long as the members of a pair are set together.
\<close>

definition optionals_paired :: "TelemetryMetrics \<Rightarrow> bool" where
  "optionals_paired m \<longleftrightarrow>
     (first_sequence' m = None \<longleftrightarrow> last_sequence' m = None)
     \<and> (minimum_temperature_millicelsius' m = None \<longleftrightarrow> maximum_temperature_millicelsius' m = None)
     \<and> (minimum_supply_millivolts' m = None \<longleftrightarrow> maximum_supply_millivolts' m = None)"

lemma optionals_paired_views:
  "optionals_paired m \<longleftrightarrow>
    (fst (sequence_view m) = None \<longleftrightarrow> fst (snd (sequence_view m)) = None)
    \<and> (fst (temperature_view m) = None \<longleftrightarrow> fst (snd (temperature_view m)) = None)
    \<and> (fst (supply_view m) = None \<longleftrightarrow> fst (snd (supply_view m)) = None)"
  by (simp add: optionals_paired_def view_defs)

lemma optionals_paired_processed: "optionals_paired m \<Longrightarrow> optionals_paired (record_processed f m)"
  unfolding optionals_paired_views record_processed_views
  by (cases "sequence_view m" rule: prod_cases5; cases "temperature_view m" rule: prod_cases3;
      cases "supply_view m" rule: prod_cases3)
    (rename_tac p l ms d r lo hi s lo' hi' s'; case_tac p; case_tac lo; case_tac lo'; simp)

lemma optionals_paired_ingest: "optionals_paired m \<Longrightarrow> optionals_paired (record_ingest e m)"
  by (cases e) (auto simp: optionals_paired_def ingest_defs Let_def split: ParseError.split)

lemma fold_invariant: "(\<And>x s. P s \<Longrightarrow> P (f x s)) \<Longrightarrow> P s \<Longrightarrow> P (fold f xs s)"
  by (induction xs arbitrary: s) simp_all

subsection \<open>Properties\<close>

text \<open>C5: the statistics are right: after any sequence of ingest events and the processing of any
  list of fewer than \<open>2 ^ 32\<close> frames, the object's counters, sequence analysis, extremes and
  sums are those of the list over unbounded numbers; nothing wraps or overflows.\<close>

theorem processing_refines_summary:
  assumes "length fs < 2 ^ 32"
  shows "summary (fold record_processed fs (fold record_ingest es new_metrics)) = summary_of fs"
  by (rule summary_of_processing [OF unprocessed_ingested assms])

theorem processing_refines_summary_witness:
  "summary (fold record_processed [default_frame] (fold record_ingest [Ev_input] new_metrics))
    = summary_of [default_frame]"
  by (rule processing_refines_summary) simp

text \<open>C28: the sequence counters account for every frame and every number: the span from the first
  to the last sequence number, plus duplicates and out-of-order arrivals, equals the number of
  processed frames plus the missing numbers.\<close>

theorem sequence_accounting:
  assumes "fs \<noteq> []" and "length fs < 2 ^ 32"
    and "m = fold record_processed fs (fold record_ingest es new_metrics)"
  shows "\<exists>first last. first_sequence' m = Some first \<and> last_sequence' m = Some last \<and> first \<le> last
    \<and> (unat last - unat first + 1) + unat (duplicate_sequences' m) + unat (out_of_order_sequences' m)
      = unat (frames_processed' m) + unat (missing_sequences' m)"
proof -
  have sm: "summary m = summary_of fs"
    using assms(2,3) summary_of_processing [OF unprocessed_ingested] by simp
  let ?xs = "sequences fs"
  have xs: "?xs \<noteq> []" "length ?xs = length fs" using assms(1) by (simp_all add: sequences_def)
  obtain p l where pl: "first_sequence' m = Some p" "last_sequence' m = Some l"
      "unat p = hd ?xs" "unat l = peak ?xs"
    using sm assms(1) by (auto simp: summary_def summary_of_def unless_empty_def)
  have "(peak ?xs - hd ?xs + 1) + length (duplicates ?xs) + length (late ?xs)
      = length fs + card (skipped ?xs)"
    using positions_partition [of ?xs] card_skipped [OF xs(1)] xs assms(1)
    by (cases fs) simp_all
  moreover have "unat (duplicate_sequences' m) = length (duplicates ?xs)"
    "unat (out_of_order_sequences' m) = length (late ?xs)"
    "unat (frames_processed' m) = length fs" "unat (missing_sequences' m) = card (skipped ?xs)"
    using sm assms(1) by (simp_all add: summary_def summary_of_def)
  ultimately show ?thesis
    using pl hd_le_peak [OF xs(1)] by (simp add: word_le_nat_alt)
qed

theorem sequence_accounting_witness:
  "\<exists>first last. first_sequence' (fold record_processed [default_frame] (fold record_ingest [] new_metrics)) = Some first
    \<and> last_sequence' (fold record_processed [default_frame] (fold record_ingest [] new_metrics)) = Some last
    \<and> first \<le> last
    \<and> (unat last - unat first + 1)
        + unat (duplicate_sequences' (fold record_processed [default_frame] (fold record_ingest [] new_metrics)))
        + unat (out_of_order_sequences' (fold record_processed [default_frame] (fold record_ingest [] new_metrics)))
      = unat (frames_processed' (fold record_processed [default_frame] (fold record_ingest [] new_metrics)))
        + unat (missing_sequences' (fold record_processed [default_frame] (fold record_ingest [] new_metrics)))"
  by (rule sequence_accounting [where fs = "[default_frame]" and es = "[]"]) simp_all

text \<open>The missing counter never under-reports: it is at least the number of sequence numbers
  between the first and the last that never arrived, and it exceeds that number by at most the
  out-of-order counter, since a late frame does not lower it.\<close>

theorem missing_covers_absent:
  assumes "fs \<noteq> []" and "length fs < 2 ^ 32"
    and "m = fold record_processed fs (fold record_ingest es new_metrics)"
  shows "card ({hd (sequences fs)..peak (sequences fs)} - set (sequences fs)) \<le> unat (missing_sequences' m)
    \<and> unat (missing_sequences' m)
      \<le> card ({hd (sequences fs)..peak (sequences fs)} - set (sequences fs)) + unat (out_of_order_sequences' m)"
proof -
  have "summary m = summary_of fs"
    using assms(2,3) summary_of_processing [OF unprocessed_ingested] by simp
  then have "unat (out_of_order_sequences' m) = length (late (sequences fs))"
    "unat (missing_sequences' m) = card (skipped (sequences fs))"
    using assms(1) by (simp_all add: summary_def summary_of_def)
  then show ?thesis
    using card_skipped_bounds [of "sequences fs"] assms(1) by (simp add: sequences_def)
qed

theorem missing_covers_absent_witness:
  "card ({hd (sequences [default_frame])..peak (sequences [default_frame])} - set (sequences [default_frame]))
      \<le> unat (missing_sequences' (fold record_processed [default_frame] (fold record_ingest [] new_metrics)))
    \<and> unat (missing_sequences' (fold record_processed [default_frame] (fold record_ingest [] new_metrics)))
      \<le> card ({hd (sequences [default_frame])..peak (sequences [default_frame])} - set (sequences [default_frame]))
        + unat (out_of_order_sequences' (fold record_processed [default_frame] (fold record_ingest [] new_metrics)))"
  by (rule missing_covers_absent [where es = "[]"]) simp_all

text \<open>No empty optional is dereferenced: in every state the object can reach, the optionals
  that \<^verbatim>\<open>record_processed\<close> tests and those it dereferences are set together.\<close>

theorem optionals_always_paired:
  "optionals_paired (run_interleaved record_ingest record_processed zs new_metrics)"
proof -
  have "optionals_paired new_metrics" by (simp add: optionals_paired_def new_metrics_def)
  then show ?thesis
    unfolding host_metrics.interleaving_is_sequential
    by (intro fold_invariant [where P = optionals_paired] optionals_paired_processed
        optionals_paired_ingest)
qed

end
