(* ===== verification/Host_Demo.thy ===== *)
theory Host_Demo
  imports Simulated_Source Host_Robustness Processing_Summary
begin

text \<open>
  The host program on its own scenario: \<open>host_start b generate\<close> with any buffer that meets its
  contract. Every schedule ends with exit code 0 and the report that \<^verbatim>\<open>docs/HOST_PIPELINE.md\<close>
  documents.
\<close>

definition demo_snapshot :: TelemetryMetricsSnapshot where
  "demo_snapshot =
     \<lparr>inputs_received = 15, frames_accepted = 8, frames_rejected = 7, queue_closed_rejections = 0,
      frames_processed = 8,
      parse_errors =
        \<lparr>invalid_frame_size = 1, invalid_magic = 1, unsupported_version = 1,
         unsupported_message_type = 1, invalid_payload_size = 1, checksum_mismatch = 2\<rparr>,
      first_sequence = Some 100, last_sequence = Some 106, missing_sequences = 1,
      duplicate_sequences = 1, out_of_order_sequences = 1, sensor_warnings = 3,
      voltage_warnings = 3, communication_warnings = 3, watchdog_events = 3,
      minimum_temperature_millicelsius = Some (- 10000),
      maximum_temperature_millicelsius = Some 30000, temperature_sum_millicelsius = 65000,
      minimum_supply_millivolts = Some 2900, maximum_supply_millivolts = Some 3600,
      supply_sum_millivolts = 26000\<rparr>"

lemma demo_ingested:
  "fold record_ingest (ingested generate) new_metrics =
     new_metrics\<lparr>inputs_received' := 15, frames_accepted' := 8, frames_rejected' := 7,
       invalid_frame_size' := 1, invalid_magic' := 1, unsupported_version' := 1,
       unsupported_message_type' := 1, invalid_payload_size' := 1, checksum_mismatch' := 2\<rparr>"
  unfolding ingested_by_error generate_errors
  by (simp add: expected_errors_def events_of_error_def ingest_defs Let_def new_metrics_def)

lemma demo_processed:
  "snapshot (final_metrics generate) = demo_snapshot"
proof -
  define m where "m = new_metrics\<lparr>inputs_received' := 15, frames_accepted' := 8, frames_rejected' := 7,
       invalid_frame_size' := 1, invalid_magic' := 1, unsupported_version' := 1,
       unsupported_message_type' := 1, invalid_payload_size' := 1, checksum_mismatch' := 2\<rparr>"
  have "final_metrics generate = fold record_processed expected_frames m"
    by (simp add: final_metrics_def generate_decoded demo_ingested m_def)
  moreover have "snapshot (fold record_processed expected_frames m) = demo_snapshot"
    by (simp add: expected_frames_def simulated_frame_def record_processed_def record_sequence_def
        record_flags_eq has_flag_def record_temperature_def record_supply_def min_i32_def max_i32_def
        Let_def m_def new_metrics_def snapshot_def demo_snapshot_def)
  ultimately show ?thesis by simp
qed

definition demo_text :: "string list" where
  "demo_text =
     [''Telemetry Host Pipeline Report'',
      ''=============================='',
      ''Inputs received: 15'',
      ''Frames accepted: 8'',
      ''Frames rejected: 7'',
      ''Frames processed: 8'',
      ''Queue closed rejections: 0'',
      ''Parse errors:'',
      ''  Invalid frame size: 1'',
      ''  Invalid magic: 1'',
      ''  Unsupported version: 1'',
      ''  Unsupported message type: 1'',
      ''  Invalid payload size: 1'',
      ''  Checksum mismatch: 2'',
      ''Sequence analysis:'',
      ''  First sequence: 100'',
      ''  Last sequence: 106'',
      ''  Missing sequences: 1'',
      ''  Duplicate sequences: 1'',
      ''  Out-of-order sequences: 1'',
      ''Warnings:'',
      ''  Sensor: 3'',
      ''  Voltage: 3'',
      ''  Communication: 3'',
      ''  Watchdog: 3'',
      ''Temperature:'',
      ''  Minimum: -10000 millicelsius'',
      ''  Maximum: 30000 millicelsius'',
      ''  Average: 8125 millicelsius'',
      ''Supply voltage:'',
      ''  Minimum: 2900 millivolts'',
      ''  Maximum: 3600 millivolts'',
      ''  Average: 3250 millivolts'']"

lemma demo_report: "make_text_report demo_snapshot = unlines demo_text"
proof -
  have nums: "show_nat 0 = ''0''" "show_nat (Suc 0) = ''1''" "show_nat 2 = ''2''" "show_nat 3 = ''3''"
    "show_nat 7 = ''7''" "show_nat 8 = ''8''" "show_nat 15 = ''15''" "show_nat 100 = ''100''"
    "show_nat 106 = ''106''" "show_nat 10000 = ''10000''" "show_nat 30000 = ''30000''"
    "show_nat 8125 = ''8125''" "show_nat 2900 = ''2900''" "show_nat 3600 = ''3600''"
    "show_nat 3250 = ''3250''"
    by (simp_all add: show_nat.simps digit_char_def)
  have avg: "average_text 65000 8 = ''8125''" "average_text 26000 8 = ''3250''"
    by (simp_all add: average_text_def show_int_def nums)
  have "report_lines demo_snapshot = demo_text"
    by (simp add: report_lines_def demo_snapshot_def demo_text_def format_optional_def
        unsigned_text_def signed_text_def show_int_def nums avg)
  then show ?thesis by (simp add: report_as_lines)
qed

subsection \<open>Properties\<close>

text \<open>C37: the demo prints the documented report: with any buffer that meets its contract, every
  schedule of the host program on its scenario ends with exit code 0, no error output, and
  exactly these thirty-three lines.\<close>

theorem demo_prints_documented_report:
  assumes "safe_buffer ops items closed capacity valid" and "valid b0" and "\<not> closed b0"
    and "items b0 = []" and "(host_step ops)\<^sup>*\<^sup>* (host_start b0 generate) s"
    and "\<nexists>t. host_step ops s t"
  shows "main_at s = M_exit 0 \<and> cerr s = [] \<and> cout s = unlines demo_text"
  using host_run.every_run_ends [OF host_runI [OF assms(1-4)] assms(5)] assms(6)
  by (simp add: demo_processed demo_report)

theorem demo_prints_documented_report_witness:
  "\<exists>s. (host_step (list_buffer_ops queue_capacity))\<^sup>*\<^sup>* (host_start empty_list_buffer generate) s
    \<and> main_at s = M_exit 0 \<and> cerr s = [] \<and> cout s = unlines demo_text"
proof -
  obtain s where s: "(host_step (list_buffer_ops queue_capacity))\<^sup>*\<^sup>* (host_start empty_list_buffer generate) s"
    "\<nexists>t. host_step (list_buffer_ops queue_capacity) s t"
    using demo_run.run.reaches_stuck [of generate, OF rtranclp.rtrancl_refl] by auto
  have "safe_buffer (list_buffer_ops queue_capacity) stored is_closed queue_capacity (\<lambda>_. True)"
    by (rule list_buffer_meets_contract) (simp add: queue_capacity_def)
  from demo_prints_documented_report [OF this TrueI _ _ s] s(1) show ?thesis
    by (auto simp: empty_list_buffer_def)
qed

subsection \<open>The scenario when the consumer fails\<close>

text \<open>The scenario has eight valid frames and the queue room for three: when the consumer fails
  before it has processed five, the program as it is never exits.\<close>

lemma demo_valid_frames: "length (filter valid_frame generate) = 8"
proof -
  have "length (filter valid_frame generate) = length expected_frames"
    by (simp flip: generate_decoded)
  then show ?thesis by (simp add: expected_frames_def)
qed

lemma demo_can_hang:
  assumes "raising_buffer ops items closed queue_capacity valid" and "valid b0" and "\<not> closed b0"
    and "items b0 = []" and "(host_step ops ^^ n) (host_start b0 generate) s"
    and "consumer_at s = C_done r" and "\<not> success r" and "unat (frames_consumed r) < 5"
    and "(host_step ops)\<^sup>*\<^sup>* s t"
  shows "main_at t \<noteq> M_exit c"
proof -
  have "length generate < 2 ^ 64" by (simp add: generate_def Let_def)
  moreover have "unat (frames_consumed r) + queue_capacity < length (filter valid_frame generate)"
    using assms(8) by (simp add: demo_valid_frames queue_capacity_def)
  ultimately show ?thesis
    using raising_run.failed_outcome [OF raising_runI [OF assms(1-4)] assms(5-7)] assms(9) by simp
qed

end
