(* ===== verification/Host_Accounting.thy ===== *)
theory Host_Accounting
  imports Host_Main Processing_Summary
begin

text \<open>
  What the final metrics of a host run mean: the counters of the ingesting thread count the
  inputs by the decoder's answer, and the statistics of the consumer are those of the valid
  inputs' frames over unbounded numbers.
\<close>

subsection \<open>Counting inputs by the decoder's answer\<close>

definition inputs_with :: "ParseError \<Rightarrow> bytes list \<Rightarrow> nat" where
  "inputs_with e inputs = length (filter (\<lambda>bs. error (deserialize bs) = e) inputs)"

definition ingest_counters :: "TelemetryMetrics \<Rightarrow> u64 list" where
  "ingest_counters m =
     [inputs_received' m, frames_accepted' m, frames_rejected' m, queue_closed_rejections' m,
      invalid_frame_size' m, invalid_magic' m, unsupported_version' m, unsupported_message_type' m,
      invalid_payload_size' m, checksum_mismatch' m]"

lemma ingest_counters_processed: "ingest_counters (record_processed f m) = ingest_counters m"
  by (simp add: ingest_counters_def record_processed_def record_sequence_def record_flags_eq
      record_temperature_def record_supply_def Let_def)

lemma ingest_counters_fold: "ingest_counters (fold record_processed fs m) = ingest_counters m"
  by (induction fs arbitrary: m) (simp_all add: ingest_counters_processed)

lemma inputs_with_snoc:
  "inputs_with e (inputs @ [bs]) = inputs_with e inputs + (if error (deserialize bs) = e then 1 else 0)"
  by (simp add: inputs_with_def)

lemma ingest_counters_ingested:
  "ingest_counters (fold record_ingest (ingested inputs) new_metrics) = map of_nat
     [length inputs, inputs_with PE_none inputs, length (filter (\<lambda>bs. \<not> valid_frame bs) inputs), 0,
      inputs_with PE_invalid_frame_size inputs, inputs_with PE_invalid_magic inputs,
      inputs_with PE_unsupported_version inputs, inputs_with PE_unsupported_message_type inputs,
      inputs_with PE_invalid_payload_size inputs, inputs_with PE_checksum_mismatch inputs]"
proof (induction inputs rule: rev_induct)
  case Nil
  then show ?case by (simp add: ingest_counters_def inputs_with_def new_metrics_def)
next
  case (snoc bs inputs)
  then show ?case
    by (cases "error (deserialize bs)")
      (simp_all add: ingest_counters_def inputs_with_snoc input_events_def valid_frame_error ingest_defs
        Let_def)
qed

lemma valid_inputs_with: "length (filter valid_frame inputs) = inputs_with PE_none inputs"
proof -
  have "valid_frame = (\<lambda>bs. error (deserialize bs) = PE_none)"
    by (rule ext) (rule valid_frame_error)
  then show ?thesis by (simp add: inputs_with_def)
qed

lemma few_valid_frames:
  "length inputs < n \<Longrightarrow> length (map decoded (filter valid_frame inputs)) < n"
  by (simp add: le_less_trans [OF length_filter_le])

lemma final_summary:
  "length inputs < 2 ^ 32 \<Longrightarrow>
    summary (final_metrics inputs) = summary_of (map decoded (filter valid_frame inputs))"
  unfolding final_metrics_def by (rule summary_of_processing [OF unprocessed_ingested few_valid_frames])

lemma final_ingest_counters:
  "ingest_counters (final_metrics inputs) = map of_nat
     [length inputs, inputs_with PE_none inputs, length inputs - inputs_with PE_none inputs, 0,
      inputs_with PE_invalid_frame_size inputs, inputs_with PE_invalid_magic inputs,
      inputs_with PE_unsupported_version inputs, inputs_with PE_unsupported_message_type inputs,
      inputs_with PE_invalid_payload_size inputs, inputs_with PE_checksum_mismatch inputs]"
proof -
  have "length (filter valid_frame inputs) + length (filter (\<lambda>bs. \<not> valid_frame bs) inputs) = length inputs"
    by (rule sum_length_filter_compl)
  then have "length (filter (\<lambda>bs. \<not> valid_frame bs) inputs) = length inputs - inputs_with PE_none inputs"
    by (simp add: valid_inputs_with)
  then show ?thesis by (simp only: final_metrics_def ingest_counters_fold ingest_counters_ingested)
qed

context host_run
begin

lemma final_metrics_reached:
  assumes "(host_step ops)\<^sup>*\<^sup>* (host_start b0 inputs) s" and "main_at s = M_exit c"
  shows "the_metrics s = final_metrics inputs"
  using exit_state [OF run.reachable_inv [OF assms(1)] assms(2)] by simp

end

subsection \<open>Properties\<close>

text \<open>The ingest counters of a finished run count the inputs by the decoder's answer: every
  input is counted once as received, once as accepted or rejected, and a rejected one under
  exactly its error; accepted and processed agree; none is lost to a closed queue.\<close>

theorem host_counters_account_for_inputs:
  assumes "safe_buffer ops items closed capacity valid" and "valid b0" and "\<not> closed b0"
    and "items b0 = []" and "(host_step ops)\<^sup>*\<^sup>* (host_start b0 inputs) s" and "main_at s = M_exit c"
    and "length inputs < 2 ^ 32"
  shows "ingest_counters (the_metrics s) = map of_nat
     [length inputs, inputs_with PE_none inputs, length inputs - inputs_with PE_none inputs, 0,
      inputs_with PE_invalid_frame_size inputs, inputs_with PE_invalid_magic inputs,
      inputs_with PE_unsupported_version inputs, inputs_with PE_unsupported_message_type inputs,
      inputs_with PE_invalid_payload_size inputs, inputs_with PE_checksum_mismatch inputs]
    \<and> unat (frames_processed' (the_metrics s)) = inputs_with PE_none inputs"
proof
  have m: "the_metrics s = final_metrics inputs"
    by (rule host_run.final_metrics_reached [OF host_runI [OF assms(1-4)] assms(5,6)])
  then show "ingest_counters (the_metrics s) = map of_nat
     [length inputs, inputs_with PE_none inputs, length inputs - inputs_with PE_none inputs, 0,
      inputs_with PE_invalid_frame_size inputs, inputs_with PE_invalid_magic inputs,
      inputs_with PE_unsupported_version inputs, inputs_with PE_unsupported_message_type inputs,
      inputs_with PE_invalid_payload_size inputs, inputs_with PE_checksum_mismatch inputs]"
    by (simp only: final_ingest_counters)
  have "unat (frames_processed' (final_metrics inputs)) = length (filter valid_frame inputs)"
    using final_summary [OF assms(7)] by (simp add: summary_def summary_of_def)
  with m show "unat (frames_processed' (the_metrics s)) = inputs_with PE_none inputs"
    by (simp add: valid_inputs_with)
qed

theorem host_counters_account_for_inputs_witness:
  "\<exists>s. (host_step (list_buffer_ops queue_capacity))\<^sup>*\<^sup>* (host_start empty_list_buffer [[1], [2]]) s
    \<and> ingest_counters (the_metrics s) = map of_nat
     [length [[1 :: u8], [2]], inputs_with PE_none [[1], [2]], length [[1 :: u8], [2]] - inputs_with PE_none [[1], [2]], 0,
      inputs_with PE_invalid_frame_size [[1], [2]], inputs_with PE_invalid_magic [[1], [2]],
      inputs_with PE_unsupported_version [[1], [2]], inputs_with PE_unsupported_message_type [[1], [2]],
      inputs_with PE_invalid_payload_size [[1], [2]], inputs_with PE_checksum_mismatch [[1], [2]]]
    \<and> unat (frames_processed' (the_metrics s)) = inputs_with PE_none [[1], [2]]"
proof -
  have b: "safe_buffer (list_buffer_ops queue_capacity) stored is_closed queue_capacity (\<lambda>_. True)"
    by (rule list_buffer_meets_contract) (simp add: queue_capacity_def)
  obtain s where s: "(host_step (list_buffer_ops queue_capacity))\<^sup>*\<^sup>* (host_start empty_list_buffer [[1], [2]]) s"
    "main_at s = M_exit 0"
    using demo_run.every_run_is_short [of 0 "[[1], [2]]"] by auto
  have "length [[1 :: u8], [2]] < 2 ^ 32" by simp
  from host_counters_account_for_inputs [OF b TrueI _ _ s this] s(1) show ?thesis
    by (auto simp: empty_list_buffer_def)
qed

text \<open>The statistics of a finished run are right: for fewer than \<open>2 ^ 32\<close> inputs, on every
  schedule, they are those of the valid inputs' frames, in input order, over unbounded numbers.\<close>

theorem host_statistics_of_run:
  assumes "safe_buffer ops items closed capacity valid" and "valid b0" and "\<not> closed b0"
    and "items b0 = []" and "(host_step ops)\<^sup>*\<^sup>* (host_start b0 inputs) s" and "main_at s = M_exit c"
    and "length inputs < 2 ^ 32"
  shows "summary (the_metrics s) = summary_of (map decoded (filter valid_frame inputs))"
  using host_run.final_metrics_reached [OF host_runI [OF assms(1-4)] assms(5,6)] final_summary [OF assms(7)]
  by simp

theorem host_statistics_of_run_witness:
  "\<exists>s. (host_step (list_buffer_ops queue_capacity))\<^sup>*\<^sup>* (host_start empty_list_buffer [frame_layout default_frame]) s
    \<and> summary (the_metrics s) = summary_of (map decoded (filter valid_frame [frame_layout default_frame]))"
proof -
  have b: "safe_buffer (list_buffer_ops queue_capacity) stored is_closed queue_capacity (\<lambda>_. True)"
    by (rule list_buffer_meets_contract) (simp add: queue_capacity_def)
  obtain s where s: "(host_step (list_buffer_ops queue_capacity))\<^sup>*\<^sup>*
      (host_start empty_list_buffer [frame_layout default_frame]) s" "main_at s = M_exit 0"
    using demo_run.every_run_is_short [of 0 "[frame_layout default_frame]"] by auto
  have "length [frame_layout default_frame] < 2 ^ 32" by simp
  from host_statistics_of_run [OF b TrueI _ _ s this] s(1) show ?thesis
    by (auto simp: empty_list_buffer_def)
qed

end
