(* ===== verification/Metrics_Wellformed.thy ===== *)
theory Metrics_Wellformed
  imports Host_Metrics
begin

text \<open>
  The well-formedness of a \<^verbatim>\<open>TelemetryMetrics\<close> object: which combinations of its members the code
  can produce. The optional members come in pairs that are set together and are in order, all six
  are set by the first processed frame, and every rejection is counted under its cause, save those
  recorded with \<^verbatim>\<open>ParseError::none\<close>, which has no counter: their number is the parameter of the
  invariant. Each operation of the class keeps it. In particular \<^verbatim>\<open>record_processed\<close> never
  dereferences an empty optional.
\<close>

subsection \<open>The invariant\<close>

fun ordered_pair :: "('a \<Rightarrow> 'a \<Rightarrow> bool) \<Rightarrow> 'a option \<Rightarrow> 'a option \<Rightarrow> bool" where
  "ordered_pair le None None = True"
| "ordered_pair le (Some a) (Some b) = le a b"
| "ordered_pair le _ _ = False"

definition rejections_counted :: "nat \<Rightarrow> TelemetryMetrics \<Rightarrow> bool" where
  "rejections_counted n m \<longleftrightarrow> frames_rejected' m
     = queue_closed_rejections' m + invalid_frame_size' m + invalid_magic' m + unsupported_version' m
       + unsupported_message_type' m + invalid_payload_size' m + checksum_mismatch' m
       + of_nat n"

definition metrics_wf :: "nat \<Rightarrow> TelemetryMetrics \<Rightarrow> bool" where
  "metrics_wf n m \<longleftrightarrow>
     ordered_pair (\<le>) (first_sequence' m) (last_sequence' m)
     \<and> ordered_pair (\<lambda>a b. sint a \<le> sint b) (minimum_temperature_millicelsius' m)
         (maximum_temperature_millicelsius' m)
     \<and> ordered_pair (\<le>) (minimum_supply_millivolts' m) (maximum_supply_millivolts' m)
     \<and> (minimum_temperature_millicelsius' m = None \<longleftrightarrow> first_sequence' m = None)
     \<and> (minimum_supply_millivolts' m = None \<longleftrightarrow> first_sequence' m = None)
     \<and> rejections_counted n m"

subsection \<open>Every operation keeps it\<close>

lemma ordered_pair_set:
  assumes "ordered_pair le x y" and "x \<noteq> None"
  obtains a b where "x = Some a" "y = Some b" "le a b"
  using assms by (cases x; cases y) auto

lemma optionals_set:
  "first_sequence' (record_sequence q m) \<noteq> None"
  "minimum_temperature_millicelsius' (record_temperature t m) \<noteq> None"
  "minimum_supply_millivolts' (record_supply v m) \<noteq> None"
  by (simp_all add: record_sequence_def record_temperature_def record_supply_def Let_def)

lemma sequence_pair:
  assumes "ordered_pair (\<le>) (first_sequence' m) (last_sequence' m)"
  shows "ordered_pair (\<le>) (first_sequence' (record_sequence q m)) (last_sequence' (record_sequence q m))"
proof (cases "first_sequence' m = None")
  case True
  then show ?thesis by (simp add: record_sequence_def)
next
  case False
  with assms obtain p l where "first_sequence' m = Some p" "last_sequence' m = Some l" "p \<le> l"
    by (rule ordered_pair_set)
  then show ?thesis by (auto simp: record_sequence_def Let_def)
qed

lemma temperature_pair:
  assumes "ordered_pair (\<lambda>a b. sint a \<le> sint b) (minimum_temperature_millicelsius' m)
    (maximum_temperature_millicelsius' m)"
  shows "ordered_pair (\<lambda>a b. sint a \<le> sint b) (minimum_temperature_millicelsius' (record_temperature t m))
      (maximum_temperature_millicelsius' (record_temperature t m))"
proof (cases "minimum_temperature_millicelsius' m = None")
  case True
  then show ?thesis by (simp add: record_temperature_def)
next
  case False
  with assms obtain lo hi where "minimum_temperature_millicelsius' m = Some lo"
      "maximum_temperature_millicelsius' m = Some hi" "sint lo \<le> sint hi"
    by (rule ordered_pair_set)
  then show ?thesis by (auto simp: record_temperature_def min_i32_def max_i32_def)
qed

lemma supply_pair:
  assumes "ordered_pair (\<le>) (minimum_supply_millivolts' m) (maximum_supply_millivolts' m)"
  shows "ordered_pair (\<le>) (minimum_supply_millivolts' (record_supply v m))
      (maximum_supply_millivolts' (record_supply v m))"
proof (cases "minimum_supply_millivolts' m = None")
  case True
  then show ?thesis by (simp add: record_supply_def)
next
  case False
  with assms obtain lo hi where "minimum_supply_millivolts' m = Some lo"
      "maximum_supply_millivolts' m = Some hi" "lo \<le> hi"
    by (rule ordered_pair_set)
  then show ?thesis by (auto simp: record_supply_def min_def max_def)
qed

text \<open>The parts of \<^verbatim>\<open>record_processed\<close> write disjoint members.\<close>

lemma sequence_frame:
  "minimum_temperature_millicelsius' (record_sequence q m) = minimum_temperature_millicelsius' m"
  "maximum_temperature_millicelsius' (record_sequence q m) = maximum_temperature_millicelsius' m"
  "minimum_supply_millivolts' (record_sequence q m) = minimum_supply_millivolts' m"
  "maximum_supply_millivolts' (record_sequence q m) = maximum_supply_millivolts' m"
  "rejections_counted n (record_sequence q m) = rejections_counted n m"
  by (simp_all add: record_sequence_def rejections_counted_def Let_def)

lemma temperature_frame:
  "first_sequence' (record_temperature t m) = first_sequence' m"
  "last_sequence' (record_temperature t m) = last_sequence' m"
  "minimum_supply_millivolts' (record_temperature t m) = minimum_supply_millivolts' m"
  "maximum_supply_millivolts' (record_temperature t m) = maximum_supply_millivolts' m"
  "rejections_counted n (record_temperature t m) = rejections_counted n m"
  by (simp_all add: record_temperature_def rejections_counted_def)

lemma supply_frame:
  "first_sequence' (record_supply v m) = first_sequence' m"
  "last_sequence' (record_supply v m) = last_sequence' m"
  "minimum_temperature_millicelsius' (record_supply v m) = minimum_temperature_millicelsius' m"
  "maximum_temperature_millicelsius' (record_supply v m) = maximum_temperature_millicelsius' m"
  "rejections_counted n (record_supply v m) = rejections_counted n m"
  by (simp_all add: record_supply_def rejections_counted_def)

lemma flags_frame:
  "first_sequence' (record_flags w m) = first_sequence' m"
  "last_sequence' (record_flags w m) = last_sequence' m"
  "minimum_temperature_millicelsius' (record_flags w m) = minimum_temperature_millicelsius' m"
  "maximum_temperature_millicelsius' (record_flags w m) = maximum_temperature_millicelsius' m"
  "minimum_supply_millivolts' (record_flags w m) = minimum_supply_millivolts' m"
  "maximum_supply_millivolts' (record_flags w m) = maximum_supply_millivolts' m"
  "rejections_counted n (record_flags w m) = rejections_counted n m"
  by (simp_all add: record_flags_eq rejections_counted_def)

lemmas metrics_frame = sequence_frame temperature_frame supply_frame flags_frame

lemma processed_wf:
  assumes "metrics_wf n m"
  shows "metrics_wf n (record_processed f m)"
proof -
  let ?m = "m\<lparr>frames_processed' := frames_processed' m + 1\<rparr>"
  have "rejections_counted n ?m \<longleftrightarrow> rejections_counted n m" by (simp add: rejections_counted_def)
  moreover have "ordered_pair (\<le>) (first_sequence' ?m) (last_sequence' ?m)"
    using assms by (simp add: metrics_wf_def)
  moreover have "ordered_pair (\<lambda>a b. sint a \<le> sint b) (minimum_temperature_millicelsius' k)
      (maximum_temperature_millicelsius' k)"
    if "minimum_temperature_millicelsius' k = minimum_temperature_millicelsius' m"
      "maximum_temperature_millicelsius' k = maximum_temperature_millicelsius' m" for k
    using assms that by (simp add: metrics_wf_def)
  moreover have "ordered_pair (\<le>) (minimum_supply_millivolts' k) (maximum_supply_millivolts' k)"
    if "minimum_supply_millivolts' k = minimum_supply_millivolts' m"
      "maximum_supply_millivolts' k = maximum_supply_millivolts' m" for k
    using assms that by (simp add: metrics_wf_def)
  ultimately show ?thesis
    using assms
    by (simp add: metrics_wf_def record_processed_def Let_def metrics_frame optionals_set
        sequence_pair temperature_pair supply_pair del: not_None_eq)
qed

fun uncounted :: "IngestEvent \<Rightarrow> nat" where
  "uncounted (Ev_rejected PE_none) = 1"
| "uncounted _ = 0"

lemma ingest_wf: "metrics_wf n m \<Longrightarrow> metrics_wf (n + uncounted e) (record_ingest e m)"
  by (rule ingest_event_cases [of _ e])
    (simp_all add: metrics_wf_def rejections_counted_def ingest_defs Let_def algebra_simps)

lemma new_wf: "metrics_wf 0 new_metrics"
  by (simp add: metrics_wf_def rejections_counted_def new_metrics_def)

lemma event_counted: "uncounted e = (if e = Ev_rejected PE_none then 1 else 0)"
  by (rule ingest_event_cases [of _ e]) simp_all

subsection \<open>Properties\<close>

text \<open>C27: a \<^verbatim>\<open>TelemetryMetrics\<close> object is always well-formed: a new one is, and every operation of
  the two threads keeps it, whatever its argument: the optionals of a pair are set together and in
  order, all are set by the first frame, and the rejections are the sum of the counters of their
  causes and of the calls of \<^verbatim>\<open>record_parse_rejected\<close> with \<^verbatim>\<open>ParseError::none\<close>. Such a call is the
  only one that breaks the equation of the rejections and the causes: it increments the
  rejections and the counter of no cause.\<close>

theorem metrics_stay_well_formed:
  assumes "metrics_wf n m"
  shows "metrics_wf 0 new_metrics \<and> metrics_wf n (record_processed f m)
    \<and> metrics_wf n (record_input m) \<and> metrics_wf n (record_accepted m)
    \<and> metrics_wf n (record_queue_closed m)
    \<and> metrics_wf (if e = PE_none then n + 1 else n) (record_parse_rejected e m)"
  using assms ingest_wf [of n m Ev_input] ingest_wf [of n m Ev_accepted]
    ingest_wf [of n m Ev_queue_closed] ingest_wf [of n m "Ev_rejected e"]
  by (simp add: new_wf processed_wf event_counted split: if_splits)

theorem metrics_stay_well_formed_witness:
  "metrics_wf 0 new_metrics
    \<and> metrics_wf 1 (record_processed default_frame (record_parse_rejected PE_none new_metrics))
    \<and> metrics_wf 1 (record_input (record_parse_rejected PE_none new_metrics))
    \<and> metrics_wf 1 (record_accepted (record_parse_rejected PE_none new_metrics))
    \<and> metrics_wf 1 (record_queue_closed (record_parse_rejected PE_none new_metrics))
    \<and> metrics_wf (if PE_none = PE_none then 1 + 1 else 1)
        (record_parse_rejected PE_none (record_parse_rejected PE_none new_metrics))"
proof (rule metrics_stay_well_formed)
  show "metrics_wf 1 (record_parse_rejected PE_none new_metrics)"
    using ingest_wf [OF new_wf, of "Ev_rejected PE_none"] by simp
qed

end
