(* ===== verification/Host_Exceptions.thy ===== *)
theory Host_Exceptions
  imports Host_Main
begin

text \<open>
  Exceptions of the main thread, \<^verbatim>\<open>host/src/main.cpp\<close>. An allocation can fail, or a call of the
  buffer can throw, at every point where the main thread allocates or pushes: in
  \<^verbatim>\<open>source.generate()\<close>, in the copy of the input into the queued value, in \<^verbatim>\<open>push\<close>, and in
  \<^verbatim>\<open>make_text_report\<close>. \<open>failing_step\<close> is the host program in which each of these may happen on
  any schedule. The first three are caught by the inner handler, which closes the buffer, joins
  the consumer and rethrows; the last one reaches the outer handlers with the consumer joined.
  The constructions of the buffer and of the consumer thread come before the inner handler:
  \<open>host_launch\<close> is the program after them, and when one of them throws the outer handlers report it,
  with no consumer thread and its result as it was initialised.
  \<^verbatim>\<open>docs/HOST_PIPELINE.md\<close> asks that such a failure is treated as an operational one: the theorem
  says that the program ends with exit code 1 and one message, prints no report, and still
  processes every frame it had accepted.

  A call that throws is assumed to leave the buffer unchanged. Exceptions of the consumer thread
  are the subject of \<open>Host_Robustness\<close>.
\<close>

subsection \<open>The code\<close>

inductive failing_step :: "'b buffer_ops \<Rightarrow> 'b host_state \<Rightarrow> 'b host_state \<Rightarrow> bool" for ops where
  regular: "host_step ops s t \<Longrightarrow> failing_step ops s t"
| generate_raises: "s = host_start b inputs \<Longrightarrow> failing_step ops s (s\<lparr>main_at := M_catch w\<rparr>)"
| copy_raises: "main_at s = M_parse bs \<Longrightarrow> valid_frame bs \<Longrightarrow>
    failing_step ops s (s\<lparr>main_at := M_catch w\<rparr>)"
| push_raises: "main_at s = M_push bs \<Longrightarrow> failing_step ops s (s\<lparr>main_at := M_catch w\<rparr>)"
| report_raises: "main_at s = M_join \<Longrightarrow> consumer_at s = C_done r \<Longrightarrow>
    main_at (finish_main r s) = M_exit 0 \<Longrightarrow>
    failing_step ops s (s\<lparr>cerr := cerr s @ handler_message w, main_at := M_exit 1\<rparr>)"

inductive_cases failing_stepE: "failing_step ops s t"

definition host_launch :: "unit outcome \<Rightarrow> 'b \<Rightarrow> bytes list \<Rightarrow> 'b host_state" where
  "host_launch constructed b inputs =
     (case constructed of
        Returns _ \<Rightarrow> host_start b inputs
      | Raises w \<Rightarrow> (host_start b inputs)
          \<lparr>consumer_at := C_done \<lparr>success = False, frames_consumed = 0\<rparr>,
           cerr := handler_message w, main_at := M_exit 1\<rparr>)"

lemma raised_launch_stuck: "\<not> failing_step ops (host_launch (Raises w) b inputs) t"
  by (auto simp: host_launch_def host_start_def host_step_iff main_step_def consumer_step_def
      elim!: failing_stepE)

subsection \<open>The invariant of the handlers\<close>

text \<open>
  What the main thread has done when it is in a handler or has left \<^verbatim>\<open>main\<close> through one: the
  inputs of a prefix, and possibly the first record of the next one.
\<close>

inductive caught_view ::
    "bytes list \<Rightarrow> main_pc \<Rightarrow> IngestEvent list \<Rightarrow> bytes list \<Rightarrow> bool \<Rightarrow> string \<Rightarrow> bool"
  for inputs where
  at_catch: "inputs = d @ rest \<Longrightarrow> E \<in> {[], [Ev_input]} \<Longrightarrow>
    caught_view inputs (M_catch w) (ingested d @ E) (filter valid_frame d) False []"
| at_catch_join: "inputs = d @ rest \<Longrightarrow> E \<in> {[], [Ev_input]} \<Longrightarrow>
    caught_view inputs (M_catch_join w) (ingested d @ E) (filter valid_frame d) True []"
| at_failed: "inputs = d @ rest \<Longrightarrow> E \<in> {[], [Ev_input]} \<Longrightarrow>
    caught_view inputs (M_exit 1) (ingested d @ E) (filter valid_frame d) True (handler_message w)"

lemma caught_view_valid: "caught_view inputs pc E P c out \<Longrightarrow> \<forall>q \<in> set P. valid_frame q"
  by (induction rule: caught_view.induct) auto

lemma at_catch_now:
  "inputs = d @ rest \<Longrightarrow> caught_view inputs (M_catch w) (ingested d) (filter valid_frame d) False []"
  using at_catch [of inputs d rest "[]" w] by simp

context host_run
begin

definition caught_inv :: "'b host_state \<Rightarrow> bool" where
  "caught_inv s \<longleftrightarrow> (\<exists>E pr Q.
     caught_view inputs (main_at s) E (pr @ Q) (closed (the_buffer s)) (cerr s)
     \<and> consumer_view (consumer_at s) pr Q (items (the_buffer s)) (closed (the_buffer s))
     \<and> the_metrics s = metrics_after E pr \<and> valid (the_buffer s) \<and> cout s = []
     \<and> (main_at s = M_exit 1 \<longrightarrow> (\<exists>r. consumer_at s = C_done r)))"

lemma caught_invI:
  assumes "caught_view inputs (main_at s) E (pr @ Q) (closed (the_buffer s)) (cerr s)"
    and "consumer_view (consumer_at s) pr Q (items (the_buffer s)) (closed (the_buffer s))"
    and "the_metrics s = metrics_after E pr" and "valid (the_buffer s)" and "cout s = []"
    and "main_at s = M_exit 1 \<Longrightarrow> \<exists>r. consumer_at s = C_done r"
  shows "caught_inv s"
  using assms unfolding caught_inv_def by blast

text \<open>An exception takes a state of the regular run into the handlers.\<close>

lemma raise_caught:
  assumes "host_inv s" and "failing_step ops s t" and "\<not> host_step ops s t"
  shows "caught_inv t"
proof -
  from assms(1) obtain E pr Q where
    mv: "main_view inputs (main_at s) (frames_left s) E (pr @ Q) (closed (the_buffer s))" and
    cv: "consumer_view (consumer_at s) pr Q (items (the_buffer s)) (closed (the_buffer s))" and
    m: "the_metrics s = metrics_after E pr" "valid (the_buffer s)" and ok: "output_ok s"
    unfolding host_inv_def host_at_def by blast
  from assms(2) show ?thesis
  proof (cases rule: failing_step.cases)
    case regular
    with assms(3) show ?thesis by simp
  next
    case (generate_raises b inputs' w)
    then have "main_at s = M_next" by (simp add: host_start_def)
    with mv ok m cv generate_raises(1) show ?thesis
      by (intro caught_invI [of t E pr Q])
        (auto simp: output_ok_def elim!: main_view_cases intro: at_catch_now)
  next
    case (copy_raises bs w)
    with mv ok m cv show ?thesis
      by (intro caught_invI [of t E pr Q])
        (auto simp: output_ok_def elim!: main_view_cases intro: at_catch)
  next
    case (push_raises bs w)
    with mv ok m cv show ?thesis
      by (intro caught_invI [of t E pr Q])
        (auto simp: output_ok_def elim!: main_view_cases intro: at_catch)
  next
    case (report_raises r w)
    have "caught_view inputs (M_exit 1) (ingested inputs) (filter valid_frame inputs) True (handler_message w)"
      using at_failed [of inputs inputs "[]" "[]" w] by simp
    with report_raises mv ok m cv show ?thesis
      by (intro caught_invI [of t E pr Q]) (auto simp: output_ok_def elim!: main_view_cases)
  qed
qed

lemma caught_main:
  assumes "caught_inv s" and "main_step ops s = Some t"
  shows "caught_inv t"
proof -
  from assms(1) obtain E pr Q where
    view: "caught_view inputs (main_at s) E (pr @ Q) (closed (the_buffer s)) (cerr s)" and
    cv: "consumer_view (consumer_at s) pr Q (items (the_buffer s)) (closed (the_buffer s))" and
    rest: "the_metrics s = metrics_after E pr" "valid (the_buffer s)" "cout s = []"
    unfolding caught_inv_def by blast
  note step = assms(2) [unfolded main_step_def]
  from view show ?thesis
  proof (cases rule: caught_view.cases)
    case (at_catch d r E' w)
    with step cv rest close_closes [OF rest(2)] caught_view.at_catch_join [of inputs d r E' w] show ?thesis
      by (intro caught_invI [of t E pr Q]) (auto intro: consumer_view_closed)
  next
    case (at_catch_join d r E' w)
    then obtain res where "consumer_at s = C_done res"
        "t = s\<lparr>cerr := cerr s @ handler_message w, main_at := M_exit 1\<rparr>"
      using step by (auto split: consumer_pc.splits)
    with at_catch_join cv rest caught_view.at_failed [of inputs d r E' w] show ?thesis
      by (intro caught_invI [of t E pr Q]) auto
  next
    case at_failed
    with step show ?thesis by simp
  qed
qed

lemma caught_consumer:
  assumes "caught_inv s" and "consumer_step ops s = Some t"
  shows "caught_inv t"
proof -
  from assms(1) obtain E pr Q where
    view: "caught_view inputs (main_at s) E (pr @ Q) (closed (the_buffer s)) (cerr s)" and
    cv: "consumer_view (consumer_at s) pr Q (items (the_buffer s)) (closed (the_buffer s))" and
    m: "the_metrics s = metrics_after E pr" and v: "valid (the_buffer s)" and out: "cout s = []"
      "main_at s = M_exit 1 \<longrightarrow> (\<exists>r. consumer_at s = C_done r)"
    unfolding caught_inv_def by blast
  have "\<forall>q \<in> set Q. valid_frame q" using caught_view_valid [OF view] by simp
  from consumer_step_view [OF cv m v this assms(2)] obtain pr' Q' where
    "pr' @ Q' = pr @ Q" "consumer_view (consumer_at t) pr' Q' (items (the_buffer t)) (closed (the_buffer t))"
      "the_metrics t = metrics_after E pr'" "valid (the_buffer t)" "main_at t = main_at s"
      "closed (the_buffer t) = closed (the_buffer s)" "cout t = cout s" "cerr t = cerr s"
      "\<forall>r. consumer_at s \<noteq> C_done r"
    by blast
  with view out show ?thesis by (intro caught_invI [of t E pr' Q']) auto
qed

definition failing_inv :: "'b host_state \<Rightarrow> bool" where
  "failing_inv s \<longleftrightarrow> host_inv s \<or> caught_inv s"

lemma caught_step:
  assumes "caught_inv s" and "failing_step ops s t"
  shows "host_step ops s t"
  using assms(2)
  by (cases rule: failing_step.cases)
    (use assms(1) in \<open>auto simp: caught_inv_def host_start_def elim: caught_view.cases\<close>)

lemma failing_step_inv: "failing_inv s \<Longrightarrow> failing_step ops s t \<Longrightarrow> failing_inv t"
  unfolding failing_inv_def
  using caught_step [of s t] raise_caught [of s t] host_step_inv [of s t] caught_main [of s t]
    caught_consumer [of s t]
  by (auto simp: host_step_iff)

lemma failing_step_decreases:
  assumes "failing_inv s" and "failing_step ops s t"
  shows "host_bound t < host_bound s"
proof (cases "caught_inv s")
  case True
  then have v: "valid (the_buffer s)" by (auto simp: caught_inv_def)
  have "host_bound t < host_bound s" if step: "main_step ops s = Some t"
  proof (cases "\<exists>w. main_at s = M_catch w")
    case True
    with step close_closes [OF v] show ?thesis by (auto simp: main_step_def host_bound_def)
  next
    case False
    with main_step_decreases [OF v step] show ?thesis by simp
  qed
  with caught_step [OF True assms(2)] consumer_step_decreases [OF v] show ?thesis
    by (auto simp: host_step_iff)
next
  case False
  with assms(1) have inv: "host_inv s" by (simp add: failing_inv_def)
  from assms(2) show ?thesis
    by (cases rule: failing_step.cases)
      (use host_step_decreases [OF inv] in \<open>auto simp: host_bound_def host_start_def\<close>)
qed

lemma caught_steps: "(failing_step ops)\<^sup>*\<^sup>* s t \<Longrightarrow> caught_inv s \<Longrightarrow> caught_inv t"
proof (induction rule: rtranclp_induct)
  case (step t u)
  with caught_step [of t u] show ?case by (auto simp: host_step_iff intro: caught_main caught_consumer)
qed

lemma caught_not_zero: "caught_inv s \<Longrightarrow> main_at s \<noteq> M_exit 0"
  by (auto simp: caught_inv_def elim: caught_view.cases)

lemma generate_caught: "caught_inv ((host_start b0 inputs)\<lparr>main_at := M_catch w\<rparr>)"
  by (rule raise_caught [OF host_inv_start failing_step.generate_raises [OF refl]])
    (auto simp: host_step_iff main_step_def consumer_step_def host_start_def
      split: list.splits option.splits outcome.splits)

lemma failing_progress:
  assumes "failing_inv s" and "\<not> (\<exists>c. main_at s = M_exit c)"
  shows "\<exists>t. failing_step ops s t"
proof (cases "caught_inv s")
  case True
  then obtain E P out where view: "caught_view inputs (main_at s) E P (closed (the_buffer s)) out"
    and v: "valid (the_buffer s)"
    unfolding caught_inv_def by blast
  from view have "\<exists>t. host_step ops s t"
  proof (cases rule: caught_view.cases)
    case at_catch
    then have "\<exists>t. main_step ops s = Some t" by (simp add: main_step_def)
    then show ?thesis by (auto simp: host_step_iff)
  next
    case at_catch_join
    then show ?thesis
      using consumer_stuck [OF v] by (cases "consumer_step ops s") (auto simp: host_step_iff main_step_def)
  qed (use assms(2) in simp)
  then show ?thesis by (auto intro: failing_step.regular)
next
  case False
  with assms have "\<exists>t. host_step ops s t" using host_progress by (simp add: failing_inv_def)
  then show ?thesis by (auto intro: failing_step.regular)
qed

end

sublocale host_run \<subseteq> failing: step_system "failing_step ops" "host_start b0 inputs" failing_inv host_bound
    "\<lambda>s. \<exists>c. main_at s = M_exit c"
proof
  show "failing_inv (host_start b0 inputs)" by (simp add: failing_inv_def host_inv_start)
qed (fact failing_step_inv failing_step_decreases failing_progress)+

context host_run
begin

lemma failing_exit_state:
  assumes "failing_inv s" and "main_at s = M_exit c"
  shows "(c = 0 \<and> cerr s = [] \<and> cout s = make_text_report (snapshot (final_metrics inputs)))
    \<or> (c = 1 \<and> cout s = [] \<and> (\<exists>w. cerr s = handler_message w) \<and> items (the_buffer s) = []
        \<and> (\<exists>d rest E. inputs = d @ rest \<and> E \<in> {[], [Ev_input]} \<and> the_metrics s
            = fold record_processed (map decoded (filter valid_frame d))
                (fold record_ingest (ingested d @ E) new_metrics)))"
proof (cases "caught_inv s")
  case True
  then obtain E pr Q where
    view: "caught_view inputs (M_exit c) E (pr @ Q) (closed (the_buffer s)) (cerr s)" and
    cv: "consumer_view (consumer_at s) pr Q (items (the_buffer s)) (closed (the_buffer s))" and
    m: "the_metrics s = metrics_after E pr" "cout s = []" and
    finished: "c = 1 \<longrightarrow> (\<exists>r. consumer_at s = C_done r)"
    unfolding caught_inv_def assms(2) by auto
  from view obtain d rest E' w where v: "c = 1" "inputs = d @ rest" "E' \<in> {[], [Ev_input]}"
      "E = ingested d @ E'" "pr @ Q = filter valid_frame d" "cerr s = handler_message w"
    by (cases rule: caught_view.cases) auto
  with cv finished have q: "Q = []" "items (the_buffer s) = []" by (auto elim: consumer_view_cases)
  with v m have "the_metrics s = fold record_processed (map decoded (filter valid_frame d))
      (fold record_ingest (ingested d @ E') new_metrics)"
    by (simp add: metrics_after_def)
  with v(1-3,6) m(2) q(2) show ?thesis by blast
next
  case False
  with assms exit_state [of s c] show ?thesis by (simp add: failing_inv_def)
qed

lemma failing_runs:
  assumes "(failing_step ops ^^ n) (host_start b0 inputs) s"
  shows "n \<le> 10 * length inputs + 6
    \<and> ((\<exists>t. failing_step ops s t) \<or> (\<exists>c. main_at s = M_exit c)) \<and> failing_inv s"
proof -
  have "(failing_step ops)\<^sup>*\<^sup>* (host_start b0 inputs) s" using assms by (rule relpowp_imp_rtranclp)
  from failing.stuck_is_final [OF this] failing.reachable_inv [OF this] failing.run_bounded [OF assms]
  show ?thesis by (auto simp: host_bound_start)
qed

end

subsection \<open>Properties\<close>

text \<open>C16: exceptions of the main thread are reported and lose nothing: whichever construction,
  allocation or call of \<^verbatim>\<open>push\<close> throws, on whatever schedule, a run has at most \<open>10 * n + 6\<close> steps,
  and it ends either as the undisturbed program does or with exit code 1, no report, one message of
  the handlers, the queue empty, and every frame accepted before the exception processed.\<close>

theorem exceptions_are_reported:
  assumes "safe_buffer ops items closed capacity valid" and "valid b0" and "\<not> closed b0"
    and "items b0 = []" and "(failing_step ops ^^ n) (host_launch constructed b0 inputs) s"
    and "\<nexists>t. failing_step ops s t"
  shows "n \<le> 10 * length inputs + 6 \<and>
    ((main_at s = M_exit 0 \<and> cerr s = [] \<and> cout s = make_text_report (snapshot (final_metrics inputs)))
     \<or> (main_at s = M_exit 1 \<and> cout s = [] \<and> (\<exists>w. cerr s = handler_message w) \<and> items (the_buffer s) = []
        \<and> (\<exists>d rest E. inputs = d @ rest \<and> E \<in> {[], [Ev_input]} \<and> the_metrics s
            = fold record_processed (map decoded (filter valid_frame d))
                (fold record_ingest (ingested d @ E) new_metrics))))"
proof (cases constructed)
  case (Returns u)
  then have "(failing_step ops ^^ n) (host_start b0 inputs) s" using assms(5) by (simp add: host_launch_def)
  note run = host_run.failing_runs [OF host_runI [OF assms(1-4)] this]
  with assms(6) obtain c where "main_at s = M_exit c" by auto
  with host_run.failing_exit_state [OF host_runI [OF assms(1-4)] conjunct2 [OF conjunct2 [OF run]] this] run
  show ?thesis by auto
next
  case (Raises w)
  have start: "n = 0 \<and> s = host_launch constructed b0 inputs"
  proof (cases n)
    case (Suc k)
    with assms(5) obtain t where "failing_step ops (host_launch (Raises w) b0 inputs) t"
      unfolding Raises by (blast dest: relpowp_Suc_D2)
    then show ?thesis by (simp add: raised_launch_stuck)
  qed (use assms(5) in simp)
  have "inputs = [] @ inputs \<and> [] \<in> {[], [Ev_input]} \<and> the_metrics s
      = fold record_processed (map decoded (filter valid_frame []))
          (fold record_ingest (ingested [] @ []) new_metrics)"
    using start by (simp add: Raises host_launch_def host_start_def ingested_simps)
  moreover have "main_at s = M_exit 1 \<and> cout s = [] \<and> cerr s = handler_message w \<and> items (the_buffer s) = []"
    using start assms(4) by (simp add: Raises host_launch_def host_start_def)
  ultimately show ?thesis using start by blast
qed

theorem exceptions_are_reported_witness:
  "\<exists>s. (failing_step (list_buffer_ops queue_capacity))\<^sup>*\<^sup>* (host_start empty_list_buffer [[1]]) s
    \<and> main_at s = M_exit 1 \<and> cout s = [] \<and> (\<exists>w. cerr s = handler_message w)"
proof -
  let ?ops = "list_buffer_ops queue_capacity" and ?s0 = "host_start empty_list_buffer [[1]]"
  let ?s1 = "?s0\<lparr>main_at := M_catch (Some ''std::bad_alloc'')\<rparr>"
  have s1: "failing_step ?ops ?s0 ?s1" by (rule failing_step.generate_raises [OF refl])
  then have "(failing_step ?ops)\<^sup>*\<^sup>* ?s0 ?s1" by (rule r_into_rtranclp)
  from demo_run.failing.reaches_stuck [OF this] obtain s
    where s: "(failing_step ?ops)\<^sup>*\<^sup>* ?s1 s" "\<nexists>t. failing_step ?ops s t" by blast
  with s1 have run: "(failing_step ?ops)\<^sup>*\<^sup>* ?s0 s" by (simp add: converse_rtranclp_into_rtranclp)
  then obtain n where n: "(failing_step ?ops ^^ n) ?s0 s" by (auto dest: rtranclp_imp_relpowp)
  have "main_at s \<noteq> M_exit 0"
    by (rule demo_run.caught_not_zero) (rule demo_run.caught_steps [OF s(1) demo_run.generate_caught])
  moreover have b: "safe_buffer ?ops stored is_closed queue_capacity (\<lambda>_. True)"
    by (rule list_buffer_meets_contract) (simp add: queue_capacity_def)
  moreover have "(failing_step ?ops ^^ n) (host_launch (Returns ()) empty_list_buffer [[1]]) s"
    using n by (simp add: host_launch_def)
  moreover note exceptions_are_reported [OF b TrueI _ _ this s(2)]
  ultimately show ?thesis using run by (auto simp: empty_list_buffer_def)
qed

end
