(* ===== verification/Firmware_Robustness.thy ===== *)
theory Firmware_Robustness
  imports Firmware_Outcome
begin

text \<open>
  The firmware over a message queue whose calls may fail. \<^verbatim>\<open>TelemetryQueue\<close> turns every error code
  of the kernel into \<^verbatim>\<open>false\<close>, and both threads have a branch for it, so the contract here only
  says what a call may do to the queue: a put that returns 0 has appended its item, a get that
  returns 0 has removed the front, and any other code leaves the queue as it was. Nothing is said
  of when a call fails or waits. \<open>kernel_services\<close> is a special case.

  The results: what the console shows is right whatever fails, the exit code tells whether all
  eight frames were transmitted, and a failed put is never reported, because the transmitter
  then waits for an end marker that is never sent.
\<close>

subsection \<open>The contract\<close>

locale unreliable_kernel =
  fixes zephyr :: "('q, 's) kernel_ops"
    and messages :: "'q \<Rightarrow> TelemetryQueueItem list"
    and count :: "'s \<Rightarrow> nat"
  assumes purges: "messages (k_msgq_purge zephyr q) = []"
    and puts: "k_msgq_put zephyr item q = Some (rc, q') \<Longrightarrow>
      messages q' = (if rc = 0 then messages q @ [item] else messages q)"
    and gets: "k_msgq_get zephyr old q = Some (rc, m, q') \<Longrightarrow>
      messages q = (if rc = 0 then m # messages q' else messages q')"
    and gives: "count (k_sem_give zephyr c) \<le> count c + 1"
    and takes: "k_sem_take zephyr c = Some (rc, c') \<Longrightarrow> count c' < count c"

text \<open>Only a put may fail.\<close>

locale losing_kernel = unreliable_kernel +
  assumes get_succeeds: "k_msgq_get zephyr old q = Some (rc, m, q') \<Longrightarrow> rc = 0"

sublocale kernel_services \<subseteq> unreliable: losing_kernel zephyr messages count
proof
  fix q item rc q'
  assume "k_msgq_put zephyr item q = Some (rc, q')"
  then show "messages q' = (if rc = 0 then messages q @ [item] else messages q)"
    using put_room [of q item] put_full [of q item] by (cases "length (messages q) < max_msgs") auto
next
  fix old q rc m q'
  assume get: "k_msgq_get zephyr old q = Some (rc, m, q')"
  then show "messages q = (if rc = 0 then m # messages q' else messages q')"
    using get_empty [of q old] get_message [of q _ _ old] by (cases "messages q") auto
  from get show "rc = 0"
    using get_empty [of q old] get_message [of q _ _ old] by (cases "messages q") auto
next
  fix c c' rc
  assume "k_sem_take zephyr c = Some (rc, c')"
  then show "count c' < count c"
    using take_waits [of c] take_available [of c] by (cases "count c = 0") auto
qed (simp_all add: purge give)

subsection \<open>What each thread has done\<close>

inductive put_view :: "producer_pc \<Rightarrow> nat \<Rightarrow> bytes option list \<Rightarrow> bool \<Rightarrow> bool" where
  put_works: "producer_view pc k E S r \<Longrightarrow> put_view pc k S r"
| put_lost: "k < 8 \<Longrightarrow> put_view (P_pushed False) n (sent_frames k) False"
| put_end_lost: "put_view (P_pushed_end False) n (sent_frames 8) False"
| put_failed: "k \<le> 8 \<Longrightarrow> put_view (P_returned False) n (sent_frames k) False"
| put_gave_up: "k \<le> 8 \<Longrightarrow> put_view P_finished n (sent_frames k) False"

inductive get_view ::
    "transmitter_pc \<Rightarrow> bytes option list \<Rightarrow> bytes option list \<Rightarrow> string \<Rightarrow> bool \<Rightarrow> bool" where
  get_works: "transmitter_view pc S qs D out r \<Longrightarrow> get_view pc S qs out r"
| get_lost: "get_view (T_popped False item n) (map Some frs @ qs) qs (lines_of frs) False"
| get_failed: "get_view (T_returned False) (map Some frs @ qs) qs (lines_of frs) False"
| get_gave_up: "get_view T_finished (map Some frs @ qs) qs (lines_of frs) False"

inductive_cases put_view_cases: "put_view pc k S r"
inductive_cases get_view_cases: "get_view pc S qs out r"

lemma sent_frames_prefix: "sent_all = sent_frames k @ map Some (drop k encoded) @ [None]"
  by (simp add: sent_all_def sent_frames_def flip: map_append append_assoc)

lemma sent_prefix: "put_view pc k S r \<Longrightarrow> \<exists>rest. sent_all = S @ rest"
  using sent_frames_prefix by (auto elim!: put_view_cases producer_view.cases)

lemma sent_succeeded: "put_view pc k S True \<Longrightarrow> S = sent_all"
  by (auto elim!: put_view_cases producer_view.cases)

lemma sent_failed: "put_view pc k S False \<Longrightarrow> pc = P_finished \<or> pc = P_returned False \<Longrightarrow> None \<notin> set S"
  by (auto simp: sent_frames_def elim!: put_view_cases elim: producer_view_cases)

lemma received_part:
  assumes "get_view pc S qs out r"
  shows "\<exists>frs rest. S = map Some frs @ rest \<and> out = lines_of frs"
proof -
  have part: ?thesis if "out = lines_of frs" and "S = map Some frs @ rest" for frs rest
    using that by blast
  from assms show ?thesis
  proof (cases rule: get_view.cases)
    case (get_works D)
    then show ?thesis by (cases rule: transmitter_view.cases) (erule part, simp)+
  qed (erule part, assumption)+
qed

lemma received_all: "get_view pc S qs out True \<Longrightarrow> \<exists>frs. S = map Some frs @ None # qs \<and> out = lines_of frs"
  by (auto elim!: get_view_cases transmitter_view.cases)

lemma part_of_encoded:
  assumes "map Some frs @ rest = sent_all"
  shows "\<exists>j \<le> 8. frs = take j encoded"
proof (intro exI conjI)
  have "length frs \<le> length (map Some encoded)"
  proof (rule ccontr)
    assume "\<not> length frs \<le> length (map Some encoded)"
    then have "(map Some frs @ rest) ! 8 \<noteq> None" by (simp add: nth_append)
    moreover have "sent_all ! 8 = None" by (simp add: sent_all_def sent_frames_def nth_append)
    ultimately show False using assms by simp
  qed
  then show le: "length frs \<le> 8" by simp
  have "map Some frs = take (length frs) (map Some frs @ rest)" by simp
  also have "\<dots> = map Some (take (length frs) encoded)"
    using le by (simp add: assms sent_all_def sent_frames_def take_map)
  finally show "frs = take (length frs) encoded" by (rule inj_map_eq_map [THEN iffD1, rotated]) simp
qed

lemma transmitter_view_appends:
  "transmitter_view pc S qs D out r \<Longrightarrow> transmitter_view pc (S @ x) (qs @ x) D out r"
proof (induction x rule: rev_induct)
  case (snoc y ys)
  with transmitter_view_append [of pc "S @ ys" "qs @ ys"] show ?case by simp
qed simp

lemma get_view_append: "get_view pc S qs out r \<Longrightarrow> get_view pc (S @ x) (qs @ x) out r"
proof (induction rule: get_view.induct)
  case (get_works pc S qs D out r)
  then show ?case by (intro get_view.get_works transmitter_view_appends)
qed (simp_all add: get_view.intros)

subsection \<open>The invariant\<close>

definition error_text :: "FirmwareMetricsSnapshot \<Rightarrow> string" where
  "error_text m = ''TLFIRMWARE ERROR '' @ counters_text m"

text \<open>What main has written, by its program counter.\<close>

definition reported :: "('q, 's) firmware_state \<Rightarrow> string" where
  "reported s = (case fw_main_at s of
      F_exit c \<Rightarrow> if c = 0 then final_text else error_text (firmware_snapshot (fw_metrics s))
    | _ \<Rightarrow> [])"

context unreliable_kernel
begin

definition queued :: "'q \<Rightarrow> bytes option list" where
  "queued q = map signal_of (messages q)"

definition sem_view :: "('q, 's) firmware_state \<Rightarrow> bool" where
  "sem_view s \<longleftrightarrow>
     count (producer_finished s) + (if fw_main_at s = F_take_producer then 0 else 1)
       \<le> (if producer_at s = P_finished then 1 else 0)
     \<and> count (transmitter_finished s)
         + (if fw_main_at s = F_take_producer \<or> fw_main_at s = F_take_transmitter then 0 else 1)
       \<le> (if transmitter_at s = T_finished then 1 else 0)"

definition unreliable_inv :: "('q, 's) firmware_state \<Rightarrow> bool" where
  "unreliable_inv s \<longleftrightarrow> (\<exists>S out.
     put_view (producer_at s) (next_index' (fw_sensor s)) S (producer_succeeded s)
     \<and> get_view (transmitter_at s) S (queued (fw_queue s)) out (transmitter_succeeded s)
     \<and> sem_view s \<and> console s = out @ reported s
     \<and> (fw_main_at s = F_exit 0 \<longrightarrow> producer_succeeded s \<and> transmitter_succeeded s))"

lemma unreliable_invI:
  assumes "put_view (producer_at s) (next_index' (fw_sensor s)) S (producer_succeeded s)"
    and "get_view (transmitter_at s) S (queued (fw_queue s)) out (transmitter_succeeded s)"
    and "sem_view s" and "console s = out @ reported s"
    and "fw_main_at s = F_exit 0 \<longrightarrow> producer_succeeded s \<and> transmitter_succeeded s"
  shows "unreliable_inv s"
  using assms unfolding unreliable_inv_def by blast

lemma unreliable_start:
  assumes "count sp = 0" and "count st = 0"
  shows "unreliable_inv (firmware_start zephyr q0 sp st)"
proof (rule unreliable_invI [where S = "sent_frames 0" and out = "[]"])
  show "put_view (producer_at (firmware_start zephyr q0 sp st))
      (next_index' (fw_sensor (firmware_start zephyr q0 sp st))) (sent_frames 0)
      (producer_succeeded (firmware_start zephyr q0 sp st))"
    using put_works [OF producer_view.at_head [of 0]] by (simp add: firmware_start_def new_sensor_model_def)
  show "get_view (transmitter_at (firmware_start zephyr q0 sp st)) (sent_frames 0)
      (queued (fw_queue (firmware_start zephyr q0 sp st))) []
      (transmitter_succeeded (firmware_start zephyr q0 sp st))"
    using get_works [OF transmitter_view.at_pop [of "[]" "[]"]]
    by (simp add: firmware_start_def sent_frames_def construct_queue_def queued_def purges lines_of_def)
qed (use assms in \<open>simp_all add: firmware_start_def sem_view_def reported_def\<close>)

lemma push_frame_effect:
  "push_frame zephyr fr q = Some (ok, q') \<Longrightarrow> queued q' = queued q @ (if ok then [Some fr] else [])"
  by (auto simp: push_frame_def queued_def signal_of_def Let_def dest!: puts split: option.splits if_splits)

lemma push_end_effect:
  "push_end_of_stream zephyr q = Some (ok, q') \<Longrightarrow> queued q' = queued q @ (if ok then [None] else [])"
  by (auto simp: push_end_of_stream_def queued_def signal_of_def Let_def dest!: puts
      split: option.splits if_splits)

lemma pop_effect:
  "pop_item zephyr old q = Some (ok, item, q') \<Longrightarrow>
    queued q = (if ok then signal_of item # queued q' else queued q')"
  by (auto simp: pop_item_def queued_def dest!: gets split: option.splits if_splits)

text \<open>A step of the producer sends a list of signals, empty or one.\<close>

lemma put_step_works:
  assumes "producer_view (producer_at s) (next_index' (fw_sensor s)) E S (producer_succeeded s)"
    and "producer_step zephyr s = Some t"
  shows "\<exists>x. put_view (producer_at t) (next_index' (fw_sensor t)) (S @ x) (producer_succeeded t)
    \<and> queued (fw_queue t) = queued (fw_queue s) @ x"
proof -
  note step = assms(2) [unfolded producer_step_def]
  have sends: ?thesis
    if "put_view (producer_at t) (next_index' (fw_sensor t)) (S @ x) (producer_succeeded t)"
      and "queued (fw_queue t) = queued (fw_queue s) @ x" for x
    using that by blast
  from assms(1) show ?thesis
  proof (cases rule: producer_view.cases)
    case at_head
    with step show ?thesis
      by (intro sends [of "[]"])
        (auto simp: has_next_iff next_frame_eq le_less split: if_splits
          intro!: put_view.put_works intro: producer_view.intros)
  next
    case (at_push k)
    with step obtain ok q where q: "push_frame zephyr (serialize (sensor_frame k)) (fw_queue s) = Some (ok, q)"
      "t = s\<lparr>fw_queue := q, producer_at := P_pushed ok\<rparr>"
      by (auto split: option.splits)
    with at_push push_frame_effect [OF q(1)] put_view.put_works [OF producer_view.at_pushed [of k]]
    show ?thesis
      by (intro sends [of "if ok then [Some (serialize (sensor_frame k))] else []"])
        (auto simp: sent_frames_Suc intro: put_view.put_lost)
  next
    case at_push_end
    with step obtain ok q where q: "push_end_of_stream zephyr (fw_queue s) = Some (ok, q)"
      "t = s\<lparr>fw_queue := q, producer_at := P_pushed_end ok\<rparr>"
      by (auto split: option.splits)
    with at_push_end push_end_effect [OF q(1)] put_view.put_works [OF producer_view.at_pushed_end]
    show ?thesis
      by (intro sends [of "if ok then [None] else []"])
        (auto simp: sent_all_def intro: put_view.put_end_lost)
  next
    case at_serialized
    with step show ?thesis
      by (intro sends [of "[]"]) (auto intro!: put_view.put_works intro: producer_view.at_push)
  next
    case (at_pushed k)
    with step put_view.put_works [OF producer_view.at_head [of "Suc k"]] show ?thesis
      by (intro sends [of "[]"]) auto
  qed (use step in \<open>intro sends [of "[]"]; auto intro!: put_view.put_works intro: producer_view.intros\<close>)+
qed

lemma put_step:
  assumes "put_view (producer_at s) (next_index' (fw_sensor s)) S (producer_succeeded s)"
    and "producer_step zephyr s = Some t"
  shows "\<exists>x. put_view (producer_at t) (next_index' (fw_sensor t)) (S @ x) (producer_succeeded t)
    \<and> queued (fw_queue t) = queued (fw_queue s) @ x"
proof -
  note step = assms(2) [unfolded producer_step_def]
  have sends: ?thesis
    if "put_view (producer_at t) (next_index' (fw_sensor t)) (S @ x) (producer_succeeded t)"
      and "queued (fw_queue t) = queued (fw_queue s) @ x" for x
    using that by blast
  from assms(1) show ?thesis
  proof (cases rule: put_view.cases)
    case (put_works E)
    from put_step_works [OF this assms(2)] show ?thesis .
  next
    case (put_lost k)
    with step put_view.put_failed [of k] show ?thesis by (intro sends [of "[]"]) auto
  next
    case put_end_lost
    with step put_view.put_failed [of 8] show ?thesis by (intro sends [of "[]"]) auto
  next
    case (put_failed k)
    with step put_view.put_gave_up [of k] show ?thesis by (intro sends [of "[]"]) auto
  qed (use step in simp)
qed

text \<open>A step of the transmitter receives signals and extends what has been printed.\<close>

lemma get_step:
  assumes "get_view (transmitter_at s) S (queued (fw_queue s)) out (transmitter_succeeded s)"
    and "transmitter_step zephyr s = Some t"
  shows "\<exists>x. get_view (transmitter_at t) S (queued (fw_queue t)) (out @ x) (transmitter_succeeded t)
    \<and> console t = console s @ x"
proof -
  note step = assms(2) [unfolded transmitter_step_def]
  have prints: ?thesis
    if "get_view (transmitter_at t) S (queued (fw_queue t)) (out @ x) (transmitter_succeeded t)"
      and "console t = console s @ x" for x
    using that by blast
  from assms(1) show ?thesis
  proof (cases rule: get_view.cases)
    case (get_works D)
    then show ?thesis
    proof (cases rule: transmitter_view.cases)
      case (at_pop frs)
      with step obtain ok item q where q: "pop_item zephyr default_item (fw_queue s) = Some (ok, item, q)"
        "t = s\<lparr>fw_queue := q, transmitter_at := T_popped ok item (of_nat (length frs))\<rparr>"
        by (auto split: option.splits)
      with at_pop pop_effect [OF q(1)] get_view.get_works [OF transmitter_view.at_popped [of item frs "queued q"]]
      show ?thesis
        by (intro prints [of "[]"]) (auto intro: get_view.get_lost)
    next
      case (at_popped item frs)
      with step get_view.get_works [OF transmitter_view.at_print [of "item_bytes item" frs "queued (fw_queue s)"]]
        get_view.get_works [OF transmitter_view.at_returned [of frs "queued (fw_queue s)"]]
      show ?thesis
        by (intro prints [of "[]"]) (auto simp: signal_of_def split: if_splits QueueItemKind.splits)
    next
      case (at_print fr frs)
      with step get_view.get_works [OF transmitter_view.at_printed [of frs fr "queued (fw_queue s)"]]
      show ?thesis
        by (intro prints [of "frame_line (of_nat (length frs) + 1) (format fr)"]) (auto simp: lines_of_snoc)
    next
      case (at_printed frs fr)
      with step get_view.get_works [OF transmitter_view.at_pop [of "frs @ [fr]" "queued (fw_queue s)"]]
      show ?thesis
        by (intro prints [of "[]"]) (auto simp: add.commute)
    next
      case (at_returned frs)
      with step get_view.get_works [OF transmitter_view.at_finished [of frs "queued (fw_queue s)"]]
      show ?thesis by (intro prints [of "[]"]) auto
    qed (use step in simp)
  qed (use step in \<open>intro prints [of "[]"]; auto intro: get_view.intros\<close>)+
qed

lemma producer_frame:
  assumes "producer_step zephyr s = Some t"
  shows "transmitter_at t = transmitter_at s" "fw_main_at t = fw_main_at s" "console t = console s"
    "transmitter_succeeded t = transmitter_succeeded s" "producer_at s \<noteq> P_finished"
    "transmitter_finished t = transmitter_finished s"
    "producer_at t \<noteq> P_finished \<Longrightarrow> producer_finished t = producer_finished s"
    "count (producer_finished t) \<le> count (producer_finished s) + 1"
  using assms gives by (auto simp: producer_step_def le_SucI split: producer_pc.splits prod.splits
      option.splits if_splits)

lemma transmitter_frame:
  assumes "transmitter_step zephyr s = Some t"
  shows "producer_at t = producer_at s" "fw_main_at t = fw_main_at s" "fw_sensor t = fw_sensor s"
    "producer_succeeded t = producer_succeeded s" "transmitter_at s \<noteq> T_finished"
    "producer_finished t = producer_finished s"
    "transmitter_at t \<noteq> T_finished \<Longrightarrow> transmitter_finished t = transmitter_finished s"
    "count (transmitter_finished t) \<le> count (transmitter_finished s) + 1"
  using assms gives by (auto simp: transmitter_step_def le_SucI split: transmitter_pc.splits prod.splits
      option.splits if_splits)

lemma sem_view_running:
  "sem_view s \<Longrightarrow> producer_at s \<noteq> P_finished \<or> transmitter_at s \<noteq> T_finished \<Longrightarrow> reported s = []"
  by (cases "fw_main_at s") (auto simp: sem_view_def reported_def split: if_splits)

lemma unreliable_producer:
  assumes "unreliable_inv s" and "producer_step zephyr s = Some t"
  shows "unreliable_inv t"
proof -
  from assms(1) obtain S out where
    pv: "put_view (producer_at s) (next_index' (fw_sensor s)) S (producer_succeeded s)" and
    tv: "get_view (transmitter_at s) S (queued (fw_queue s)) out (transmitter_succeeded s)" and
    sem: "sem_view s" and con: "console s = out @ reported s"
    unfolding unreliable_inv_def by blast
  note same = producer_frame [OF assms(2)]
  from put_step [OF pv assms(2)] obtain x where
    x: "put_view (producer_at t) (next_index' (fw_sensor t)) (S @ x) (producer_succeeded t)"
      "queued (fw_queue t) = queued (fw_queue s) @ x" by blast
  have running: "fw_main_at s = F_take_producer" "reported s = []" "reported t = []"
    using sem same by (auto simp: sem_view_def reported_def split: if_splits)
  have "sem_view t" using sem same running by (auto simp: sem_view_def split: if_splits)
  with x get_view_append [OF tv, of x] same con running show ?thesis
    by (intro unreliable_invI [of t "S @ x" out]) auto
qed

lemma unreliable_transmitter:
  assumes "unreliable_inv s" and "transmitter_step zephyr s = Some t"
  shows "unreliable_inv t"
proof -
  from assms(1) obtain S out where
    pv: "put_view (producer_at s) (next_index' (fw_sensor s)) S (producer_succeeded s)" and
    tv: "get_view (transmitter_at s) S (queued (fw_queue s)) out (transmitter_succeeded s)" and
    sem: "sem_view s" and con: "console s = out @ reported s"
    unfolding unreliable_inv_def by blast
  note same = transmitter_frame [OF assms(2)]
  from get_step [OF tv assms(2)] obtain x where
    x: "get_view (transmitter_at t) S (queued (fw_queue t)) (out @ x) (transmitter_succeeded t)"
      "console t = console s @ x" by blast
  have running: "fw_main_at s = F_take_producer \<or> fw_main_at s = F_take_transmitter"
      "reported s = []" "reported t = []"
    using sem same by (auto simp: sem_view_def reported_def split: if_splits)
  have "sem_view t" using sem same running by (auto simp: sem_view_def split: if_splits)
  with x pv same con running show ?thesis
    by (intro unreliable_invI [of t S "out @ x"]) auto
qed

lemma valid_counters_text:
  assumes "metrics_are_valid m"
  shows "''TLFIRMWARE SUMMARY '' @ counters_text m @ ''TLFIRMWARE DONE'' @ [CHR 0x0A] = final_text"
proof -
  have "show_nat 8 = ''8''" "show_nat 0 = ''0''"
    by (simp_all add: show_nat.simps digit_char_def)
  with assms show ?thesis
    by (simp add: metrics_are_valid_def counters_text_def final_text_def deterministic_sample_count_def)
qed

lemma unreliable_main:
  assumes "unreliable_inv s" and "firmware_main_step zephyr s = Some t"
  shows "unreliable_inv t"
proof -
  from assms(1) obtain S out where
    pv: "put_view (producer_at s) (next_index' (fw_sensor s)) S (producer_succeeded s)" and
    tv: "get_view (transmitter_at s) S (queued (fw_queue s)) out (transmitter_succeeded s)" and
    sem: "sem_view s" and con: "console s = out @ reported s"
    unfolding unreliable_inv_def by blast
  note step = assms(2) [unfolded firmware_main_step_def]
  show ?thesis
  proof (cases "fw_main_at s")
    case F_take_producer
    with step pv tv sem con show ?thesis
      by (intro unreliable_invI [of t S out])
        (auto simp: sem_view_def reported_def split: option.splits if_splits dest!: takes)
  next
    case F_take_transmitter
    with step pv tv sem con show ?thesis
      by (intro unreliable_invI [of t S out])
        (auto simp: sem_view_def reported_def split: option.splits if_splits dest!: takes)
  next
    case F_report
    with step pv tv sem con valid_counters_text [of "firmware_snapshot (fw_metrics s)"] show ?thesis
      by (intro unreliable_invI [of t S out])
        (auto simp: sem_view_def reported_def report_main_def error_text_def Let_def split: if_splits)
  next
    case (F_exit c)
    with step show ?thesis by simp
  qed
qed

lemma unreliable_reachable:
  assumes "(firmware_step zephyr)\<^sup>*\<^sup>* (firmware_start zephyr q0 sp st) s" and "count sp = 0" and "count st = 0"
  shows "unreliable_inv s"
  using assms(1)
  by (induction rule: rtranclp_induct)
    (auto simp: firmware_step_iff unreliable_start [OF assms(2,3)]
      intro: unreliable_producer unreliable_transmitter unreliable_main)

text \<open>What the console shows, and what the exit code means.\<close>

lemma console_shows:
  assumes "unreliable_inv s"
  shows "\<exists>j \<le> 8. console s = lines_of (take j encoded) @ reported s \<and> (fw_main_at s = F_exit 0 \<longrightarrow> j = 8)"
proof -
  from assms obtain S out where
    pv: "put_view (producer_at s) (next_index' (fw_sensor s)) S (producer_succeeded s)" and
    tv: "get_view (transmitter_at s) S (queued (fw_queue s)) out (transmitter_succeeded s)" and
    con: "console s = out @ reported s"
      "fw_main_at s = F_exit 0 \<longrightarrow> producer_succeeded s \<and> transmitter_succeeded s"
    unfolding unreliable_inv_def by blast
  obtain rest where rest: "sent_all = S @ rest" using sent_prefix [OF pv] by blast
  show ?thesis
  proof (cases "fw_main_at s = F_exit 0")
    case True
    with con tv pv obtain frs where "S = map Some frs @ None # queued (fw_queue s)" "out = lines_of frs"
        "S = sent_all"
      using received_all sent_succeeded by metis
    with marker_unique [of encoded frs "queued (fw_queue s)"] con True show ?thesis
      by (intro exI [of _ 8]) (simp add: sent_all_def sent_frames_def)
  next
    case False
    from received_part [OF tv] obtain frs r where frs: "S = map Some frs @ r" "out = lines_of frs" by blast
    with rest part_of_encoded [of frs "r @ rest"] obtain j where "j \<le> 8" "frs = take j encoded" by auto
    with frs con False show ?thesis by auto
  qed
qed

definition failed_put :: "('q, 's) firmware_state \<Rightarrow> bool" where
  "failed_put s \<longleftrightarrow> queue_push_failures (firmware_snapshot (fw_metrics s)) = 0
     \<or> (producer_at s = P_returned False \<or> producer_at s = P_finished) \<and> \<not> producer_succeeded s"

lemma failed_put_producer:
  assumes "failed_put s" and "producer_step zephyr s = Some t" and "unreliable_inv s"
  shows "failed_put t"
proof -
  have "producer_at s = P_returned False \<Longrightarrow> \<not> producer_succeeded s"
    using assms(3) by (auto simp: unreliable_inv_def elim!: put_view_cases elim: producer_view_cases)
  moreover have "producer_at s \<noteq> P_returned False \<Longrightarrow> producer_at s \<noteq> P_returned True \<Longrightarrow> \<not> producer_succeeded s"
    using assms(2,3) by (auto simp: unreliable_inv_def producer_step_def elim!: put_view_cases elim: producer_view.cases)
  ultimately show ?thesis
    using assms(1,2)
    by (auto simp: failed_put_def producer_step_def firmware_snapshot_def firmware_record_defs
        split: producer_pc.splits prod.splits option.splits if_splits)
qed

lemma push_failures_kept:
  "transmitter_step zephyr s = Some t \<Longrightarrow>
    queue_push_failures (firmware_snapshot (fw_metrics t)) = queue_push_failures (firmware_snapshot (fw_metrics s))"
  by (cases "transmitter_at s")
    (auto simp: transmitter_step_def firmware_snapshot_def firmware_record_defs split: option.splits if_splits)

lemma main_frame:
  assumes "firmware_main_step zephyr s = Some t"
  shows "fw_metrics t = fw_metrics s" "producer_at t = producer_at s"
    "producer_succeeded t = producer_succeeded s" "transmitter_at t = transmitter_at s"
    "transmitter_succeeded t = transmitter_succeeded s"
  using assms
  by (cases "fw_main_at s";
      auto simp: firmware_main_step_def report_main_def Let_def split: option.splits)+

lemma failed_put_others:
  assumes "failed_put s" and "transmitter_step zephyr s = Some t \<or> firmware_main_step zephyr s = Some t"
  shows "failed_put t"
  using assms(2)
proof
  assume "transmitter_step zephyr s = Some t"
  from push_failures_kept [OF this] transmitter_frame [OF this] assms(1) show ?thesis
    by (simp add: failed_put_def)
next
  assume "firmware_main_step zephyr s = Some t"
  from main_frame [OF this] assms(1) show ?thesis by (simp add: failed_put_def)
qed

end

context losing_kernel
begin

definition get_sound :: "('q, 's) firmware_state \<Rightarrow> bool" where
  "get_sound s \<longleftrightarrow> (case transmitter_at s of
      T_popped ok _ _ \<Rightarrow> ok
    | T_returned ok \<Rightarrow> ok \<and> transmitter_succeeded s
    | T_finished \<Rightarrow> transmitter_succeeded s
    | _ \<Rightarrow> True)"

lemma pop_succeeds: "pop_item zephyr old q = Some (ok, item, q') \<Longrightarrow> ok"
  by (auto simp: pop_item_def dest: get_succeeds split: option.splits)

lemma get_sound_transmitter: "get_sound s \<Longrightarrow> transmitter_step zephyr s = Some t \<Longrightarrow> get_sound t"
  by (cases "transmitter_at s")
    (auto simp: get_sound_def transmitter_step_def dest: pop_succeeds split: option.splits if_splits)

lemma get_sound_cong:
  "transmitter_at t = transmitter_at s \<Longrightarrow> transmitter_succeeded t = transmitter_succeeded s \<Longrightarrow>
    get_sound s \<Longrightarrow> get_sound t"
  by (cases "transmitter_at s") (simp_all add: get_sound_def)

lemma get_sound_step: "get_sound s \<Longrightarrow> firmware_step zephyr s t \<Longrightarrow> get_sound t"
  by (auto simp: firmware_step_iff intro: get_sound_transmitter
      get_sound_cong [OF producer_frame(1,4)] get_sound_cong [OF main_frame(4,5)])

lemma losing_reachable:
  assumes "(firmware_step zephyr)\<^sup>*\<^sup>* (firmware_start zephyr q0 sp st) s" and "count sp = 0" and "count st = 0"
  shows "unreliable_inv s \<and> failed_put s \<and> get_sound s"
  using assms(1)
proof (induction rule: rtranclp_induct)
  case base
  then show ?case
    using unreliable_start [OF assms(2,3)]
    by (simp add: failed_put_def get_sound_def firmware_start_def new_firmware_metrics_def firmware_snapshot_def)
next
  case (step s t)
  then show ?case
    using get_sound_step [of s t]
    by (auto simp: firmware_step_iff intro: unreliable_producer unreliable_transmitter unreliable_main
        failed_put_producer failed_put_others)
qed

lemma failed_put_waits:
  assumes "unreliable_inv s" and "failed_put s" and "get_sound s"
    and "queue_push_failures (firmware_snapshot (fw_metrics s)) \<noteq> 0"
  shows "transmitter_at s \<noteq> T_finished \<and> (\<forall>c. fw_main_at s \<noteq> F_exit c)"
proof -
  from assms(2,4) have p: "producer_at s = P_returned False \<or> producer_at s = P_finished" "\<not> producer_succeeded s"
    by (auto simp: failed_put_def)
  with assms(1) obtain S out where
    "put_view (producer_at s) (next_index' (fw_sensor s)) S False"
    and tv: "get_view (transmitter_at s) S (queued (fw_queue s)) out (transmitter_succeeded s)"
    and sem: "sem_view s"
    unfolding unreliable_inv_def by auto
  with p have "None \<notin> set S" by (auto dest: sent_failed)
  then have "\<not> transmitter_succeeded s"
    using received_all [of "transmitter_at s" S "queued (fw_queue s)" out] tv by auto
  with assms(3) have "transmitter_at s \<noteq> T_finished" by (auto simp: get_sound_def)
  with sem show ?thesis by (auto simp: sem_view_def split: if_splits)
qed

end

subsection \<open>A kernel whose puts fail\<close>

text \<open>The queue takes a given number of items and then refuses with a code of \<^verbatim>\<open>errno.h\<close>.\<close>

definition refusing_kernel :: "nat \<Rightarrow> (TelemetryQueueItem list \<times> nat, nat) kernel_ops" where
  "refusing_kernel n =
     \<lparr>k_msgq_purge = (\<lambda>(q, k). ([], k)),
      k_msgq_put = (\<lambda>item (q, k). if k = 0 then Some (- 35, (q, k))
        else if length q < n then Some (0, (q @ [item], k - 1)) else None),
      k_msgq_get = (\<lambda>item (q, k). case q of [] \<Rightarrow> None | m # ms \<Rightarrow> Some (0, m, (ms, k))),
      k_msgq_num_used_get = (\<lambda>(q, k). of_nat (length q)),
      k_sem_give = (\<lambda>c. min 1 (c + 1)),
      k_sem_take = (\<lambda>c. if 0 < c then Some (0, c - 1) else None)\<rparr>"

lemma refusing_kernel_meets_contract: "losing_kernel (refusing_kernel n) fst (\<lambda>c. c)"
  by unfold_locales (auto simp: refusing_kernel_def split: if_splits list.splits prod.splits)

interpretation refusing: losing_kernel "refusing_kernel telemetry_queue_capacity" fst "\<lambda>c. c"
  by (rule refusing_kernel_meets_contract)

subsection \<open>Properties\<close>

text \<open>C17: what the firmware prints is right whatever fails: on any schedule and with any queue whose
  calls may fail, the console holds the lines of the first frames in order and then what main has
  reported; exit code 0 means that all eight were printed and the summary says so, and any other
  exit prints the error line with the counters.\<close>

theorem firmware_output_is_trustworthy:
  assumes "unreliable_kernel zephyr messages count" and "count sp = 0" and "count st = 0"
    and "(firmware_step zephyr)\<^sup>*\<^sup>* (firmware_start zephyr q0 sp st) s"
  shows "\<exists>j \<le> 8. console s = lines_of (take j encoded) @ reported s \<and> (fw_main_at s = F_exit 0 \<longrightarrow> j = 8)"
  using unreliable_kernel.console_shows [OF assms(1)
      unreliable_kernel.unreliable_reachable [OF assms(1) assms(4) assms(2,3)]] .

theorem firmware_output_is_trustworthy_witness:
  "\<exists>s. (firmware_step (list_kernel telemetry_queue_capacity 1))\<^sup>*\<^sup>*
      (firmware_start (list_kernel telemetry_queue_capacity 1) [] 0 0) s
    \<and> fw_main_at s = F_exit 0 \<and> (\<exists>j \<le> 8. console s = lines_of (take j encoded) @ reported s \<and> j = 8)"
proof -
  obtain s where s: "(firmware_step (list_kernel telemetry_queue_capacity 1))\<^sup>*\<^sup>*
      (firmware_start (list_kernel telemetry_queue_capacity 1) [] 0 0) s" "fw_main_at s = F_exit 0"
    using demo_firmware.firmware_run_is_short [of 0 "[]"] by auto
  have "unreliable_kernel (list_kernel telemetry_queue_capacity 1) (\<lambda>q. q) (\<lambda>c. c)"
    by unfold_locales
  from firmware_output_is_trustworthy [OF this _ _ s(1)] s
  show ?thesis by auto
qed

text \<open>C23: a failed put is never reported: with any queue whose gets do not fail, once the producer
  has counted a push failure the transmitter never finishes and main never exits, on any schedule:
  neither the error line nor an exit code tells of the failure.\<close>

theorem failed_put_is_never_reported:
  assumes "losing_kernel zephyr messages count" and "count sp = 0" and "count st = 0"
    and "(firmware_step zephyr)\<^sup>*\<^sup>* (firmware_start zephyr q0 sp st) s"
    and "queue_push_failures (firmware_snapshot (fw_metrics s)) \<noteq> 0"
  shows "transmitter_at s \<noteq> T_finished \<and> (\<forall>c. fw_main_at s \<noteq> F_exit c)"
  using losing_kernel.failed_put_waits [OF assms(1) _ _ _ assms(5)]
    losing_kernel.losing_reachable [OF assms(1) assms(4) assms(2,3)] by blast

lemma refused_run:
  "\<exists>s. (firmware_step (refusing_kernel n))\<^sup>*\<^sup>* (firmware_start (refusing_kernel n) ([], 0) 0 0) s
    \<and> queue_push_failures (firmware_snapshot (fw_metrics s)) \<noteq> 0"
  unfolding firmware_start_def construct_queue_def
  by (intro exI conjI)
    ((rule producer_runs, (simp add: producer_step_def has_next_iff next_frame_eq new_sensor_model_def
        push_frame_def refusing_kernel_def Let_def firmware_record_defs new_firmware_metrics_def; fail))+,
      rule rtranclp.rtrancl_refl, simp add: firmware_snapshot_def)

theorem failed_put_is_never_reported_witness:
  "\<exists>s. (firmware_step (refusing_kernel 4))\<^sup>*\<^sup>* (firmware_start (refusing_kernel 4) ([], 0) 0 0) s
    \<and> queue_push_failures (firmware_snapshot (fw_metrics s)) \<noteq> 0
    \<and> transmitter_at s \<noteq> T_finished \<and> (\<forall>c. fw_main_at s \<noteq> F_exit c)"
proof -
  obtain s where s: "(firmware_step (refusing_kernel 4))\<^sup>*\<^sup>* (firmware_start (refusing_kernel 4) ([], 0) 0 0) s"
    "queue_push_failures (firmware_snapshot (fw_metrics s)) \<noteq> 0"
    using refused_run by blast
  from failed_put_is_never_reported [OF refusing_kernel_meets_contract _ _ s] s show ?thesis by auto
qed

end
