(* ===== verification/Firmware_Scheduling.thy ===== *)
theory Firmware_Scheduling
  imports Firmware_Outcome
begin

text \<open>
  The firmware under its thread priorities, \<^verbatim>\<open>firmware/src/main.cpp\<close>. The kernel's scheduler is a
  parameter with its documented contract, the locale \<open>priority_scheduler\<close>: it runs a thread that does
  not wait and that no thread of a smaller priority number could run before, and it idles only when
  every thread waits. The priority of the thread of \<^verbatim>\<open>main\<close> is a configuration value outside the
  repository, and the results hold for every one. A run under priorities is one of the schedules of
  \<open>Firmware_Outcome\<close>. The transmitter is the more urgent of the two (\<^verbatim>\<open>docs/FIRMWARE.md\<close>), so that
  it prints each frame before the next sample is taken.
\<close>

subsection \<open>The code\<close>

definition producer_priority :: int where
  "producer_priority = 5"

definition transmitter_priority :: int where
  "transmitter_priority = 4"

text \<open>The threads with their priorities, in the order of their creation, and the thread of main.\<close>

definition firmware_threads ::
    "int \<Rightarrow> ('q, 's) kernel_ops
      \<Rightarrow> (int \<times> (('q, 's) firmware_state \<Rightarrow> ('q, 's) firmware_state option)) list" where
  "firmware_threads main_priority zephyr =
     [(transmitter_priority, transmitter_step zephyr), (producer_priority, producer_step zephyr),
      (main_priority, firmware_main_step zephyr)]"

subsection \<open>The scheduler's contract\<close>

locale priority_scheduler =
  fixes pick :: "'s \<Rightarrow> 's option"
    and threads :: "(int \<times> ('s \<Rightarrow> 's option)) list"
  assumes most_urgent: "pick s = Some t \<Longrightarrow>
      \<exists>p f. (p, f) \<in> set threads \<and> f s = Some t \<and> (\<forall>q g. (q, g) \<in> set threads \<longrightarrow> q < p \<longrightarrow> g s = None)"
    and idles: "pick s = None \<Longrightarrow> (p, f) \<in> set threads \<Longrightarrow> f s = None"
begin

lemma runs_ready: "pick s = Some t \<Longrightarrow> \<exists>p f. (p, f) \<in> set threads \<and> f s = Some t"
  using most_urgent by blast

end

text \<open>A scheduler that meets it: the first thread that does not wait, in the order of priorities.\<close>

fun first_ready :: "('s \<Rightarrow> 's option) list \<Rightarrow> 's \<Rightarrow> 's option" where
  "first_ready [] s = None"
| "first_ready (thread # threads) s = (case thread s of None \<Rightarrow> first_ready threads s | Some t \<Rightarrow> Some t)"

definition by_priority :: "(int \<times> ('s \<Rightarrow> 's option)) list \<Rightarrow> 's \<Rightarrow> 's option" where
  "by_priority threads = first_ready (map snd (sort_key fst threads))"

lemma first_ready_None: "first_ready fs s = None \<longleftrightarrow> (\<forall>f \<in> set fs. f s = None)"
  by (induction fs) (auto split: option.splits)

lemma first_ready_sorted:
  assumes "sorted (map fst pfs)" and "first_ready (map snd pfs) s = Some t"
  shows "\<exists>p f. (p, f) \<in> set pfs \<and> f s = Some t
    \<and> (\<forall>q g. (q, g) \<in> set pfs \<longrightarrow> q < p \<longrightarrow> g s = None)"
  using assms
proof (induction pfs)
  case (Cons x pfs)
  obtain p f where x: "x = (p, f)" by fastforce
  show ?case
  proof (cases "f s")
    case None
    with Cons x obtain p' f' where "(p', f') \<in> set pfs" "f' s = Some t"
        "\<forall>q g. (q, g) \<in> set pfs \<longrightarrow> q < p' \<longrightarrow> g s = None" by auto
    with None x show ?thesis by (intro exI [of _ p'] exI [of _ f']) auto
  next
    case (Some u)
    with Cons.prems x have "\<forall>q g. (q, g) \<in> set (x # pfs) \<longrightarrow> \<not> q < p" by fastforce
    with Cons.prems Some x show ?thesis by (intro exI [of _ p] exI [of _ f]) auto
  qed
qed simp

lemma by_priority_contract: "priority_scheduler (by_priority threads) threads"
proof unfold_locales
  show "\<exists>p f. (p, f) \<in> set threads \<and> f s = Some t
      \<and> (\<forall>q g. (q, g) \<in> set threads \<longrightarrow> q < p \<longrightarrow> g s = None)" if "by_priority threads s = Some t" for s t
    using first_ready_sorted [of "sort_key fst threads" s t] that by (simp add: by_priority_def)
  show "f s = None" if "by_priority threads s = None" "(p, f) \<in> set threads" for s p f
    using that by (auto simp: by_priority_def first_ready_None)
qed

interpretation demo_scheduler: priority_scheduler "by_priority (firmware_threads main_priority zephyr)"
    "firmware_threads main_priority zephyr" for main_priority zephyr
  by (rule by_priority_contract)

subsection \<open>The choices\<close>

abbreviation firmware_scheduler ::
    "(('q, 's) firmware_state \<Rightarrow> ('q, 's) firmware_state option) \<Rightarrow> int \<Rightarrow> ('q, 's) kernel_ops \<Rightarrow> bool" where
  "firmware_scheduler pick main_priority zephyr
    \<equiv> priority_scheduler pick (firmware_threads main_priority zephyr)"

lemma scheduled_cases:
  assumes "firmware_scheduler pick mp zephyr" and "pick s = Some t"
  obtains (transmitter) "transmitter_step zephyr s = Some t"
    | (main) "firmware_main_step zephyr s = Some t"
    | (producer) "producer_step zephyr s = Some t" "transmitter_step zephyr s = None"
proof -
  from priority_scheduler.most_urgent [OF assms] obtain p f where
    run: "(p, f) \<in> set (firmware_threads mp zephyr)" "f s = Some t"
    and urgent: "\<And>q g. (q, g) \<in> set (firmware_threads mp zephyr) \<Longrightarrow> q < p \<Longrightarrow> g s = None" by blast
  from urgent [of transmitter_priority "transmitter_step zephyr"] have "p = producer_priority \<Longrightarrow> transmitter_step zephyr s = None"
    by (simp add: firmware_threads_def producer_priority_def transmitter_priority_def)
  with run show thesis by (auto simp: firmware_threads_def intro: that)
qed

lemma scheduled_is_step:
  "firmware_scheduler pick mp zephyr \<Longrightarrow> pick s = Some t \<Longrightarrow> firmware_step zephyr s t"
  using priority_scheduler.runs_ready [of pick _ s t] by (fastforce simp: firmware_step_iff firmware_threads_def)

lemma scheduled_idle:
  assumes "firmware_scheduler pick mp zephyr" and "pick s = None"
  shows "\<nexists>t. firmware_step zephyr s t"
proof -
  have "\<forall>(p, f) \<in> set (firmware_threads mp zephyr). f s = None"
    using priority_scheduler.idles [OF assms] by blast
  then show ?thesis by (simp add: firmware_step_iff firmware_threads_def)
qed

lemma scheduled_reaches:
  assumes "firmware_scheduler pick mp zephyr" and "(\<lambda>s t. pick s = Some t)\<^sup>*\<^sup>* s t"
  shows "(firmware_step zephyr)\<^sup>*\<^sup>* s t"
  using assms(2) by (induction rule: rtranclp_induct) (auto dest: scheduled_is_step [OF assms(1)])

lemma other_threads_keep_producer:
  "transmitter_step zephyr s = Some t \<Longrightarrow> producer_at t = producer_at s"
  "firmware_main_step zephyr s = Some t \<Longrightarrow> producer_at t = producer_at s"
  by (auto simp: transmitter_step_def firmware_main_step_def report_main_def Let_def
      split: transmitter_pc.splits firmware_main_pc.splits option.splits if_splits)

context firmware_run
begin

lemma waiting_transmitter_empty:
  assumes "firmware_inv s" and "transmitter_step zephyr s = None"
    and "producer_at s \<noteq> P_finished" and "\<And>ok. producer_at s \<noteq> P_returned ok"
    and "\<And>ok. producer_at s \<noteq> P_pushed_end ok"
  shows "messages (fw_queue s) = []
    \<and> (producer_at s = P_head \<longrightarrow> console s = lines_of (take (next_index' (fw_sensor s)) encoded))"
proof -
  from assms(1) obtain E S D out rp rt where
    pv: "producer_view (producer_at s) (next_index' (fw_sensor s)) E S rp" and
    tv: "transmitter_view (transmitter_at s) S (signals (fw_queue s)) D out rt" and mv: "main_view s" and
    con: "console s = out @ (case fw_main_at s of F_exit _ \<Rightarrow> final_text | _ \<Rightarrow> [])"
    unfolding firmware_inv_def firmware_at_def by blast
  have "None \<notin> set S" using no_marker_before_end [OF pv] assms(3-5) by blast
  with transmitter_waits [OF tv assms(2)] obtain frs where
    frs: "S = map Some frs" "signals (fw_queue s) = []" "out = lines_of frs" by blast
  have "console s = out" using con mv assms(3) by (cases "fw_main_at s") (auto simp: main_view_def)
  moreover have "frs = take (next_index' (fw_sensor s)) encoded" if "producer_at s = P_head"
    using pv frs(1) unfolding that by (auto elim!: producer_view_cases simp: sent_frames_def dest: map_injective)
  ultimately show ?thesis using frs by (simp add: signals_def)
qed

lemma queue_after_producer:
  assumes "producer_step zephyr s = Some t" and "messages (fw_queue s) = []"
  shows "length (messages (fw_queue t)) \<le> 1"
proof (cases "producer_at s")
  case (P_push bs)
  with assms push_frame_cases [of "fw_queue s" bs] max_msgs_positive show ?thesis
    by (auto simp: producer_step_def signals_def)
next
  case P_push_end
  with assms push_end_cases [of "fw_queue s"] max_msgs_positive show ?thesis
    by (auto simp: producer_step_def signals_def)
qed (use assms in \<open>auto simp: producer_step_def split: if_splits prod.splits\<close>)

lemma queue_after_others:
  "transmitter_step zephyr s = Some t \<Longrightarrow> length (messages (fw_queue t)) \<le> length (messages (fw_queue s))"
  "firmware_main_step zephyr s = Some t \<Longrightarrow> messages (fw_queue t) = messages (fw_queue s)"
  "producer_step zephyr s = Some t \<Longrightarrow> producer_at s \<in> {P_returned ok, P_pushed_end ok, P_finished}
    \<Longrightarrow> messages (fw_queue t) = messages (fw_queue s)"
proof -
  assume step: "transmitter_step zephyr s = Some t"
  show "length (messages (fw_queue t)) \<le> length (messages (fw_queue s))"
  proof (cases "transmitter_at s")
    case (T_pop i)
    with step show ?thesis
      using pop_item_cases(1) [of "fw_queue s" _ _ default_item] pop_item_cases(2) [of "fw_queue s" default_item]
      by (cases "signals (fw_queue s)") (auto simp: transmitter_step_def simp flip: length_signals)
  qed (use step in \<open>auto simp: transmitter_step_def split: if_splits\<close>)
qed (auto simp: firmware_main_step_def report_main_def producer_step_def Let_def
    split: firmware_main_pc.splits option.splits if_splits)

lemma scheduled_queue:
  assumes sched: "firmware_scheduler pick mp zephyr"
    and "(\<lambda>s t. pick s = Some t)\<^sup>*\<^sup>* (firmware_start zephyr q0 sp st) s"
  shows "length (messages (fw_queue s)) \<le> 1"
  using assms(2)
proof (induction rule: rtranclp_induct)
  case base
  then show ?case by (simp add: firmware_start_def construct_queue_def purge)
next
  case (step s t)
  have inv: "firmware_inv s" using fw.reachable_inv scheduled_reaches [OF sched step(1)] by blast
  from sched step(2) show ?case
  proof (cases rule: scheduled_cases)
    case transmitter
    with queue_after_others(1) step(3) show ?thesis by fastforce
  next
    case main
    with queue_after_others(2) step(3) show ?thesis by simp
  next
    case producer
    show ?thesis
    proof (cases "\<exists>ok. producer_at s \<in> {P_returned ok, P_pushed_end ok, P_finished}")
      case True
      then show ?thesis using queue_after_others(3) [OF producer(1)] step(3) by auto
    next
      case False
      then have "messages (fw_queue s) = []"
        using waiting_transmitter_empty [OF inv producer(2)] by blast
      with producer(1) show ?thesis by (rule queue_after_producer)
    qed
  qed
qed

lemma scheduled_sampling:
  assumes sched: "firmware_scheduler pick mp zephyr"
    and "(\<lambda>s t. pick s = Some t)\<^sup>*\<^sup>* (firmware_start zephyr q0 sp st) s"
    and "pick s = Some t" and "producer_at s = P_head" and "producer_at t \<noteq> P_head"
  shows "messages (fw_queue s) = [] \<and> console s = lines_of (take (next_index' (fw_sensor s)) encoded)"
proof -
  have inv: "firmware_inv s" using fw.reachable_inv scheduled_reaches [OF assms(1,2)] by blast
  from assms(1,3) have "transmitter_step zephyr s = None"
    by (cases rule: scheduled_cases) (use assms(4,5) in \<open>auto dest: other_threads_keep_producer\<close>)
  from waiting_transmitter_empty [OF inv this] assms(4) show ?thesis by simp
qed

text \<open>A producer that waits has finished: there is always room.\<close>

lemma scheduled_producer_ready:
  assumes sched: "firmware_scheduler pick mp zephyr"
    and "(\<lambda>s t. pick s = Some t)\<^sup>*\<^sup>* (firmware_start zephyr q0 sp st) s" and "producer_step zephyr s = None"
  shows "producer_at s = P_finished"
proof -
  have room: "length (messages (fw_queue s)) < telemetry_queue_capacity"
    using scheduled_queue [OF assms(1,2)] by (simp add: telemetry_queue_capacity_def)
  show ?thesis
  proof (cases "producer_at s")
    case (P_push bs)
    with push_frame_cases(1) [OF room, of bs] assms(3) show ?thesis by (auto simp: producer_step_def)
  next
    case P_push_end
    with push_end_cases(1) [OF room] assms(3) show ?thesis by (auto simp: producer_step_def)
  qed (use assms(3) in \<open>auto simp: producer_step_def split: if_splits prod.splits\<close>)
qed

text \<open>The frames that the transmitter has counted.\<close>

definition transmitted :: "('q, 's) firmware_state \<Rightarrow> nat" where
  "transmitted s = unat (frames_transmitted (firmware_snapshot (fw_metrics s)))"

lemma transmitted_events:
  assumes "firmware_at s E S D out rp rt"
  shows "transmitted s = count_list D Frame_transmitted \<and> transmitted s \<le> 9"
proof -
  from assms have pv: "producer_view (producer_at s) (next_index' (fw_sensor s)) E S rp"
    and tv: "transmitter_view (transmitter_at s) S (signals (fw_queue s)) D out rt"
    and m: "fw_metrics s = firmware_metrics_after E D" by (simp_all add: firmware_at_def)
  from producer_sent [OF pv] transmitter_received [OF tv] have "count_list D Frame_transmitted \<le> 9"
    by fastforce
  then show ?thesis
    by (simp add: transmitted_def m firmware_snapshot_def firmware_metrics_after_def values_both
        counts_def unsigned_of_nat take_bit_nat_eq_self)
qed

lemma waiting_transmitter_counted:
  assumes "firmware_inv s" and "transmitter_step zephyr s = None" and "producer_at s = P_head"
  shows "transmitted s = next_index' (fw_sensor s)"
proof -
  from assms(1) obtain E S D out rp rt where at: "firmware_at s E S D out rp rt"
    unfolding firmware_inv_def by blast
  then have pv: "producer_view P_head (next_index' (fw_sensor s)) E S rp"
    and tv: "transmitter_view (transmitter_at s) S (signals (fw_queue s)) D out rt"
    using assms(3) by (simp_all add: firmware_at_def)
  from pv have k: "next_index' (fw_sensor s) \<le> 8" and S: "S = sent_frames (next_index' (fw_sensor s))"
    by (auto elim: producer_view_cases)
  have "None \<notin> set S" using no_marker_before_end [OF pv] by auto
  with transmitter_waits [OF tv assms(2)] have empty: "signals (fw_queue s) = []" by blast
  from tv obtain frs where "S = map Some frs" "D = replicate (length frs) Frame_transmitted"
    by (cases rule: transmitter_view.cases)
      (use assms(2) empty \<open>None \<notin> set S\<close> in \<open>auto simp: transmitter_step_def split: if_splits\<close>)
  moreover from this have "length frs = next_index' (fw_sensor s)"
    using S k by (metis length_map length_take length_encoded min_absorb2 sent_frames_def)
  moreover have "count_list (replicate n Frame_transmitted) Frame_transmitted = n" for n
    by (induction n) simp_all
  ultimately show ?thesis using transmitted_events [OF at] by simp
qed

lemma transmitted_step:
  "producer_step zephyr s = Some t \<Longrightarrow> transmitted t = transmitted s"
  "firmware_main_step zephyr s = Some t \<Longrightarrow> transmitted t = transmitted s"
  "transmitter_step zephyr s = Some t \<Longrightarrow> transmitted s \<le> 9 \<Longrightarrow> transmitted s \<le> transmitted t"
proof -
  assume "transmitter_step zephyr s = Some t" and small: "transmitted s \<le> 9"
  moreover have "unat (n + 1 :: u64) = unat n + 1" if "unat n \<le> 9" for n
    using that by (intro unat_plus_one) simp
  ultimately show "transmitted s \<le> transmitted t"
    by (auto simp: transmitter_step_def transmitted_def firmware_snapshot_def firmware_record_defs
        split: transmitter_pc.splits option.splits if_splits)
qed (auto simp: producer_step_def firmware_main_step_def report_main_def transmitted_def
    firmware_snapshot_def firmware_record_defs Let_def
    split: producer_pc.splits firmware_main_pc.splits option.splits if_splits prod.splits)

lemma sampling_step:
  "transmitter_step zephyr s = Some t \<Longrightarrow> next_index' (fw_sensor t) = next_index' (fw_sensor s)"
  "firmware_main_step zephyr s = Some t \<Longrightarrow> next_index' (fw_sensor t) = next_index' (fw_sensor s)"
  "producer_step zephyr s = Some t \<Longrightarrow> next_index' (fw_sensor t) = next_index' (fw_sensor s)
    \<or> producer_at s = P_head \<and> next_index' (fw_sensor t) = next_index' (fw_sensor s) + 1"
  by (auto simp: producer_step_def transmitter_step_def firmware_main_step_def report_main_def Let_def
      has_next_iff next_frame_eq
      split: producer_pc.splits transmitter_pc.splits firmware_main_pc.splits option.splits if_splits)

lemma scheduled_lockstep:
  assumes sched: "firmware_scheduler pick mp zephyr"
    and "(\<lambda>s t. pick s = Some t)\<^sup>*\<^sup>* (firmware_start zephyr q0 sp st) s"
  shows "next_index' (fw_sensor s) \<le> transmitted s + 1"
  using assms(2)
proof (induction rule: rtranclp_induct)
  case base
  then show ?case by (simp add: firmware_start_def new_sensor_model_def)
next
  case (step s t)
  have inv: "firmware_inv s" using fw.reachable_inv scheduled_reaches [OF sched step(1)] by blast
  then have small: "transmitted s \<le> 9" unfolding firmware_inv_def using transmitted_events by blast
  from sched step(2) show ?case
  proof (cases rule: scheduled_cases)
    case transmitter
    with transmitted_step(3) [OF transmitter small] sampling_step(1) [OF transmitter] step(3) show ?thesis by simp
  next
    case main
    with transmitted_step(2) [OF main] sampling_step(2) [OF main] step(3) show ?thesis by simp
  next
    case producer
    with transmitted_step(1) [OF producer(1)] sampling_step(3) [OF producer(1)] step(3)
      waiting_transmitter_counted [OF inv producer(2)] show ?thesis by auto
  qed
qed

lemma scheduled_run:
  assumes sched: "firmware_scheduler pick mp zephyr"
  shows "\<exists>s. run_until_idle pick (firmware_start zephyr q0 sp st) = Some s
    \<and> fw_main_at s = F_exit 0 \<and> console s = lines_of encoded @ final_text"
proof -
  have "\<exists>t. run_until_idle pick (firmware_start zephyr q0 sp st) = Some t
      \<and> (firmware_step zephyr)\<^sup>*\<^sup>* (firmware_start zephyr q0 sp st) t \<and> (\<nexists>u. firmware_step zephyr t u)"
    by (rule fw.scheduler_returns) (auto dest: scheduled_is_step [OF sched] scheduled_idle [OF sched])
  then show ?thesis using firmware_every_run by blast
qed

end

subsection \<open>Properties\<close>

text \<open>C20: what the priorities of the two workers give: for every priority of main, any kernel whose
  queue and semaphores meet their documentation, any scheduler that always runs a most urgent thread
  of those that do not wait and any former content of the queue, the loop of the scheduler's choices
  ends, at exit code 0 with the console of eight frames and the summary; and on the way the producer
  never waits before it has finished, since the more urgent transmitter has always made room, and it
  is never more than one sample ahead of the frames transmitted.\<close>

theorem scheduled_firmware_returns:
  assumes "kernel_services zephyr messages count telemetry_queue_capacity 1"
    and "count sp = 0" and "count st = 0"
    and "priority_scheduler pick (firmware_threads main_priority zephyr)"
  shows "(\<exists>s. run_until_idle pick (firmware_start zephyr q0 sp st) = Some s
      \<and> fw_main_at s = F_exit 0 \<and> console s = lines_of (map serialize sensor_frames) @ final_text)
    \<and> (\<forall>s. (\<lambda>s t. pick s = Some t)\<^sup>*\<^sup>* (firmware_start zephyr q0 sp st) s
      \<longrightarrow> (producer_step zephyr s = None \<longrightarrow> producer_at s = P_finished)
        \<and> next_index' (fw_sensor s) \<le> unat (frames_transmitted (firmware_snapshot (fw_metrics s))) + 1)"
proof -
  have run: "firmware_run zephyr messages count sp st" by (rule firmware_runI [OF assms(1-3)])
  show ?thesis
    using firmware_run.scheduled_run [OF run assms(4)]
      firmware_run.scheduled_producer_ready [OF run assms(4)]
      firmware_run.scheduled_lockstep [OF run assms(4)]
    by (auto simp: encoded_def firmware_run.transmitted_def [OF run])
qed

lemma first_choice:
  "\<exists>t. by_priority (firmware_threads 0 (list_kernel 4 1)) (firmware_start (list_kernel 4 1) q0 0 0) = Some t
    \<and> producer_at t = P_sampled (sensor_frame 0) \<and> next_index' (fw_sensor t) = 1"
  by (simp add: by_priority_def firmware_threads_def transmitter_priority_def producer_priority_def
      firmware_main_step_def transmitter_step_def producer_step_def firmware_start_def list_kernel_def
      construct_queue_def pop_item_def has_next_iff next_frame_eq new_sensor_model_def)

theorem scheduled_firmware_returns_witness:
  "(\<exists>s. run_until_idle (by_priority (firmware_threads 0 (list_kernel telemetry_queue_capacity 1)))
        (firmware_start (list_kernel telemetry_queue_capacity 1) [] 0 0) = Some s
      \<and> fw_main_at s = F_exit 0 \<and> console s = lines_of (map serialize sensor_frames) @ final_text)
    \<and> (\<exists>s. by_priority (firmware_threads 0 (list_kernel telemetry_queue_capacity 1))
        (firmware_start (list_kernel telemetry_queue_capacity 1) [] 0 0) = Some s
      \<and> producer_step (list_kernel telemetry_queue_capacity 1) s \<noteq> None \<and> next_index' (fw_sensor s) = 1
      \<and> next_index' (fw_sensor s) \<le> unat (frames_transmitted (firmware_snapshot (fw_metrics s))) + 1)"
proof -
  let ?k = "list_kernel telemetry_queue_capacity 1"
  note returns = scheduled_firmware_returns [OF demo_kernel_contract refl refl
      by_priority_contract [of "firmware_threads 0 ?k"], of "[]"]
  obtain s where s: "by_priority (firmware_threads 0 ?k) (firmware_start ?k [] 0 0) = Some s"
    "producer_at s = P_sampled (sensor_frame 0)" "next_index' (fw_sensor s) = 1"
    using first_choice [of "[]"] by (auto simp: telemetry_queue_capacity_def)
  have "(\<lambda>s t. by_priority (firmware_threads 0 ?k) s = Some t)\<^sup>*\<^sup>* (firmware_start ?k [] 0 0) s"
    using s(1) by (rule r_into_rtranclp)
  with conjunct2 [OF returns] have ahead: "producer_step ?k s = None \<longrightarrow> producer_at s = P_finished"
    "next_index' (fw_sensor s) \<le> unat (frames_transmitted (firmware_snapshot (fw_metrics s))) + 1"
    by blast+
  from ahead(1) s(2) have "producer_step ?k s \<noteq> None" by auto
  with s ahead(2) have "\<exists>s. by_priority (firmware_threads 0 ?k) (firmware_start ?k [] 0 0) = Some s
      \<and> producer_step ?k s \<noteq> None \<and> next_index' (fw_sensor s) = 1
      \<and> next_index' (fw_sensor s) \<le> unat (frames_transmitted (firmware_snapshot (fw_metrics s))) + 1"
    by (intro exI [of _ s] conjI)
  with conjunct1 [OF returns] show ?thesis by (rule conjI)
qed

text \<open>C21: the priorities keep the pipeline tight: although the queue has room for four, it never
  holds more than one message, and when the producer takes its next sample the queue is empty and
  the console already shows every earlier frame.\<close>

theorem priorities_bound_queue:
  assumes "kernel_services zephyr messages count telemetry_queue_capacity 1"
    and "count sp = 0" and "count st = 0"
    and "priority_scheduler pick (firmware_threads main_priority zephyr)"
    and "(\<lambda>s t. pick s = Some t)\<^sup>*\<^sup>* (firmware_start zephyr q0 sp st) s"
  shows "length (messages (fw_queue s)) \<le> 1
    \<and> (\<forall>t. pick s = Some t \<and> producer_at s = P_head \<and> producer_at t \<noteq> P_head
        \<longrightarrow> messages (fw_queue s) = []
          \<and> console s = lines_of (take (next_index' (fw_sensor s)) (map serialize sensor_frames)))"
  using firmware_run.scheduled_queue [OF firmware_runI [OF assms(1-3)] assms(4,5)]
    firmware_run.scheduled_sampling [OF firmware_runI [OF assms(1-3)] assms(4,5)]
  by (auto simp: encoded_def)

theorem priorities_bound_queue_witness:
  "length (fw_queue (firmware_start (list_kernel telemetry_queue_capacity 1) [default_item, default_item] 0 0)) \<le> 1
    \<and> (\<exists>t. by_priority (firmware_threads 0 (list_kernel telemetry_queue_capacity 1))
          (firmware_start (list_kernel telemetry_queue_capacity 1) [default_item, default_item] 0 0) = Some t
        \<and> producer_at t \<noteq> P_head)
    \<and> fw_queue (firmware_start (list_kernel telemetry_queue_capacity 1) [default_item, default_item] 0 0) = []"
proof -
  let ?k = "list_kernel telemetry_queue_capacity 1"
  let ?start = "firmware_start ?k [default_item, default_item] 0 0"
  obtain t where t: "by_priority (firmware_threads 0 ?k) ?start = Some t" "producer_at t \<noteq> P_head"
    using first_choice [of "[default_item, default_item]"] by (auto simp: telemetry_queue_capacity_def)
  have "producer_at ?start = P_head" by (simp add: firmware_start_def)
  with priorities_bound_queue [OF demo_kernel_contract refl refl
      by_priority_contract [of "firmware_threads 0 ?k"] rtranclp.rtrancl_refl,
      of "[default_item, default_item]"] t
  show ?thesis by blast
qed

end
