(* ===== verification/Capture_Validator.thy ===== *)
theory Capture_Validator
  imports Hex_Formatter "HOL-Library.Sublist"
begin

unbundle bit_operations_syntax

text \<open>
  The validator of captured firmware output, \<^verbatim>\<open>renode/tests/resources/telemetry_validation.py\<close>, an
  independent Python implementation of the protocol's checks that the Robot suite runs on the
  console of the simulated board. Python's unbounded integers are \<open>int\<close>, \<^verbatim>\<open>bytes\<close> are lists of
  bytes, text is ASCII, and an \<^verbatim>\<open>AssertionError\<close> is a value of \<open>validation_error\<close>, by its cause.
  Every validator reads the same capture, here its text.
\<close>

subsection \<open>Results\<close>

datatype validation_error =
    Malformed_frame string
  | No_boot_banner
  | Frame_count nat
  | Frame_length nat
  | Frame_magic nat
  | Frame_version nat
  | Frame_message_type nat
  | Frame_payload_size nat
  | Unexpected_indices "string list"
  | Unexpected_sequence int int
  | Crc_mismatch nat int int
  | Unexpected_summaries "string list"
  | Done_count nat
  | Frame_after_done
  | Done_not_last
  | Firmware_fault string
  | Monitor_fault string

text \<open>One statement after another: the first \<^verbatim>\<open>raise\<close> ends the sequence.\<close>

fun and_then :: "'e + 'a \<Rightarrow> ('a \<Rightarrow> 'e + 'b) \<Rightarrow> 'e + 'b" where
  "and_then (Inl e) f = Inl e"
| "and_then (Inr a) f = f a"

definition require :: "bool \<Rightarrow> 'e \<Rightarrow> 'e + unit" where
  "require ok e = (if ok then Inr () else Inl e)"

fun for_each :: "('a \<Rightarrow> 'e + unit) \<Rightarrow> 'a list \<Rightarrow> 'e + unit" where
  "for_each f [] = Inr ()"
| "for_each f (x # xs) = and_then (f x) (\<lambda>_. for_each f xs)"

subsection \<open>Lines and frames\<close>

definition starts_with :: "string \<Rightarrow> string \<Rightarrow> bool" where
  "starts_with p l \<longleftrightarrow> take (length p) l = p"

text \<open>The ASCII characters at which \<^verbatim>\<open>str.splitlines\<close> ends a line.\<close>

definition line_end :: "char \<Rightarrow> bool" where
  "line_end c \<longleftrightarrow> c \<in> set [CHR 0x0A, CHR 0x0B, CHR 0x0C, CHR 0x0D, CHR 0x1C, CHR 0x1D, CHR 0x1E]"

function split_lines :: "string \<Rightarrow> string list" where
  "split_lines s =
     (if s = [] then []
      else takeWhile (\<lambda>c. \<not> line_end c) s # split_lines (drop 1 (dropWhile (\<lambda>c. \<not> line_end c) s)))"
  by pat_completeness auto

termination
proof (relation "measure length")
  fix s :: string
  assume "s \<noteq> []"
  then show "(drop 1 (dropWhile (\<lambda>c. \<not> line_end c) s), s) \<in> measure length"
    using length_dropWhile_le [of "\<lambda>c. \<not> line_end c" s] by (cases s) auto
qed simp

declare split_lines.simps [simp del]

text \<open>
  \<^verbatim>\<open>Path.read_text\<close> opens the file in text mode, where every line ending is read as a newline; the
  \<^verbatim>\<open>replace\<close> after it then finds no carriage return.
\<close>

fun universal_newlines :: "string \<Rightarrow> string" where
  "universal_newlines [] = []"
| "universal_newlines (c # s) =
     (if c = CHR 0x0D
      then CHR 0x0A # (case s of
             [] \<Rightarrow> []
           | d # r \<Rightarrow> if d = CHR 0x0A then universal_newlines r else universal_newlines (d # r))
      else c # universal_newlines s)"

definition capture_lines :: "string \<Rightarrow> string list" where
  "capture_lines text = split_lines (filter (\<lambda>c. c \<noteq> CHR 0x0D) (universal_newlines text))"

text \<open>The full match of \<^verbatim>\<open>FRAME_PATTERN\<close>, with its two groups.\<close>

definition match_frame :: "string \<Rightarrow> (string \<times> string) option" where
  "match_frame l =
     (if length l = 81 \<and> take 8 l = ''TLFRAME '' \<and> list_all (\<lambda>c. c \<in> set ''0123456789'') (take 4 (drop 8 l))
         \<and> l ! 12 = CHR '' '' \<and> list_all is_hex_digit (drop 13 l)
      then Some (take 4 (drop 8 l), drop 13 l) else None)"

fun frames_of :: "string list \<Rightarrow> validation_error + (string \<times> string) list" where
  "frames_of [] = Inr []"
| "frames_of (l # ls) =
     (if starts_with ''TLFRAME '' l
      then case match_frame l of
             None \<Rightarrow> Inl (Malformed_frame l)
           | Some groups \<Rightarrow> and_then (frames_of ls) (\<lambda>frames. Inr (groups # frames))
      else frames_of ls)"

subsection \<open>Numbers\<close>

definition validator_polynomial :: int where
  "validator_polynomial = 0xEDB88320"

definition crc_round :: "int \<Rightarrow> int" where
  "crc_round crc =
     (let mask = (- (crc AND 1)) AND 0xFFFFFFFF
      in (drop_bit 1 crc XOR (validator_polynomial AND mask)) AND 0xFFFFFFFF)"

definition validator_crc32 :: "bytes \<Rightarrow> int" where
  "validator_crc32 data =
     foldl (\<lambda>crc byte. (crc_round ^^ 8) (crc XOR uint byte)) 0xFFFFFFFF data XOR 0xFFFFFFFF"

text \<open>\<^verbatim>\<open>int.from_bytes(data, "big")\<close>.\<close>

definition from_big :: "bytes \<Rightarrow> int" where
  "from_big bs = foldl (\<lambda>n b. 256 * n + uint b) 0 bs"

subsection \<open>The validators\<close>

definition validate_zephyr_boot :: "string \<Rightarrow> validation_error + unit" where
  "validate_zephyr_boot capture =
     require (list_ex (starts_with ''*** Booting Zephyr OS build '') (capture_lines capture)) No_boot_banner"

definition validate_frame_count :: "string \<Rightarrow> validation_error + unit" where
  "validate_frame_count capture =
     and_then (frames_of (capture_lines capture))
       (\<lambda>frames. require (length frames = 8) (Frame_count (length frames)))"

definition validate_header :: "nat \<times> string \<times> string \<Rightarrow> validation_error + unit" where
  "validate_header = (\<lambda>(index, _, encoded).
     and_then (require (length encoded = 34 * 2) (Frame_length index)) (\<lambda>_.
     let raw = hex_value encoded in
     and_then (require (take 2 raw = [0x54, 0x4C]) (Frame_magic index)) (\<lambda>_.
     and_then (require (raw ! 2 = 1) (Frame_version index)) (\<lambda>_.
     and_then (require (raw ! 3 = 1) (Frame_message_type index)) (\<lambda>_.
     require (from_big (take 2 (drop 4 raw)) = 12) (Frame_payload_size index))))))"

definition validate_frame_encoding_and_headers :: "string \<Rightarrow> validation_error + unit" where
  "validate_frame_encoding_and_headers capture =
     and_then (frames_of (capture_lines capture)) (\<lambda>frames. for_each validate_header (enumerate 1 frames))"

text \<open>\<^verbatim>\<open>f"{index:04d}"\<close> for 1 to 8.\<close>

definition expected_indices :: "string list" where
  "expected_indices = map (\<lambda>index. ''000'' @ [''0123456789'' ! index]) [1..<9]"

definition validate_contents :: "nat \<times> string \<times> string \<Rightarrow> validation_error + unit" where
  "validate_contents = (\<lambda>(offset, _, encoded).
     let raw = hex_value encoded;
         sequence = from_big (take 4 (drop 6 raw));
         expected_sequence = 1000 + int offset
     in and_then (require (sequence = expected_sequence) (Unexpected_sequence expected_sequence sequence)) (\<lambda>_.
        let calculated = validator_crc32 (take 30 raw);
            expected = from_big (drop 30 raw)
        in require (calculated = expected) (Crc_mismatch (offset + 1) calculated expected)))"

definition validate_indices_sequences_and_crc :: "string \<Rightarrow> validation_error + unit" where
  "validate_indices_sequences_and_crc capture =
     and_then (frames_of (capture_lines capture)) (\<lambda>frames.
       and_then (require (map fst frames = expected_indices) (Unexpected_indices (map fst frames)))
         (\<lambda>_. for_each validate_contents (enumerate 0 frames)))"

definition summary_line :: string where
  "summary_line = ''TLFIRMWARE SUMMARY produced=8 transmitted=8 queue_errors=0''"

definition done_line :: string where
  "done_line = ''TLFIRMWARE DONE''"

definition validate_firmware_summary :: "string \<Rightarrow> validation_error + unit" where
  "validate_firmware_summary capture =
     (let summaries = filter (starts_with ''TLFIRMWARE SUMMARY'') (capture_lines capture)
      in require (summaries = [summary_line]) (Unexpected_summaries summaries))"

definition validate_firmware_done :: "string \<Rightarrow> validation_error + unit" where
  "validate_firmware_done capture =
     (let lines = capture_lines capture;
          done_positions = map fst (filter (\<lambda>(_, l). l = done_line) (enumerate 0 lines));
          controlled = filter (\<lambda>l. starts_with ''TLFRAME'' l \<or> starts_with ''TLFIRMWARE'' l) lines
      in and_then (require (length done_positions = 1) (Done_count (length done_positions))) (\<lambda>_.
         and_then (require (\<not> list_ex (starts_with ''TLFRAME '') (drop (done_positions ! 0 + 1) lines))
           Frame_after_done) (\<lambda>_.
         require (controlled \<noteq> [] \<and> last controlled = done_line) Done_not_last)))"

definition upper_char :: "char \<Rightarrow> char" where
  "upper_char c = (let n = of_char c :: nat in if 97 \<le> n \<and> n \<le> 122 then char_of (n - 32) else c)"

definition lower_char :: "char \<Rightarrow> char" where
  "lower_char c = (let n = of_char c :: nat in if 65 \<le> n \<and> n \<le> 90 then char_of (n + 32) else c)"

text \<open>\<^verbatim>\<open>"\n".join(lines)\<close>.\<close>

fun join_lines :: "string list \<Rightarrow> string" where
  "join_lines [] = []"
| "join_lines [l] = l"
| "join_lines (l # ls) = l @ CHR 0x0A # join_lines ls"

definition capture_markers :: "string list" where
  "capture_markers =
     [''ASSERTION FAIL'', ''HARD FAULT'', ''KERNEL PANIC'', ''FATAL ERROR'', ''UNHANDLED EXCEPTION'']"

definition monitor_markers :: "string list" where
  "monitor_markers = [''[ERROR]'', ''CPU was halted'', ''Unhandled exception'']"

text \<open>No monitor log is an empty path in the code and \<open>None\<close> here.\<close>

definition validate_fault_free :: "string \<Rightarrow> string option \<Rightarrow> validation_error + unit" where
  "validate_fault_free capture monitor =
     (let text = map upper_char (join_lines (capture_lines capture))
      in and_then (for_each (\<lambda>marker. require (\<not> sublist marker text) (Firmware_fault marker)) capture_markers) (\<lambda>_.
         case monitor of
           None \<Rightarrow> Inr ()
         | Some log \<Rightarrow>
             let monitor_text = join_lines (capture_lines log)
             in for_each (\<lambda>marker. require (\<not> sublist (map lower_char marker) (map lower_char monitor_text))
                  (Monitor_fault marker)) monitor_markers))"

definition validate_capture :: "string \<Rightarrow> string option \<Rightarrow> validation_error + unit" where
  "validate_capture capture monitor =
     and_then (validate_zephyr_boot capture) (\<lambda>_.
     and_then (validate_frame_count capture) (\<lambda>_.
     and_then (validate_frame_encoding_and_headers capture) (\<lambda>_.
     and_then (validate_indices_sequences_and_crc capture) (\<lambda>_.
     and_then (validate_firmware_summary capture) (\<lambda>_.
     and_then (validate_firmware_done capture) (\<lambda>_.
     validate_fault_free capture monitor))))))"

end
