(* ===== verification/Capture_Acceptance.thy ===== *)
theory Capture_Acceptance
  imports Capture_Proofs
begin

text \<open>
  The validator on whole captures: what an accepted capture holds, and that the console of every
  finished firmware run, behind a clean boot and with the line endings of a terminal, is accepted.
\<close>

subsection \<open>Lines\<close>

lemma split_lines_line:
  assumes "list_all (\<lambda>c. \<not> line_end c) l"
  shows "split_lines (l @ newline # r) = l # split_lines r"
proof -
  have "line_end newline" by (simp add: line_end_def newline_def)
  with assms have "takeWhile (\<lambda>c. \<not> line_end c) (l @ newline # r) = l"
    "dropWhile (\<lambda>c. \<not> line_end c) (l @ newline # r) = newline # r"
    by (induction l) auto
  then show ?thesis by (subst split_lines.simps) simp
qed

lemma split_lines_unlines:
  "list_all (list_all (\<lambda>c. \<not> line_end c)) ls \<Longrightarrow> split_lines (unlines ls) = ls"
  by (induction ls) (simp_all add: unlines_simps split_lines_line split_lines.simps [of "[]"])

lemma capture_lines_eq:
  assumes read: "universal_newlines capture = unlines ls"
    and plain: "list_all (list_all (\<lambda>c. \<not> line_end c)) ls"
  shows "capture_lines capture = ls"
proof -
  have "CHR 0x0D \<notin> set (unlines ls)"
    using plain by (auto simp: unlines_def list_all_iff line_end_def newline_def)
  then have "filter (\<lambda>c. c \<noteq> CHR 0x0D) (unlines ls) = unlines ls"
    by (auto simp: filter_id_conv)
  then show ?thesis by (simp only: capture_lines_def read split_lines_unlines [OF plain])
qed

text \<open>What the console driver makes of a text on its way to the wire.\<close>

definition terminal_text :: "string \<Rightarrow> string" where
  "terminal_text s = concat (map (\<lambda>c. if c = CHR 0x0A then [CHR 0x0D, CHR 0x0A] else [c]) s)"

lemma universal_newlines_terminal:
  "CHR 0x0D \<notin> set s \<Longrightarrow> universal_newlines (terminal_text s) = s"
  by (induction s) (auto simp: terminal_text_def)

subsection \<open>The frame lines\<close>

lemma frames_of_Inr:
  "frames_of ls = Inr fs \<longleftrightarrow>
     (let frame_lines = filter (starts_with ''TLFRAME '') ls
      in (\<forall>l \<in> set frame_lines. match_frame l \<noteq> None) \<and> fs = map (the \<circ> match_frame) frame_lines)"
  by (induction ls arbitrary: fs) (auto simp: and_then_Inr Let_def split: option.splits)

lemma match_frame_groups: "match_frame l = Some g \<Longrightarrow> length (snd g) = 68 \<and> snd g = drop 13 l"
  by (auto simp: match_frame_def split: if_splits)

lemma frames_of_lengths: "frames_of ls = Inr fs \<Longrightarrow> g \<in> set fs \<Longrightarrow> length (snd g) = 68"
  by (auto simp: frames_of_Inr Let_def) (metis match_frame_groups option.sel snd_conv)

text \<open>Both passes over the frames, as one statement about what the decoder says of them.\<close>

definition sensor_capture :: "(string \<times> string) list \<Rightarrow> bool" where
  "sensor_capture fs \<longleftrightarrow> length fs = 8 \<and> map fst fs = expected_indices
     \<and> list_all (\<lambda>(_, hex). valid_frame (hex_value hex)) fs
     \<and> map (\<lambda>(_, hex). unat (sequence (header (decoded (hex_value hex))))) fs = [1000..<1008]"

lemma all_enumerate: "(\<forall>x \<in> set (enumerate n xs). P x) \<longleftrightarrow> (\<forall>k < length xs. P (n + k, xs ! k))"
  by (induction xs arbitrary: n) (simp_all add: All_less_Suc2)

lemma frame_passes:
  assumes "frames_of (capture_lines capture) = Inr fs"
  shows "validate_frame_count capture = Inr () \<and> validate_frame_encoding_and_headers capture = Inr ()
      \<and> validate_indices_sequences_and_crc capture = Inr () \<longleftrightarrow> sensor_capture fs"
proof -
  have each: "validate_header (1 + k, fs ! k) = Inr () \<and> validate_contents (0 + k, fs ! k) = Inr ()
      \<longleftrightarrow> valid_frame (hex_value (snd (fs ! k)))
        \<and> unat (sequence (header (decoded (hex_value (snd (fs ! k)))))) = 1000 + k" if "k < length fs" for k
    using frame_checks [of "snd (fs ! k)" "1 + k" "fst (fs ! k)" k] frames_of_lengths [OF assms, of "fs ! k"] that
    by auto
  have seqs: "map (\<lambda>(_, hex). unat (sequence (header (decoded (hex_value hex))))) fs = [1000..<1008]
      \<longleftrightarrow> (\<forall>k < 8. unat (sequence (header (decoded (hex_value (snd (fs ! k)))))) = 1000 + k)"
    if "length fs = 8"
    using that by (auto simp: list_eq_iff_nth_eq case_prod_unfold simp del: upt_rec_numeral)
  have valid: "list_all (\<lambda>(_, hex). valid_frame (hex_value hex)) fs
      \<longleftrightarrow> (\<forall>k < length fs. valid_frame (hex_value (snd (fs ! k))))"
    by (auto simp: list_all_length case_prod_unfold)
  show ?thesis
    unfolding validate_frame_count_def validate_frame_encoding_and_headers_def
      validate_indices_sequences_and_crc_def assms and_then.simps validation_simps all_enumerate
      sensor_capture_def valid
    using each seqs by auto
qed

subsection \<open>The lines of the firmware\<close>

definition index_text :: "nat \<Rightarrow> string" where
  "index_text i = ''000'' @ [''0123456789'' ! i]"

lemma sensor_line:
  assumes "i < 8" and "length fr = frame_size"
  shows "frame_text (of_nat (Suc i)) (format fr) = ''TLFRAME '' @ index_text (Suc i) @ '' '' @ hex_text fr"
proof -
  have "unat (of_nat (Suc i) :: u32) = Suc i"
    using assms(1) by (simp add: unsigned_of_nat take_bit_nat_eq_self del: of_nat_Suc)
  moreover have "pad4 (show_nat (Suc i)) = index_text (Suc i)"
    using assms(1) by (auto simp: less_Suc_eq numeral_eq_Suc pad4_def index_text_def digit_char_def
        show_nat.simps [of "Suc _"])
  moreover have "c_string (format fr) = hex_text fr"
    using format_eq [OF assms(2)] c_string_hex [of fr "[]"] by simp
  ultimately show ?thesis by (simp only: frame_text_def)
qed

definition sensor_groups :: "(string \<times> string) list" where
  "sensor_groups = map (\<lambda>(i, fr). (index_text (Suc i), hex_text fr)) (enumerate 0 encoded)"

lemma index_text_facts:
  assumes "i < 10"
  shows "length (index_text i) = 4" "list_all (\<lambda>c. c \<in> set ''0123456789'') (index_text i)"
proof -
  have "''0123456789'' ! i \<in> set ''0123456789''" using assms by (intro nth_mem) simp
  then show "length (index_text i) = 4" "list_all (\<lambda>c. c \<in> set ''0123456789'') (index_text i)"
    by (simp_all add: index_text_def)
qed

lemma match_sensor_line:
  assumes "i < 8" and "length fr = frame_size"
  shows "match_frame (''TLFRAME '' @ index_text (Suc i) @ '' '' @ hex_text fr) = Some (index_text (Suc i), hex_text fr)"
proof -
  let ?l = "''TLFRAME '' @ index_text (Suc i) @ '' '' @ hex_text fr"
  have idx: "length (index_text (Suc i)) = 4" "list_all (\<lambda>c. c \<in> set ''0123456789'') (index_text (Suc i))"
    using index_text_facts [of "Suc i"] assms(1) by simp_all
  have "list_all is_hex_digit (hex_text fr)" using hex_text_digits by (auto simp: list_all_iff)
  moreover have "take 4 (drop 8 ?l) = index_text (Suc i)" "drop 13 ?l = hex_text fr"
    "?l ! 12 = CHR '' ''" "take 8 ?l = ''TLFRAME ''"
    using idx(1) by (simp_all add: nth_append)
  moreover have "length ?l = 81" using idx(1) assms(2) by (simp add: frame_size_eq)
  ultimately show ?thesis using idx(2) by (simp only: match_frame_def if_True simp_thms)
qed

lemma frame_texts_eq:
  "frame_texts = map (\<lambda>(i, x). ''TLFRAME '' @ i @ '' '' @ x) sensor_groups"
  unfolding frame_texts_def sensor_groups_def map_map
proof (rule map_cong, rule refl)
  fix e
  assume "e \<in> set (enumerate 0 encoded)"
  moreover obtain i fr where e: "e = (i, fr)" by (cases e)
  ultimately have "i < 8" "length fr = frame_size" using encoded_entry by blast+
  then show "(\<lambda>(i, fr). frame_text (of_nat (Suc i)) (format fr)) e
      = ((\<lambda>(i, x). ''TLFRAME '' @ i @ '' '' @ x) \<circ> (\<lambda>(i, fr). (index_text (Suc i), hex_text fr))) e"
    by (simp only: e prod.case comp_apply sensor_line)
qed

lemma sensor_group:
  assumes "(i, x) \<in> set sensor_groups"
  obtains k where "k < 8" "i = index_text (Suc k)" "x = hex_text (encoded ! k)" "length (encoded ! k) = frame_size"
proof -
  from assms obtain k fr where k: "(k, fr) \<in> set (enumerate 0 encoded)"
    and "i = index_text (Suc k)" "x = hex_text fr"
    by (auto simp: sensor_groups_def simp del: in_set_enumerate_eq)
  with encoded_entry [OF k] show ?thesis by (intro that [of k]) simp_all
qed

lemma sensor_groups_capture: "sensor_capture sensor_groups"
proof -
  have len: "length encoded = 8" by (simp add: encoded_def)
  have "map fst sensor_groups = map (\<lambda>i. index_text (Suc i)) (map fst (enumerate 0 encoded))"
    by (simp add: sensor_groups_def case_prod_unfold comp_def del: map_fst_enumerate)
  also have "\<dots> = map index_text (map Suc [0..<8])"
    by (simp add: len comp_def del: upt_rec_numeral)
  also have "\<dots> = expected_indices"
    by (simp add: expected_indices_def map_Suc_upt index_text_def fun_eq_iff del: upt_rec_numeral)
  finally have indices: "map fst sensor_groups = expected_indices" .
  have vals: "map (\<lambda>(_, x). f (hex_value x)) sensor_groups = map f encoded" for f :: "bytes \<Rightarrow> 'a"
  proof -
    have "map (\<lambda>(_, x). f (hex_value x)) sensor_groups = map f (map snd (enumerate 0 encoded))"
      by (simp add: sensor_groups_def case_prod_unfold comp_def hex_value_text del: map_snd_enumerate)
    then show ?thesis by simp
  qed
  have "list_all (\<lambda>b. b) (map (\<lambda>(_, x). valid_frame (hex_value x)) sensor_groups)"
    unfolding vals using encoded_valid(1) by (auto simp: list_all_iff filter_id_conv)
  then have valid: "list_all (\<lambda>(_, x). valid_frame (hex_value x)) sensor_groups"
    by (auto simp: list_all_iff)
  have "map (\<lambda>bs. unat (sequence (header (decoded bs)))) encoded
      = map (\<lambda>f. unat (sequence (header f))) (map decoded encoded)" by simp
  also have "\<dots> = [1000..<1008]"
    by (simp add: encoded_valid(2) sensor_frames_def deterministic_sample_count_def upt_rec
        sensor_frame_def next_frame_def has_next_iff initial_sequence_def)
  finally show ?thesis
    using indices valid len vals [of "\<lambda>bs. unat (sequence (header (decoded bs)))"]
    by (simp add: sensor_capture_def sensor_groups_def del: upt_rec_numeral)
qed

subsection \<open>Fault markers\<close>

lemma sublist_around:
  assumes "sublist m (a @ c # b)" and "c \<notin> set m"
  shows "sublist m a \<or> sublist m b"
proof -
  from assms(1) consider "sublist m a" | "sublist m (c # b)"
    | m1 m2 where "m = m1 @ m2" "suffix m1 a" "prefix m2 (c # b)"
    by (auto simp: sublist_append)
  then show ?thesis
  proof cases
    case 2
    then show ?thesis using assms(2) by (auto simp: sublist_Cons_right prefix_Cons)
  next
    case 3
    then have "m2 = []" using assms(2) by (auto simp: prefix_Cons)
    with 3 show ?thesis by (auto intro: suffix_imp_sublist)
  qed simp
qed

lemma sublist_joined:
  "sublist m (join_lines ls) \<Longrightarrow> m \<noteq> [] \<Longrightarrow> CHR 0x0A \<notin> set m \<Longrightarrow> \<exists>l \<in> set ls. sublist m l"
proof (induction ls rule: join_lines.induct)
  case (3 l k ls)
  then have "sublist m l \<or> sublist m (join_lines (k # ls))" by (auto dest: sublist_around)
  with 3 show ?case by auto
qed simp_all

lemma map_upper_join: "map upper_char (join_lines ls) = join_lines (map (map upper_char) ls)"
proof (induction ls rule: join_lines.induct)
  case (3 l k ls)
  moreover have "upper_char (CHR 0x0A) = CHR 0x0A" by (simp add: upper_char_def)
  ultimately show ?case by simp
qed simp_all

definition marker_free :: "string \<Rightarrow> bool" where
  "marker_free l \<longleftrightarrow> list_all (\<lambda>m. \<not> sublist m (map upper_char l)) capture_markers"

lemma fault_free_lines:
  assumes "list_all marker_free (capture_lines capture)"
  shows "validate_fault_free capture None = Inr ()"
proof -
  have "\<not> sublist m (map upper_char (join_lines (capture_lines capture)))" if m: "m \<in> set capture_markers" for m
  proof
    assume "sublist m (map upper_char (join_lines (capture_lines capture)))"
    moreover have "m \<noteq> []" "CHR 0x0A \<notin> set m" using m by (auto simp: capture_markers_def)
    ultimately have "\<exists>l \<in> set (map (map upper_char) (capture_lines capture)). sublist m l"
      unfolding map_upper_join by (rule sublist_joined)
    then obtain l where "l \<in> set (capture_lines capture)" "sublist m (map upper_char l)" by auto
    with assms m show False by (auto simp: list_all_iff marker_free_def)
  qed
  then show ?thesis by (simp add: validate_fault_free_def Let_def validation_simps)
qed

text \<open>A frame line has none of the letters H, K, O, S and U, and each marker has one of them.\<close>

definition frame_alphabet :: string where
  "frame_alphabet = ''TLFRAME 0123456789ABCDEF''"

lemma frame_line_marker_free:
  assumes "set l \<subseteq> set frame_alphabet"
  shows "marker_free l"
proof -
  have same: "upper_char c = c" if "c \<in> set frame_alphabet" for c
    using that by (auto simp: frame_alphabet_def upper_char_def)
  then have "map upper_char l = l" using assms by (intro map_idI) auto
  moreover have "\<not> set m \<subseteq> set frame_alphabet" if "m \<in> set capture_markers" for m
    using that by (auto simp: capture_markers_def frame_alphabet_def)
  ultimately show ?thesis
    using assms by (auto simp: marker_free_def list_all_iff dest!: set_mono_sublist)
qed

lemma final_texts_marker_free: "list_all marker_free final_texts"
  by code_simp

subsection \<open>A clean boot and the console\<close>

text \<open>What the boot may print before the firmware: a banner, no line of the firmware, no fault.\<close>

definition clean_boot :: "string list \<Rightarrow> bool" where
  "clean_boot boot \<longleftrightarrow>
     list_all (\<lambda>l. list_all (\<lambda>c. \<not> line_end c) l \<and> marker_free l
       \<and> \<not> starts_with ''TLFRAME'' l \<and> \<not> starts_with ''TLFIRMWARE'' l) boot
     \<and> list_ex (starts_with ''*** Booting Zephyr OS build '') boot"

lemma starts_with_longer: "starts_with (p @ q) l \<Longrightarrow> starts_with p l"
  by (auto simp: starts_with_def) (metis append_eq_conv_conj append_take_drop_id append_assoc)

lemma boot_lines:
  assumes "clean_boot boot" and "l \<in> set boot"
  shows "\<not> starts_with ''TLFRAME'' l" "\<not> starts_with ''TLFIRMWARE'' l" "\<not> starts_with ''TLFRAME '' l"
    "\<not> starts_with ''TLFIRMWARE SUMMARY'' l" "l \<noteq> done_line"
proof -
  show frame: "\<not> starts_with ''TLFRAME'' l" and fw: "\<not> starts_with ''TLFIRMWARE'' l"
    using assms by (auto simp: clean_boot_def list_all_iff)
  show "\<not> starts_with ''TLFRAME '' l" using frame starts_with_longer [of "''TLFRAME''" "'' ''" l] by auto
  show "\<not> starts_with ''TLFIRMWARE SUMMARY'' l"
    using fw starts_with_longer [of "''TLFIRMWARE''" "'' SUMMARY''" l] by auto
  show "l \<noteq> done_line" using fw by (auto simp: done_line_def starts_with_def)
qed

lemma frame_texts_lines:
  assumes "l \<in> set frame_texts"
  shows "starts_with ''TLFRAME '' l" "\<not> starts_with ''TLFIRMWARE'' l" "\<not> starts_with ''TLFIRMWARE SUMMARY'' l"
    "l \<noteq> done_line" "set l \<subseteq> set frame_alphabet"
proof -
  from assms obtain i x where l: "l = ''TLFRAME '' @ i @ '' '' @ x" and g: "(i, x) \<in> set sensor_groups"
    by (auto simp: frame_texts_eq)
  from l show "starts_with ''TLFRAME '' l" "\<not> starts_with ''TLFIRMWARE'' l"
    "\<not> starts_with ''TLFIRMWARE SUMMARY'' l" "l \<noteq> done_line"
    by (simp_all add: starts_with_def done_line_def)
  from g obtain k where k: "k < 8" "i = index_text (Suc k)" "x = hex_text (encoded ! k)"
    by (rule sensor_group)
  have "list_all (\<lambda>c. c \<in> set ''0123456789'') i" using index_text_facts(2) [of "Suc k"] k by simp
  then have "set i \<subseteq> set ''0123456789''" unfolding list_all_iff by blast
  moreover have "set x \<subseteq> set ''0123456789ABCDEF''"
    using hex_text_digits unfolding k(3) is_hex_digit_def by blast
  moreover have "set ''0123456789'' \<subseteq> set frame_alphabet" "set ''0123456789ABCDEF'' \<subseteq> set frame_alphabet"
    "set ''TLFRAME '' \<subseteq> set frame_alphabet"
    by (simp_all add: frame_alphabet_def)
  moreover have "set l = set ''TLFRAME '' \<union> set i \<union> set '' '' \<union> set x" by (auto simp: l)
  ultimately show "set l \<subseteq> set frame_alphabet" by auto
qed

lemma final_texts_eq: "final_texts = [summary_line, done_line]"
  by (simp add: final_texts_def summary_line_def done_line_def)

lemma final_lines:
  "\<not> starts_with ''TLFRAME '' summary_line" "\<not> starts_with ''TLFRAME '' done_line"
  "starts_with ''TLFIRMWARE'' summary_line" "starts_with ''TLFIRMWARE'' done_line"
  "starts_with ''TLFIRMWARE SUMMARY'' summary_line" "\<not> starts_with ''TLFIRMWARE SUMMARY'' done_line"
  "summary_line \<noteq> done_line"
  by (simp_all add: starts_with_def summary_line_def done_line_def)

lemma sensor_frames_of:
  assumes "clean_boot boot"
  shows "frames_of (boot @ frame_texts @ final_texts) = Inr sensor_groups"
proof -
  have "filter (starts_with ''TLFRAME '') boot = []"
    using boot_lines(3) [OF assms] by (simp add: filter_empty_conv)
  moreover have "filter (starts_with ''TLFRAME '') frame_texts = frame_texts"
    using frame_texts_lines(1) by (simp add: filter_id_conv)
  ultimately have lines: "filter (starts_with ''TLFRAME '') (boot @ frame_texts @ final_texts) = frame_texts"
    by (simp add: final_texts_eq final_lines)
  have "match_frame (''TLFRAME '' @ i @ '' '' @ x) = Some (i, x)" if "(i, x) \<in> set sensor_groups" for i x
    using that by (rule sensor_group) (simp only: match_sensor_line)
  then show ?thesis
    unfolding frames_of_Inr lines Let_def by (auto simp only: frame_texts_eq map_map) (auto intro!: map_idI [symmetric])
qed

lemma summary_accepted:
  assumes "clean_boot boot" and "capture_lines capture = boot @ frame_texts @ final_texts"
  shows "validate_firmware_summary capture = Inr ()"
proof -
  have "filter (starts_with ''TLFIRMWARE SUMMARY'') boot = []"
    using boot_lines(4) [OF assms(1)] by (simp add: filter_empty_conv)
  moreover have "filter (starts_with ''TLFIRMWARE SUMMARY'') frame_texts = []"
    using frame_texts_lines(3) by (simp add: filter_empty_conv)
  ultimately show ?thesis
    by (simp add: validate_firmware_summary_def assms(2) final_texts_eq final_lines require_def)
qed

lemma done_accepted:
  assumes "clean_boot boot" and "capture_lines capture = boot @ frame_texts @ final_texts"
  shows "validate_firmware_done capture = Inr ()"
proof -
  have none: "filter (\<lambda>(_, l). l = done_line) (enumerate n ls) = []" if "\<forall>l \<in> set ls. l \<noteq> done_line"
    for n and ls :: "string list"
    using that by (auto simp: filter_empty_conv in_set_enumerate_eq)
  have positions: "map fst (filter (\<lambda>(_, l). l = done_line) (enumerate 0 (boot @ frame_texts @ final_texts)))
      = [Suc (length boot + length frame_texts)]"
    using none [of boot 0] none [of frame_texts "length boot"]
      boot_lines(5) [OF assms(1)] frame_texts_lines(4)
    by (simp add: enumerate_append_eq final_texts_eq final_lines)
  have "filter (\<lambda>l. starts_with ''TLFRAME'' l \<or> starts_with ''TLFIRMWARE'' l) final_texts = final_texts"
    by (simp add: final_texts_eq final_lines)
  then show ?thesis
    unfolding validate_firmware_done_def assms(2) positions Let_def
    by (simp add: require_def final_texts_eq)
qed

lemma console_lines:
  assumes boot: "clean_boot boot"
    and read: "universal_newlines capture = unlines boot @ lines_of encoded @ final_text"
  shows "capture_lines capture = boot @ frame_texts @ final_texts"
proof (rule capture_lines_eq)
  show "universal_newlines capture = unlines (boot @ frame_texts @ final_texts)"
    using read console_as_lines by (simp add: unlines_def)
  have plain: "list_all (\<lambda>c. \<not> line_end c) l" if "set l \<subseteq> set frame_alphabet" for l
    using that by (auto simp: list_all_iff frame_alphabet_def line_end_def)
  show "list_all (list_all (\<lambda>c. \<not> line_end c)) (boot @ frame_texts @ final_texts)"
    using boot frame_texts_lines(5) plain
    by (auto simp: clean_boot_def list_all_iff final_texts_def line_end_def)
qed

lemma console_accepted:
  assumes boot: "clean_boot boot"
    and "universal_newlines capture = unlines boot @ lines_of encoded @ final_text"
  shows "validate_capture capture None = Inr ()"
proof -
  let ?ls = "boot @ frame_texts @ final_texts"
  note lines = console_lines [OF assms]
  have "validate_zephyr_boot capture = Inr ()"
    using boot by (simp add: validate_zephyr_boot_def lines require_def clean_boot_def)
  moreover have "list_all marker_free ?ls"
    using boot frame_texts_lines(5) frame_line_marker_free final_texts_marker_free
    by (auto simp: clean_boot_def list_all_iff)
  then have "validate_fault_free capture None = Inr ()" by (simp only: fault_free_lines lines)
  moreover have "frames_of (capture_lines capture) = Inr sensor_groups"
    by (simp only: lines sensor_frames_of [OF boot])
  from frame_passes [OF this] sensor_groups_capture
  have "validate_frame_count capture = Inr ()" "validate_frame_encoding_and_headers capture = Inr ()"
    "validate_indices_sequences_and_crc capture = Inr ()" by simp_all
  ultimately show ?thesis
    using summary_accepted [OF boot lines] done_accepted [OF boot lines]
    by (simp add: validate_capture_def)
qed

text \<open>A capture to try the results on.\<close>

definition demo_boot :: "string list" where
  "demo_boot = [''*** Booting Zephyr OS build v4.1.0 ***'']"

lemma demo_boot_clean: "clean_boot demo_boot"
  unfolding demo_boot_def by code_simp

lemma terminal_capture:
  assumes "clean_boot boot" and "out = lines_of encoded @ final_text"
  shows "universal_newlines (terminal_text (unlines boot @ out)) = unlines boot @ out"
proof (rule universal_newlines_terminal)
  have "CHR 0x0D \<notin> set frame_alphabet" by (simp add: frame_alphabet_def)
  then have "CHR 0x0D \<notin> set l" if "l \<in> set frame_texts" for l
    using frame_texts_lines(5) [OF that] by blast
  then have "CHR 0x0D \<notin> set (unlines frame_texts)"
    by (auto simp: unlines_def newline_def)
  moreover have "CHR 0x0D \<notin> set (unlines boot)"
    using assms(1) by (auto simp: unlines_def clean_boot_def list_all_iff line_end_def newline_def)
  moreover have "CHR 0x0D \<notin> set (unlines final_texts)"
    by (simp add: unlines_def final_texts_def newline_def)
  ultimately show "CHR 0x0D \<notin> set (unlines boot @ out)"
    by (simp add: assms(2) console_as_lines unlines_def)
qed

text \<open>
  The validator asks for a banner, not for exactly one as \<^verbatim>\<open>docs/RENODE.md\<close> says: a board that boots
  twice before the firmware prints is accepted.
\<close>

lemma rebooted_capture_is_accepted:
  "\<exists>capture. validate_capture capture None = Inr ()
    \<and> length (filter (starts_with ''*** Booting Zephyr OS build '') (capture_lines capture)) \<ge> 2"
proof -
  let ?boot = "demo_boot @ demo_boot" and ?out = "lines_of encoded @ final_text"
  let ?capture = "terminal_text (unlines ?boot @ ?out)"
  have clean: "clean_boot ?boot" using demo_boot_clean by (simp add: clean_boot_def)
  note read = terminal_capture [OF clean refl]
  have "capture_lines ?capture = ?boot @ frame_texts @ final_texts"
    using console_lines [OF clean read] .
  moreover have "filter (starts_with ''*** Booting Zephyr OS build '') demo_boot = demo_boot"
    by (simp add: demo_boot_def starts_with_def)
  ultimately have "length (filter (starts_with ''*** Booting Zephyr OS build '') (capture_lines ?capture)) \<ge> 2"
    by (simp add: demo_boot_def starts_with_def)
  with console_accepted [OF clean read] show ?thesis by blast
qed

lemma valid_frame_Some: "valid_frame bs \<longleftrightarrow> frame (deserialize bs) = Some (decoded bs)"
  by (auto simp: valid_frame_def has_value_def decoded_def split: option.splits)

subsection \<open>Properties\<close>

text \<open>C25: the Python validator and the C++ decoder are two implementations of one protocol: for every
  byte string, its two passes over the frame accept the upper-case hexadecimal text with transmission
  offset k exactly when \<open>deserialize\<close> accepts the bytes and the decoded sequence is 1000 + k.\<close>

theorem validator_agrees_with_decoder:
  "validate_header (i, x, hex_text bs) = Inr () \<and> validate_contents (k, x, hex_text bs) = Inr ()
    \<longleftrightarrow> (\<exists>f. frame (deserialize bs) = Some f \<and> unat (sequence (header f)) = 1000 + k)"
proof (cases "length bs = frame_size")
  case True
  with frame_checks [of "hex_text bs" i x k] show ?thesis
    by (auto simp: hex_value_text frame_size_eq valid_frame_Some) (simp_all add: decoded_def)
next
  case False
  then have "frame (deserialize bs) = None" by (simp add: deserialize_def failure_def)
  moreover from False have "validate_header (i, x, hex_text bs) \<noteq> Inr ()"
    by (simp add: validate_header_def validation_simps frame_size_eq)
  ultimately show ?thesis by simp
qed

text \<open>C26: an accepted capture is the run the firmware should have made: its frame lines are numbered
  0001 to 0008, the decoder accepts every one of them and their sequence numbers are 1000 to 1007
  in order, whatever else the capture and the monitor log hold.\<close>

theorem accepted_capture_is_valid:
  assumes "validate_capture capture monitor = Inr ()"
  shows "\<exists>fs. frames_of (capture_lines capture) = Inr fs \<and> map fst fs = expected_indices
    \<and> map (\<lambda>(_, hex). map_option (unat \<circ> sequence \<circ> header) (frame (deserialize (hex_value hex)))) fs
      = map Some [1000..<1008]"
proof -
  from assms obtain fs where fs: "frames_of (capture_lines capture) = Inr fs"
    by (auto simp: validate_capture_def validate_frame_count_def validation_simps)
  have "sensor_capture fs"
    using assms frame_passes [OF fs] by (auto simp: validate_capture_def and_then_Inr)
  then have "list_all (\<lambda>(_, hex). valid_frame (hex_value hex)) fs"
    and "map fst fs = expected_indices"
    and seqs: "map (\<lambda>(_, hex). unat (sequence (header (decoded (hex_value hex))))) fs = [1000..<1008]"
    by (simp_all add: sensor_capture_def)
  moreover from this(1) have "map (\<lambda>(_, hex). map_option (unat \<circ> sequence \<circ> header) (frame (deserialize (hex_value hex)))) fs
      = map Some (map (\<lambda>(_, hex). unat (sequence (header (decoded (hex_value hex))))) fs)"
    unfolding map_map by (intro map_cong) (auto simp: list_all_iff valid_frame_Some)
  ultimately show ?thesis unfolding seqs using fs by blast
qed

theorem accepted_capture_is_valid_witness:
  "\<exists>capture fs. validate_capture capture None = Inr () \<and> frames_of (capture_lines capture) = Inr fs
    \<and> map fst fs = expected_indices"
proof -
  have "validate_capture (terminal_text (unlines demo_boot @ lines_of encoded @ final_text)) None = Inr ()"
    by (rule console_accepted [OF demo_boot_clean terminal_capture [OF demo_boot_clean refl]])
  with accepted_capture_is_valid [OF this] show ?thesis by blast
qed

end
