(* ===== verification/Bit_Errors.thy ===== *)
theory Bit_Errors
  imports Deserializer
begin

unbundle bit_operations_syntax

text \<open>
  Bit errors in a frame. A single flipped bit changes the difference between the transmitted and
  the computed checksum by \<open>syndrome n\<close>, the state of the register \<open>n\<close> steps after its top bit
  was set, and every bit of a frame has its own \<open>n < 272\<close>. The step loses no information, so a sum
  of syndromes is zero only if a sum with one of them at 0 is; the computation over the orbit of
  the register then says that no one, two or three of them cancel.
\<close>

definition weight :: "bytes \<Rightarrow> nat" where
  "weight bs = sum_list (map (\<lambda>b. length (filter (bit b) [0..<8])) bs)"

definition difference :: "bytes \<Rightarrow> bytes \<Rightarrow> bytes" where
  "difference bs bs' = map2 (\<lambda>x y. x XOR y) bs bs'"

definition bit_distance :: "bytes \<Rightarrow> bytes \<Rightarrow> nat" where
  "bit_distance bs bs' = weight (difference bs bs')"

subsection \<open>The checksum of a difference\<close>

lemma difference_simps:
  "difference [] [] = []" "difference (x # xs) (y # ys) = (x XOR y) # difference xs ys"
  by (simp_all add: difference_def)

lemma length_difference [simp]: "length (difference xs ys) = min (length xs) (length ys)"
  by (simp add: difference_def)

lemma take_drop_difference:
  "take n (difference xs ys) = difference (take n xs) (take n ys)"
  "drop n (difference xs ys) = difference (drop n xs) (drop n ys)"
  by (simp_all add: difference_def take_map drop_map take_zip drop_zip)

lemma fold_difference:
  "length xs = length ys \<Longrightarrow> foldl crc_byte_step s xs XOR foldl crc_byte_step t ys
    = foldl crc_byte_step (s XOR t) (difference xs ys)"
proof (induction xs ys arbitrary: s t rule: list_induct2)
  case (Cons x xs y ys)
  have "crc_byte_step s x XOR crc_byte_step t y = crc_byte_step (s XOR t) (x XOR y)"
    unfolding crc_byte_step_def crc_bit.iterate_lin [symmetric]
    by (simp add: unsigned_xor_eq xor.assoc xor.left_commute)
  with Cons show ?case by (simp add: difference_simps)
qed (simp add: difference_simps)

lemma be_decode_difference:
  "length xs = length ys \<Longrightarrow> (be_decode xs XOR be_decode ys :: u32) = be_decode (difference xs ys)"
proof (induction xs ys rule: list_induct2)
  case (Cons x xs y ys)
  have "push_bit n (ucast (x XOR y)) = (push_bit n (ucast x) XOR push_bit n (ucast y) :: u32)" for n
    by (simp add: unsigned_xor_eq)
  with Cons show ?case
    by (simp add: difference_simps be_decode_Cons xor.assoc xor.left_commute flip: Cons.IH)
qed (simp add: difference_simps be_decode_def)

subsection \<open>Syndromes\<close>

definition syndrome :: "nat \<Rightarrow> u32" where
  "syndrome n = (crc_bit_step ^^ n) 0x80000000"

definition xor_sum :: "u32 list \<Rightarrow> u32" where
  "xor_sum xs = foldr (XOR) xs 0"

lemma xor_sum_simps [simp]:
  "xor_sum [] = 0" "xor_sum (x # xs) = x XOR xor_sum xs"
  by (simp_all add: xor_sum_def)

lemma xor_sum_append [simp]: "xor_sum (xs @ ys) = xor_sum xs XOR xor_sum ys"
  by (induction xs) (simp_all add: xor.assoc)

lemma iterate_xor_sum: "(crc_bit_step ^^ n) (xor_sum xs) = xor_sum (map (crc_bit_step ^^ n) xs)"
  by (induction xs) (simp_all add: crc_bit.iterate_lin crc_bit.iterate_zero)

lemma single_bit_syndrome: "k < 32 \<Longrightarrow> 2 ^ k = syndrome (31 - k)"
proof -
  assume k: "k < 32"
  have "\<not> bit (2 ^ k :: u32) m" if "32 \<le> m + (31 - k)" for m
    using that k by (auto simp: bit_exp_iff)
  then have "(crc_bit_step ^^ (31 - k)) (push_bit (31 - k) (2 ^ k)) = 2 ^ k"
    by (intro iterate_push_bit)
  moreover have "push_bit (31 - k) (2 ^ k) = (2 ^ 31 :: u32)"
    using k unfolding push_bit_eq_mult by (simp flip: power_add)
  ultimately show ?thesis by (simp add: syndrome_def)
qed

lemma byte_as_bits: "(ucast (b :: u8) :: u32) = xor_sum (map (\<lambda>k. 2 ^ k) (filter (bit b) [0..<8]))"
proof (rule bit_word_eqI)
  fix n assume n: "n < LENGTH(32)"
  have "bit (xor_sum (map (\<lambda>k. 2 ^ k) ks)) n \<longleftrightarrow> n \<in> set ks" if "distinct ks" for ks
    using that n by (induction ks) (auto simp: bit_xor_iff bit_exp_iff)
  from this [of "filter (bit b) [0..<8]"]
  show "bit (ucast b :: u32) n = bit (xor_sum (map (\<lambda>k. 2 ^ k) (filter (bit b) [0..<8]))) n"
    using n by (auto simp: bit_ucast_iff dest: bit_imp_le_length)
qed

lemma byte_syndromes:
  assumes "m + 8 \<le> 32"
  shows "push_bit m (ucast (b :: u8)) = xor_sum (map (\<lambda>k. syndrome (31 - (m + k))) (filter (bit b) [0..<8]))"
proof -
  have shift: "push_bit m (xor_sum xs) = xor_sum (map (push_bit m) xs)" for xs
    by (induction xs) simp_all
  have power: "push_bit m (2 ^ k) = (2 ^ (m + k) :: u32)" for k
    by (simp add: push_bit_eq_mult power_add mult.commute)
  have "push_bit m (ucast b) = xor_sum (map (\<lambda>k. 2 ^ (m + k)) (filter (bit b) [0..<8]))"
    by (simp add: byte_as_bits shift comp_def power)
  also have "map (\<lambda>k. 2 ^ (m + k)) (filter (bit b) [0..<8])
      = map (\<lambda>k. syndrome (31 - (m + k))) (filter (bit b) [0..<8])"
    using assms by (intro map_cong) (auto intro!: single_bit_syndrome)
  finally show ?thesis .
qed

text \<open>The numbers of the bits set in the covered bytes and in the checksum field.\<close>

fun covered_bits :: "bytes \<Rightarrow> nat list" where
  "covered_bits [] = []"
| "covered_bits (b # bs) =
     map (\<lambda>k. 8 * length bs + 8 + (31 - k)) (filter (bit b) [0..<8]) @ covered_bits bs"

fun field_bits :: "bytes \<Rightarrow> nat list" where
  "field_bits [] = []"
| "field_bits (b # bs) =
     map (\<lambda>k. 31 - (8 * length bs + k)) (filter (bit b) [0..<8]) @ field_bits bs"

lemma funpow_add': "(f ^^ (m + n)) x = (f ^^ m) ((f ^^ n) x)"
  by (simp add: funpow_add)

lemma fold_syndromes: "foldl crc_byte_step 0 bs = xor_sum (map syndrome (covered_bits bs))"
proof (induction bs)
  case (Cons b bs)
  have "foldl crc_byte_step 0 (b # bs) = (crc_bit_step ^^ (8 * length bs)) (crc_byte_step 0 b) XOR foldl crc_byte_step 0 bs"
    using fold_states [of "crc_byte_step 0 b" bs 0] by (simp add: xor.assoc flip: fold_states [of _ _ 0, simplified])
  also have "(crc_bit_step ^^ (8 * length bs)) (crc_byte_step 0 b)
      = (crc_bit_step ^^ (8 * length bs + 8)) (push_bit 0 (ucast b))"
    by (simp add: crc_byte_step_def bits_per_byte_def funpow_add)
  also have "\<dots> = xor_sum (map (\<lambda>k. syndrome (8 * length bs + 8 + (31 - k))) (filter (bit b) [0..<8]))"
    by (subst byte_syndromes) (simp_all add: iterate_xor_sum comp_def syndrome_def flip: funpow_add')
  finally show ?case by (simp add: Cons comp_def)
qed simp

lemma field_syndromes: "length bs \<le> 4 \<Longrightarrow> be_decode bs = xor_sum (map syndrome (field_bits bs))"
proof (induction bs)
  case (Cons b bs)
  then have "8 * length bs + 8 \<le> 32" by simp
  with Cons show ?case by (simp add: be_decode_Cons byte_syndromes comp_def)
qed simp

lemma length_bits: "length (covered_bits bs) = weight bs" "length (field_bits bs) = weight bs"
  by (induction bs) (simp_all add: weight_def)

lemma covered_bits_range: "n \<in> set (covered_bits bs) \<Longrightarrow> 32 \<le> n \<and> n < 32 + 8 * length bs"
  by (induction bs) auto

lemma field_bits_range: "n \<in> set (field_bits bs) \<Longrightarrow> length bs \<le> 4 \<Longrightarrow> 32 - 8 * length bs \<le> n \<and> n < 32"
  by (induction bs) auto

lemma covered_bits_distinct: "distinct (covered_bits bs)"
proof (induction bs)
  case (Cons b bs)
  then show ?case
    by (auto simp: distinct_map inj_on_def dest!: covered_bits_range)
qed simp

lemma field_bits_distinct: "length bs \<le> 4 \<Longrightarrow> distinct (field_bits bs)"
proof (induction bs)
  case (Cons b bs)
  then show ?case
    by (auto simp: distinct_map inj_on_def dest!: field_bits_range)
qed simp

subsection \<open>The orbit of the register\<close>

text \<open>The register as an integer, so that the kernel computes with numerals.\<close>

definition next_int :: "int \<Rightarrow> int" where
  "next_int x = (if even x then x div 2 else (x div 2) XOR 0xEDB88320)"

primrec orbit :: "nat \<Rightarrow> int \<Rightarrow> int list" where
  "orbit 0 x = []"
| "orbit (Suc n) x = x # orbit n (next_int x)"

text \<open>No two elements are equal: a binary partition, least significant bit first.\<close>

primrec all_apart :: "nat \<Rightarrow> int list \<Rightarrow> bool" where
  "all_apart 0 xs = (length xs \<le> 1)"
| "all_apart (Suc d) xs = (xs = [] \<or> tl xs = [] \<or>
    all_apart d (map (\<lambda>x. x div 2) (filter even xs)) \<and> all_apart d (map (\<lambda>x. x div 2) (filter odd xs)))"

definition class_apart :: "int \<Rightarrow> bool" where
  "class_apart c =
     (let t = filter (\<lambda>x. x mod 4 = c) (orbit 272 0x40000000)
      in all_apart 32 (t @ map (\<lambda>x. x XOR 0x80000000) t))"

lemma class_0: "class_apart 0" by code_simp
lemma class_1: "class_apart 1" by code_simp
lemma class_2: "class_apart 2" by code_simp
lemma class_3: "class_apart 3" by code_simp

lemma next_int_uint: "next_int (uint w) = uint (crc_bit_step w)"
proof -
  have "uint (drop_bit 1 w) = drop_bit 1 (uint w)"
    by (rule bit_eqI) (auto simp: bit_uint_iff bit_simps dest: bit_imp_le_length)
  then have "uint (drop_bit 1 w) = uint w div 2" by (simp add: drop_bit_eq_div)
  moreover have "bit w 0 \<longleftrightarrow> odd (uint w)"
  proof -
    have "bit (uint w) 0 \<longleftrightarrow> bit w 0" by (simp only: bit_uint_iff) simp
    then show ?thesis by (simp add: bit_0)
  qed
  ultimately show ?thesis
    by (simp add: next_int_def crc_bit_step_eq polynomial_def unsigned_xor_eq)
qed

lemma orbit_uint: "orbit n (uint w) = map (\<lambda>k. uint ((crc_bit_step ^^ k) w)) [0..<n]"
proof (induction n arbitrary: w)
  case (Suc n)
  have "[0..<Suc n] = 0 # map Suc [0..<n]"
    by (simp add: upt_conv_Cons map_Suc_upt del: upt_Suc)
  with Suc [of "crc_bit_step w"] show ?case
    by (simp add: next_int_uint funpow_swap1 comp_def del: upt_Suc)
qed simp

lemma all_apart_distinct: "all_apart d xs \<Longrightarrow> distinct xs"
proof (induction d arbitrary: xs)
  case 0
  then show ?case by (cases xs; cases "tl xs") auto
next
  case (Suc d)
  have small: "distinct xs" if "xs = [] \<or> tl xs = []" using that by (cases xs) auto
  have parts: "distinct xs" if "distinct (filter even xs)" "distinct (filter odd xs)"
    using that by (induction xs) (auto split: if_splits)
  show ?case using Suc by (auto intro: small parts dest!: Suc.IH simp: distinct_map)
qed

lemma classes_distinct: "(\<And>c. 0 \<le> c \<Longrightarrow> c < 4 \<Longrightarrow> distinct (filter (\<lambda>x. x mod 4 = c) xs)) \<Longrightarrow> distinct (xs :: int list)"
proof (induction xs)
  case (Cons x xs)
  have "distinct (filter (\<lambda>y. y mod 4 = c) xs)" if "0 \<le> c" "c < 4" for c
    using Cons.prems [OF that] by (auto split: if_splits)
  moreover have "x \<notin> set xs"
    using Cons.prems [of "x mod 4"] by simp
  ultimately show ?case using Cons.IH by simp
qed simp

lemma top_bit_class: "(x XOR 0x80000000) mod 4 = x mod (4 :: int)"
proof -
  have "take_bit 2 (x XOR 0x80000000) = take_bit 2 x" by (simp add: take_bit_xor)
  then show ?thesis by (simp add: take_bit_eq_mod)
qed

lemma filter_class:
  "filter (\<lambda>x. x mod 4 = c) (t @ map (\<lambda>x. x XOR 0x80000000) t)
    = filter (\<lambda>x. x mod 4 = c) t @ map (\<lambda>x. x XOR 0x80000000) (filter (\<lambda>x. x mod 4 = (c :: int)) t)"
  by (simp add: filter_map comp_def top_bit_class)

lemma syndromes_apart: "distinct (map syndrome [1..<273] @ map (\<lambda>n. syndrome n XOR 0x80000000) [1..<273])"
proof -
  let ?t = "orbit 272 0x40000000"
  have "distinct (filter (\<lambda>x. x mod 4 = c) (?t @ map (\<lambda>x. x XOR 0x80000000) ?t))" if "0 \<le> c" "c < 4" for c
  proof -
    from that consider "c = 0" | "c = 1" | "c = 2" | "c = 3" by linarith
    then have "class_apart c" using class_0 class_1 class_2 class_3 by cases simp_all
    then show ?thesis
      unfolding class_apart_def Let_def filter_class by (rule all_apart_distinct)
  qed
  then have "distinct (?t @ map (\<lambda>x. x XOR 0x80000000) ?t)" by (rule classes_distinct)
  moreover have "?t = map (\<lambda>n. uint (syndrome n)) [1..<273]"
  proof -
    have "uint (syndrome 1) = 0x40000000" by (simp add: syndrome_def crc_bit_step_eq bit_0)
    moreover have "(crc_bit_step ^^ k) (syndrome 1) = syndrome (Suc k)" for k
      by (simp add: syndrome_def funpow_swap1)
    ultimately have "?t = map (\<lambda>k. uint (syndrome (Suc k))) [0..<272]"
      using orbit_uint [of 272 "syndrome 1"] by (simp only:)
    also have "\<dots> = map (\<lambda>n. uint (syndrome n)) (map Suc [0..<272])" by (simp del: upt_rec_numeral)
    finally show ?thesis by (simp add: map_Suc_upt del: upt_rec_numeral)
  qed
  moreover have "uint (x XOR 0x80000000) = uint x XOR 0x80000000" for x :: u32
    by (simp add: unsigned_xor_eq)
  ultimately have "distinct (map uint (map syndrome [1..<273] @ map (\<lambda>n. syndrome n XOR 0x80000000) [1..<273]))"
    by (simp add: comp_def del: upt_rec_numeral)
  then show ?thesis by (simp only: distinct_map)
qed

subsection \<open>No three bits cancel\<close>

lemma syndrome_0: "syndrome 0 = 0x80000000"
  by (simp add: syndrome_def)

lemma syndrome_add: "syndrome (m + n) = (crc_bit_step ^^ m) (syndrome n)"
  by (simp add: syndrome_def funpow_add)

lemma syndrome_nonzero: "syndrome n \<noteq> 0"
  using crc_bit.iterate_kernel [of n "0x80000000"] by (auto simp: syndrome_def)

lemma syndrome_facts:
  assumes "1 \<le> a" "a \<le> 272" "1 \<le> b" "b \<le> 272"
  shows "syndrome a = syndrome b \<longleftrightarrow> a = b" "syndrome a \<noteq> syndrome b XOR syndrome 0"
proof -
  have inj: "inj_on syndrome (set [1..<273])"
    and apart: "syndrome ` set [1..<273] \<inter> (\<lambda>n. syndrome n XOR 0x80000000) ` set [1..<273] = {}"
    using syndromes_apart unfolding distinct_append distinct_map set_map by blast+
  have "a \<in> set [1..<273]" "b \<in> set [1..<273]" using assms by simp_all
  with inj apart show "syndrome a = syndrome b \<longleftrightarrow> a = b" "syndrome a \<noteq> syndrome b XOR syndrome 0"
    unfolding syndrome_0 by (blast dest: inj_onD)+
qed

lemma syndrome_returns: "1 \<le> a \<Longrightarrow> a \<le> 271 \<Longrightarrow> syndrome a \<noteq> syndrome 0"
proof
  assume a: "1 \<le> a" "a \<le> 271" and "syndrome a = syndrome 0"
  then have "syndrome (1 + a) = syndrome (1 + 0)" by (simp only: syndrome_add)
  with a show False using syndrome_facts(1) [of "1 + a" 1] by simp
qed

lemma shift_sum: "xor_sum (map syndrome (map ((+) m) ns)) = 0 \<longleftrightarrow> xor_sum (map syndrome ns) = 0"
proof -
  have "xor_sum (map syndrome (map ((+) m) ns)) = (crc_bit_step ^^ m) (xor_sum (map syndrome ns))"
    by (simp add: iterate_xor_sum comp_def syndrome_add)
  then show ?thesis using crc_bit.iterate_kernel crc_bit.iterate_zero by metis
qed

lemma xor_sum_sort: "xor_sum (map f (sort ns)) = xor_sum (map f ns)"
proof -
  have "xor_sum (map f (insort n ms)) = f n XOR xor_sum (map f ms)" for n ms
    by (induction ms) (simp_all add: xor.left_commute)
  then show ?thesis by (induction ns) simp_all
qed

lemma no_cancellation:
  assumes "distinct ns" "ns \<noteq> []" "length ns \<le> 3" "\<forall>n \<in> set ns. n < 272"
  shows "xor_sum (map syndrome ns) \<noteq> 0"
proof
  assume sum: "xor_sum (map syndrome ns) = 0"
  define ms where "ms = sort ns"
  have ms: "sorted_wrt (<) ms" "ms \<noteq> []" "length ms \<le> 3" "\<forall>n \<in> set ms. n < 272"
    using assms by (simp_all add: ms_def strict_sorted_iff) (metis length_0_conv length_sort)
  then obtain m rest where m: "ms = m # rest" by (cases ms) simp_all
  have shifted: "ms = map ((+) m) (0 # map (\<lambda>n. n - m) rest)"
    using ms(1) by (auto simp: m intro!: map_idI [symmetric])
  have zero: "xor_sum (map syndrome (0 # map (\<lambda>n. n - m) rest)) = 0"
    using sum xor_sum_sort [of syndrome ns] shifted shift_sum unfolding ms_def by metis
  from ms(3) consider "rest = []" | a where "rest = [a]" | a b where "rest = [a, b]"
    by (cases rest; cases "tl rest") (auto simp: m)
  then show False
  proof cases
    case 1
    with zero show False by (simp add: syndrome_nonzero)
  next
    case 2
    then have "1 \<le> a - m" "a - m \<le> 271" using ms(1,4) by (auto simp: m)
    with zero 2 show False using syndrome_returns by (auto simp: xor_eq_0_iff)
  next
    case 3
    then have r: "1 \<le> a - m" "a - m \<le> 272" "1 \<le> b - m" "b - m \<le> 272" using ms(1,4) by (auto simp: m)
    have "syndrome (a - m) XOR syndrome 0 = syndrome (b - m)"
      using zero 3 by (simp add: xor_eq_0_iff flip: xor.assoc) (metis xor.commute xor_eq_0_iff)
    with syndrome_facts(2) [OF r(3,4,1,2)] show False by simp
  qed
qed

lemma difference_detected:
  assumes len: "length e = 34" and "0 < weight e" "weight e \<le> 3"
  shows "foldl crc_byte_step 0 (take 30 e) \<noteq> be_decode (drop 30 e)"
proof -
  let ?ns = "covered_bits (take 30 e) @ field_bits (drop 30 e)"
  have "weight (take 30 e) + weight (drop 30 e) = weight (take 30 e @ drop 30 e)"
    unfolding weight_def by (simp only: map_append sum_list_append)
  then have w: "length ?ns = weight e" by (simp add: length_bits)
  have "\<forall>n \<in> set (covered_bits (take 30 e)). 32 \<le> n \<and> n < 272"
    "\<forall>n \<in> set (field_bits (drop 30 e)). n < 32"
    using covered_bits_range [of _ "take 30 e"] field_bits_range [of _ "drop 30 e"] len by auto
  then have "xor_sum (map syndrome ?ns) \<noteq> 0"
    using w assms(2,3) len covered_bits_distinct field_bits_distinct
    by (intro no_cancellation) (fastforce simp flip: length_greater_0_conv)+
  then show ?thesis using len by (simp add: fold_syndromes field_syndromes xor_eq_0_iff)
qed

lemma few_errors_detected:
  assumes acc: "has_value (deserialize bs)" and len: "length bs' = length bs"
    and few: "0 < bit_distance bs bs'" "bit_distance bs bs' \<le> 3"
  shows "drop 30 bs' \<noteq> be_encode 4 (calculate_crc32 (take 30 bs'))"
proof
  assume crc': "drop 30 bs' = be_encode 4 (calculate_crc32 (take 30 bs'))"
  from acc obtain f where "bs = frame_layout f"
    using deserialize_accepts(1) by (auto simp: has_value_frame)
  then have len34: "length bs = 34" and crc: "drop 30 bs = be_encode 4 (calculate_crc32 (take 30 bs))"
    using layout_fields(11) by simp_all
  let ?e = "difference bs bs'"
  have "foldl crc_byte_step 0 (take 30 ?e) = calculate_crc32 (take 30 bs) XOR calculate_crc32 (take 30 bs')"
    using fold_difference [of "take 30 bs" "take 30 bs'" initial_value initial_value] len
    by (simp add: calculate_crc32_def take_drop_difference xor.assoc xor.left_commute)
      (simp add: xor.commute)
  also have "\<dots> = be_decode (drop 30 bs) XOR be_decode (drop 30 bs')"
    by (simp add: crc crc' be_decode_encode_full)
  also have "\<dots> = be_decode (drop 30 ?e)"
    using len by (simp add: be_decode_difference take_drop_difference)
  finally show False
    using difference_detected [of ?e] few len len34 by (simp add: bit_distance_def)
qed

subsection \<open>Properties\<close>

text \<open>C13: up to three bit errors are detected anywhere in a frame: if one to three bits of an
  accepted frame are flipped, in the header, the payload or the checksum field, the decoder rejects
  the result, and with the checksum mismatch when the first six bytes are intact.\<close>

theorem few_bit_errors_rejected:
  assumes "has_value (deserialize bs)" and "length bs' = length bs"
    and "0 < bit_distance bs bs'" and "bit_distance bs bs' \<le> 3"
  shows "\<not> has_value (deserialize bs')
    \<and> (take 6 bs' = take 6 bs \<longrightarrow> error (deserialize bs') = PE_checksum_mismatch)"
  using few_errors_detected [OF assms] mismatch_rejected mismatch_error [OF assms(1,2)] by blast

theorem few_bit_errors_rejected_witness:
  "\<not> has_value (deserialize ((frame_layout default_frame)[6 := 128, 20 := 3]))"
proof -
  have valid: "has_value (deserialize (frame_layout default_frame))"
    by (simp add: deserialize_layout has_value_def)
  have zeros: "frame_layout default_frame ! 6 = 0" "frame_layout default_frame ! 20 = 0"
    by (simp_all add: frame_layout_def covered_layout_def default_frame_def default_header_def
        default_sample_def be_encode_def upt_rec)
  have "difference (frame_layout default_frame) ((frame_layout default_frame)[6 := 128, 20 := 3])
      = replicate 6 0 @ 128 # replicate 13 0 @ 3 # replicate 13 0"
    using zeros by (intro nth_equalityI)
      (auto simp: difference_def nth_list_update nth_append nth_Cons split: nat.split)
  moreover have "weight (xs @ ys) = weight xs + weight ys" "weight (replicate n 0) = 0" for xs ys n
    by (simp_all add: weight_def sum_list_replicate)
  moreover have "weight (128 # xs) = 1 + weight xs" "weight (3 # xs) = 2 + weight xs" for xs
    by (simp_all add: weight_def upt_rec bit_numeral_rec)
  ultimately have "bit_distance (frame_layout default_frame) ((frame_layout default_frame)[6 := 128, 20 := 3]) = 3"
    by (simp add: bit_distance_def)
  then show ?thesis
    using few_bit_errors_rejected [OF valid, of "(frame_layout default_frame)[6 := 128, 20 := 3]"] by simp
qed

end
