(* ===== verification/Noisy_Link.thy ===== *)
theory Noisy_Link
  imports Transcript Host_Accounting Bit_Errors "HOL-Library.Sublist"
begin

text \<open>
  The two programs with an imperfect link between them. A frame on its way from the firmware's
  console to the host arrives intact, is lost, or arrives damaged: with one to three flipped bits,
  with a burst inside four consecutive bytes, or with the wrong length. The host then accepts exactly
  the intact frames, and its sequence statistics count what is missing between the first and the
  last of them.
\<close>

subsection \<open>The link\<close>

definition burst :: "bytes \<Rightarrow> bytes \<Rightarrow> bool" where
  "burst f g \<longleftrightarrow> f \<noteq> g \<and> (\<exists>start. (\<forall>i < length f. i < start \<or> start + 4 \<le> i \<longrightarrow> f ! i = g ! i)
     \<and> (start + 4 \<le> crc_offset \<or> crc_offset \<le> start))"

definition damaged :: "bytes \<Rightarrow> bytes \<Rightarrow> bool" where
  "damaged f g \<longleftrightarrow> length g \<noteq> frame_size
     \<or> (length g = length f \<and> (bit_distance f g \<in> {1, 2, 3} \<or> burst f g))"

text \<open>The frames sent, the byte strings received, and the frames that arrived intact.\<close>

inductive noisy :: "bytes list \<Rightarrow> bytes list \<Rightarrow> bytes list \<Rightarrow> bool" where
  finished: "noisy [] [] []"
| arrives: "noisy fs rs ks \<Longrightarrow> noisy (f # fs) (f # rs) (f # ks)"
| lost: "noisy fs rs ks \<Longrightarrow> noisy (f # fs) rs ks"
| arrives_damaged: "damaged f g \<Longrightarrow> noisy fs rs ks \<Longrightarrow> noisy (f # fs) (g # rs) ks"

inductive_simps noisy_simps: "noisy [] rs ks" "noisy (f # fs) rs ks"

lemma damaged_frame_invalid:
  assumes "valid_frame f" and "damaged f g"
  shows "\<not> valid_frame g"
proof (cases "length g = frame_size")
  case True
  with assms(2) have len: "length g = length f" and "bit_distance f g \<in> {1, 2, 3} \<or> burst f g"
    by (auto simp: damaged_def)
  then show ?thesis
  proof (elim disjE)
    assume "bit_distance f g \<in> {1, 2, 3}"
    then have "0 < bit_distance f g" "bit_distance f g \<le> 3" by auto
    with assms(1) len have "drop 30 g \<noteq> be_encode 4 (calculate_crc32 (take 30 g))"
      unfolding valid_frame_def by (intro few_errors_detected)
    then show ?thesis by (simp add: valid_frame_def mismatch_rejected)
  next
    assume "burst f g"
    then show ?thesis
      using corruption_detected [of f g] assms(1) len by (auto simp: burst_def valid_frame_def)
  qed
next
  case False
  then show ?thesis using valid_frame_length by blast
qed

lemma noisy_facts:
  assumes "noisy fs rs ks" and "\<forall>f \<in> set fs. valid_frame f"
  shows "filter valid_frame rs = ks \<and> subseq ks fs \<and> length rs \<le> length fs"
  using assms by induction (auto simp: damaged_frame_invalid)

subsection \<open>The host behind the link\<close>

lemma sensor_sequences: "sequences sensor_frames = [1000..<1008]"
  by (simp add: sequences_def sensor_frames_def deterministic_sample_count_def upt_rec
      sensor_frame_def next_frame_def has_next_iff initial_sequence_def)

lemma subseq_increasing: "subseq xs ys \<Longrightarrow> sorted_wrt (<) ys \<Longrightarrow> sorted_wrt (<) (xs :: nat list)"
  by (induction rule: list_emb.induct) (auto dest: list_emb_set)

lemma host_behind_link:
  assumes "noisy encoded inputs intact"
  shows "filter valid_frame inputs = intact \<and> subseq (map decoded intact) sensor_frames
    \<and> sorted_wrt (<) (sequences (map decoded intact)) \<and> length inputs \<le> 8 \<and> length intact \<le> length inputs"
proof -
  have "\<forall>f \<in> set encoded. valid_frame f"
    using encoded_valid(1) by (simp add: filter_id_conv)
  from noisy_facts [OF assms this] have link: "filter valid_frame inputs = intact"
    "subseq intact encoded" "length inputs \<le> 8" by simp_all
  from subseq_map [OF link(2), of decoded] have sub: "subseq (map decoded intact) sensor_frames"
    by (simp add: encoded_valid)
  then have "subseq (sequences (map decoded intact)) [1000..<1008]"
    unfolding sensor_sequences [symmetric] by (simp only: sequences_def subseq_map)
  then have "sorted_wrt (<) (sequences (map decoded intact))"
    by (rule subseq_increasing) simp
  moreover have "length intact \<le> length inputs" using link(1) length_filter_le by metis
  ultimately show ?thesis using link sub by simp
qed

lemma intact_summary:
  assumes "noisy encoded inputs intact"
  defines "m \<equiv> final_metrics inputs" and "ns \<equiv> sequences (map decoded intact)"
  shows "unat (inputs_received' m) = length inputs" "unat (frames_accepted' m) = length intact"
    "unat (frames_rejected' m) = length inputs - length intact" "unat (frames_processed' m) = length intact"
    "duplicate_sequences' m = 0" "out_of_order_sequences' m = 0"
    "intact \<noteq> [] \<Longrightarrow> map_option unat (first_sequence' m) = Some (hd ns)
      \<and> map_option unat (last_sequence' m) = Some (last ns)
      \<and> unat (missing_sequences' m) = last ns + 1 - hd ns - length ns"
proof -
  note link = host_behind_link [OF assms(1)]
  have counts: "inputs_with PE_none inputs = length intact"
    using link valid_inputs_with [of inputs] by simp
  have small: "unat (of_nat n :: u64) = n" if "n \<le> 8" for n
    using that by (simp add: unsigned_of_nat take_bit_nat_eq_self)
  from final_ingest_counters [of inputs]
  have raw: "inputs_received' m = of_nat (length inputs)" "frames_accepted' m = of_nat (length intact)"
    "frames_rejected' m = of_nat (length inputs - length intact)"
    by (simp_all add: m_def ingest_counters_def counts del: of_nat_diff)
  have "length inputs \<le> 8" "length intact \<le> 8" "length inputs - length intact \<le> 8"
    using link by linarith+
  then show "unat (inputs_received' m) = length inputs"
    "unat (frames_accepted' m) = length intact" "unat (frames_rejected' m) = length inputs - length intact"
    unfolding raw by (simp_all only: small)
  have "length inputs < 2 ^ 32" using link by simp
  from final_summary [OF this] have sm: "summary m = summary_of (map decoded intact)"
    using link by (simp add: m_def)
  then show "unat (frames_processed' m) = length intact" by (simp add: summary_def summary_of_def)
  have inc: "intact \<noteq> [] \<Longrightarrow> peak ns = last ns \<and> duplicates ns = [] \<and> late ns = []"
    using link increasing_sequence [of ns] by (simp add: ns_def sequences_def)
  moreover have "duplicates [] = []" "late [] = []" by (simp_all add: duplicates_def late_def)
  ultimately have "duplicates ns = []" "late ns = []"
    by (cases "intact = []"; simp add: ns_def sequences_def)+
  with sm show "duplicate_sequences' m = 0" "out_of_order_sequences' m = 0"
    by (simp_all add: summary_def summary_of_def ns_def unat_eq_0)
  assume ne: "intact \<noteq> []"
  then have nn: "ns \<noteq> []" by (simp add: ns_def sequences_def)
  from inc [OF ne] have "length ns - 1 = length (advances ns)" using positions_partition [of ns] by simp
  with card_skipped [OF nn] have "card (skipped ns) = last ns + 1 - hd ns - length ns"
    using nn inc [OF ne] hd_le_peak [OF nn] by (cases ns) auto
  with sm ne inc [OF ne] show "map_option unat (first_sequence' m) = Some (hd ns)
      \<and> map_option unat (last_sequence' m) = Some (last ns)
      \<and> unat (missing_sequences' m) = last ns + 1 - hd ns - length ns"
    by (simp add: summary_def summary_of_def unless_empty_def ns_def)
qed

text \<open>The third frame arrives truncated to nothing and the fourth is lost.\<close>

lemma noisy_example: "noisy encoded (take 2 encoded @ [] # drop 4 encoded) (take 2 encoded @ drop 4 encoded)"
proof -
  have all: "noisy fs fs fs" for fs by (induction fs) (auto intro: noisy.intros)
  have "noisy (encoded ! 2 # encoded ! 3 # drop 4 encoded) ([] # drop 4 encoded) (drop 4 encoded)"
    by (rule arrives_damaged [OF _ lost [OF all]]) (simp add: damaged_def frame_size_eq)
  moreover have "noisy rest rs ks \<Longrightarrow> noisy (fs @ rest) (fs @ rs) (fs @ ks)" for fs rest rs ks
    by (induction fs) (auto intro: noisy.intros)
  ultimately have "noisy (take 2 encoded @ encoded ! 2 # encoded ! 3 # drop 4 encoded)
      (take 2 encoded @ [] # drop 4 encoded) (take 2 encoded @ drop 4 encoded)" by blast
  moreover have "take 2 encoded @ encoded ! 2 # encoded ! 3 # drop 4 encoded = encoded"
    by (simp add: Cons_nth_drop_Suc [of 3, simplified] Cons_nth_drop_Suc [of 2, simplified])
  ultimately show ?thesis by simp
qed

end
