(* ===== verification/Test_Suites.thy ===== *)
theory Test_Suites
  imports Host_Ingestor Deserializer
begin

unbundle bit_operations_syntax

text \<open>
  The expectations of the repository's own unit tests, as facts about the model: the protocol suite
  \<^verbatim>\<open>tests/protocol/protocol_tests.cpp\<close>, the metrics suite \<^verbatim>\<open>tests/host/telemetry_metrics_tests.cpp\<close> and
  the ingestor suite \<^verbatim>\<open>tests/host/frame_ingestor_tests.cpp\<close>. Each fact is evaluated on the inputs of the
  tests, so the model gives the answers that the suites require of the code. Cases that are
  instances of a general theorem (the round trips, determinism) are not repeated.
\<close>

subsection \<open>The protocol suite\<close>

definition protocol_make_frame :: TelemetryFrame where
  "protocol_make_frame =
     \<lparr>header = \<lparr>version = v1, message_type = telemetry_sample, payload_size = telemetry_payload_size,
        sequence = 0x12345678, timestamp_microseconds = 0x0102030405060708\<rparr>,
      payload = \<lparr>temperature_millicelsius = 25125, pressure_pascal = 101325, supply_millivolts = 3300,
        status_flags = flag_value sensor_warning OR flag_value watchdog_event\<rparr>\<rparr>"

definition protocol_bytes :: bytes where
  "protocol_bytes =
     [0x54, 0x4C, 0x01, 0x01, 0x00, 0x0C, 0x12, 0x34, 0x56, 0x78,
      0x01, 0x02, 0x03, 0x04, 0x05, 0x06, 0x07, 0x08, 0x00, 0x00, 0x62, 0x25,
      0x00, 0x01, 0x8B, 0xCD, 0x0C, 0xE4, 0x00, 0x09, 0xBB, 0xEA, 0x1E, 0xFD]"

lemmas crc_evaluation = calculate_crc32_def crc_byte_step_unfold crc_bit_step_eq initial_value_def
  final_xor_def polynomial_def

lemma suite_serializes: "serialize protocol_make_frame = protocol_bytes"
  by (simp add: serialize_eq_layout frame_layout_def covered_layout_def protocol_make_frame_def
      protocol_bytes_def be_encode_def upt_rec flag_value.simps crc_evaluation telemetry_payload_size_def)

text \<open>One changed byte at a time: the size, then each check of the decoder in turn.\<close>

lemma suite_rejects_sizes:
  "error (deserialize []) = PE_invalid_frame_size" "\<not> has_value (deserialize [])"
  "error (deserialize (take 33 protocol_bytes)) = PE_invalid_frame_size"
  "error (deserialize (replicate 35 0)) = PE_invalid_frame_size"
  by (simp_all add: deserialize_wrong_size failure_def has_value_def protocol_bytes_def)

lemma suite_rejects_header:
  "error (deserialize (protocol_bytes[0 := protocol_bytes ! 0 XOR 1])) = PE_invalid_magic"
  "error (deserialize (protocol_bytes[version_offset := 2])) = PE_unsupported_version"
  "error (deserialize (protocol_bytes[message_type_offset := 2])) = PE_unsupported_message_type"
  "error (deserialize (protocol_bytes[payload_size_offset + 1 := 0x0B])) = PE_invalid_payload_size"
  by (simp_all add: deserialize_error_spec spec_error_def spec_checks_def protocol_bytes_def layout_defs
      be_encode_def upt_rec)

lemma suite_detects_corruption:
  "error (deserialize (protocol_bytes[sequence_offset := protocol_bytes ! sequence_offset XOR 1])) = PE_checksum_mismatch"
  "error (deserialize (protocol_bytes[pressure_offset := protocol_bytes ! pressure_offset XOR 1])) = PE_checksum_mismatch"
  "error (deserialize (protocol_bytes[crc_offset + crc_size - 1 := protocol_bytes ! (crc_offset + crc_size - 1) XOR 1]))
    = PE_checksum_mismatch"
  by (simp_all add: deserialize_error_spec spec_error_def spec_checks_def protocol_bytes_def layout_defs
      be_encode_def upt_rec crc_evaluation crc_size_def)

lemma suite_parses:
  "deserialize protocol_bytes = \<lparr>frame = Some protocol_make_frame, error = PE_none\<rparr>"
  using deserialize_layout [of protocol_make_frame] suite_serializes
  by (simp add: serialize_eq_layout protocol_make_frame_def telemetry_payload_size_def)

subsection \<open>The metrics suite\<close>

definition metrics_make_frame :: "u32 \<Rightarrow> i32 \<Rightarrow> u16 \<Rightarrow> u16 \<Rightarrow> TelemetryFrame" where
  "metrics_make_frame n temperature supply flags =
     \<lparr>header = \<lparr>version = v1, message_type = telemetry_sample, payload_size = telemetry_payload_size,
        sequence = n, timestamp_microseconds = ucast n\<rparr>,
      payload = \<lparr>temperature_millicelsius = temperature, pressure_pascal = 100000,
        supply_millivolts = supply, status_flags = flags\<rparr>\<rparr>"

text \<open>The snapshot after processing frames with the given sequence numbers, temperatures, supplies
  and flags.\<close>

definition snapshot_after :: "(u32 \<times> i32 \<times> u16 \<times> u16) list \<Rightarrow> TelemetryMetricsSnapshot" where
  "snapshot_after rows =
     snapshot (fold (\<lambda>(n, t, v, fl). record_processed (metrics_make_frame n t v fl)) rows new_metrics)"

lemmas metrics_evaluation = snapshot_after_def metrics_make_frame_def record_processed_def
  record_sequence_def record_flags_eq has_flag_def record_temperature_def record_supply_def
  min_i32_def max_i32_def Let_def new_metrics_def snapshot_def

lemma suite_sequences:
  "first_sequence (snapshot_after [(10, 0, 3300, 0)]) = Some 10"
  "last_sequence (snapshot_after [(10, 0, 3300, 0)]) = Some 10"
  "last_sequence (snapshot_after [(10, 0, 3300, 0), (11, 0, 3300, 0)]) = Some 11"
  "missing_sequences (snapshot_after [(10, 0, 3300, 0), (15, 0, 3300, 0)]) = 4"
  "duplicate_sequences (snapshot_after [(10, 0, 3300, 0), (10, 0, 3300, 0)]) = 1"
  "out_of_order_sequences (snapshot_after [(10, 0, 3300, 0), (12, 0, 3300, 0), (11, 0, 3300, 0)]) = 1"
  "last_sequence (snapshot_after [(10, 0, 3300, 0), (12, 0, 3300, 0), (11, 0, 3300, 0)]) = Some 12"
  by (simp_all add: metrics_evaluation)

lemma suite_flags:
  "sensor_warnings (snapshot_after [(1, 0, 3300, flag_value sensor_warning)]) = 1"
  "voltage_warnings (snapshot_after [(1, 0, 3300, flag_value voltage_warning)]) = 1"
  "communication_warnings (snapshot_after [(1, 0, 3300, flag_value communication_warning)]) = 1"
  "watchdog_events (snapshot_after [(1, 0, 3300, flag_value watchdog_event)]) = 1"
  by (simp_all add: metrics_evaluation)

lemma suite_all_flags:
  fixes all :: u16
  defines "all \<equiv> flag_value sensor_warning OR flag_value voltage_warning
    OR flag_value communication_warning OR flag_value watchdog_event"
  shows "sensor_warnings (snapshot_after [(1, 0, 3300, all)]) = 1"
    "voltage_warnings (snapshot_after [(1, 0, 3300, all)]) = 1"
    "communication_warnings (snapshot_after [(1, 0, 3300, all)]) = 1"
    "watchdog_events (snapshot_after [(1, 0, 3300, all)]) = 1"
  by (simp_all add: metrics_evaluation all_def)

lemma suite_statistics:
  "minimum_temperature_millicelsius (snapshot_after [(1, 1000, 3300, 0), (2, - 2000, 3300, 0)]) = Some (- 2000)"
  "maximum_temperature_millicelsius (snapshot_after [(1, 1000, 3300, 0), (2, 2000, 3300, 0)]) = Some 2000"
  "temperature_sum_millicelsius (snapshot_after [(1, 1000, 3300, 0), (2, 2000, 3300, 0)]) = 3000"
  "temperature_sum_millicelsius (snapshot_after [(1, - 40000, 3300, 0)]) = - 40000"
  "minimum_supply_millivolts (snapshot_after [(1, 0, 3300, 0), (2, 0, 2900, 0)]) = Some 2900"
  "maximum_supply_millivolts (snapshot_after [(1, 0, 3300, 0), (2, 0, 3600, 0)]) = Some 3600"
  "supply_sum_millivolts (snapshot_after [(1, 0, 3000, 0), (2, 0, 4000, 0)]) = 7000"
  "frames_processed (snapshot_after [(1, 0, 3300, 0), (2, 0, 3300, 0)]) = 2"
  by (simp_all add: metrics_evaluation)

lemma suite_wide_accumulators:
  "temperature_sum_millicelsius (snapshot_after [(1, 0x7FFFFFFF, 0xFFFF, 0), (2, 0x7FFFFFFF, 0xFFFF, 0)]) = 4294967294"
  "supply_sum_millivolts (snapshot_after [(1, 0x7FFFFFFF, 0xFFFF, 0), (2, 0x7FFFFFFF, 0xFFFF, 0)]) = 131070"
  by (simp_all add: metrics_evaluation)

subsection \<open>The ingestor suite\<close>

definition ingestor_valid_bytes :: bytes where
  "ingestor_valid_bytes = serialize
     \<lparr>header = \<lparr>version = v1, message_type = telemetry_sample, payload_size = telemetry_payload_size,
        sequence = 7, timestamp_microseconds = 42\<rparr>,
      payload = \<lparr>temperature_millicelsius = - 1000, pressure_pascal = 100000, supply_millivolts = 3300,
        status_flags = 0\<rparr>\<rparr>"

lemma suite_valid_bytes: "valid_frame ingestor_valid_bytes"
  by (simp add: ingestor_valid_bytes_def serialize_eq_layout valid_frame_def has_value_def deserialize_layout)

text \<open>The buffer of the tests has room for two elements.\<close>

lemma suite_ingests:
  "ingest (list_buffer_ops 2) ingestor_valid_bytes empty_list_buffer m
    = Some (Returns \<lparr>status = accepted, parse_error = PE_none\<rparr>,
        empty_list_buffer\<lparr>stored := [ingestor_valid_bytes]\<rparr>, record_accepted (record_input m))"
  "ingest (list_buffer_ops 2) ingestor_valid_bytes (empty_list_buffer\<lparr>is_closed := True\<rparr>) m
    = Some (Returns \<lparr>status = queue_closed, parse_error = PE_none\<rparr>,
        empty_list_buffer\<lparr>is_closed := True\<rparr>, record_queue_closed (record_input m))"
  using suite_valid_bytes
  by (simp_all add: ingest_def ingest_parse_cases ingest_finish_def list_buffer_ops_def empty_list_buffer_def
      to_queued_bytes_def Let_def)

lemma suite_rejects_truncated:
  "ingest ops (butlast ingestor_valid_bytes) b m
    = Some (Returns \<lparr>status = parse_rejected, parse_error = PE_invalid_frame_size\<rparr>, b,
        record_parse_rejected PE_invalid_frame_size (record_input m))"
proof -
  have "length (butlast ingestor_valid_bytes) \<noteq> 34"
    using valid_frame_length [OF suite_valid_bytes] by (simp add: frame_size_eq)
  then have e: "error (deserialize (butlast ingestor_valid_bytes)) = PE_invalid_frame_size"
    by (simp add: deserialize_wrong_size failure_def)
  then have "\<not> valid_frame (butlast ingestor_valid_bytes)" by (simp add: valid_frame_error)
  with e show ?thesis by (simp add: ingest_rejects input_events_def)
qed

end
