(* ===== verification/Pipeline_Spec.thy ===== *)
theory Pipeline_Spec
  imports Step_System
begin

text \<open>
  What the two multithreaded programs promise, as one abstract machine: a pipeline with a bounded
  number of elements between its ends. Its state is what still waits to enter, what is travelling and
  what has been delivered, in order. An element that is not accepted is dropped at the entrance.
  The machine is a \<open>step_system\<close>; a program implements it when each of its steps is a step of the
  machine or leaves the machine's state alone.
\<close>

subsection \<open>The machine\<close>

record ('i, 'a) pipeline =
  waiting :: "'i list"
  travelling :: "'a list"
  delivered :: "'a list"

definition new_pipeline :: "'i list \<Rightarrow> ('i, 'a) pipeline" where
  "new_pipeline inputs = \<lparr>waiting = inputs, travelling = [], delivered = []\<rparr>"

inductive pipeline_step ::
    "('i \<Rightarrow> 'a option) \<Rightarrow> nat \<Rightarrow> ('i, 'a) pipeline \<Rightarrow> ('i, 'a) pipeline \<Rightarrow> bool" for accept room where
  refuse: "waiting p = x # xs \<Longrightarrow> accept x = None \<Longrightarrow> pipeline_step accept room p (p\<lparr>waiting := xs\<rparr>)"
| enter: "waiting p = x # xs \<Longrightarrow> accept x = Some y \<Longrightarrow> length (travelling p) < room \<Longrightarrow>
    pipeline_step accept room p (p\<lparr>waiting := xs, travelling := travelling p @ [y]\<rparr>)"
| deliver: "travelling p = y # ys \<Longrightarrow>
    pipeline_step accept room p (p\<lparr>travelling := ys, delivered := delivered p @ [y]\<rparr>)"

inductive_cases pipeline_stepE: "pipeline_step accept room p q"

definition admitted :: "('i \<Rightarrow> 'a option) \<Rightarrow> 'i list \<Rightarrow> 'a list" where
  "admitted accept xs = List.map_filter accept xs"

lemma accepted_simps [simp]:
  "admitted accept [] = []"
  "admitted accept (x # xs) = (case accept x of None \<Rightarrow> admitted accept xs | Some y \<Rightarrow> y # admitted accept xs)"
  by (simp_all add: admitted_def map_filter_simps cong: option.case_cong)

locale pipeline_spec =
  fixes accept :: "'i \<Rightarrow> 'a option" and room :: nat and inputs :: "'i list"
  assumes some_room: "0 < room"
begin

abbreviation pipe_step :: "('i, 'a) pipeline \<Rightarrow> ('i, 'a) pipeline \<Rightarrow> bool" where
  "pipe_step \<equiv> pipeline_step accept room"

text \<open>Nothing accepted is lost, repeated or reordered.\<close>

definition pipe_inv :: "('i, 'a) pipeline \<Rightarrow> bool" where
  "pipe_inv p \<longleftrightarrow> delivered p @ travelling p @ admitted accept (waiting p) = admitted accept inputs
     \<and> length (travelling p) \<le> room"

definition pipe_bound :: "('i, 'a) pipeline \<Rightarrow> nat" where
  "pipe_bound p = 2 * length (waiting p) + length (travelling p)"

lemma pipe_inv_step: "pipe_inv p \<Longrightarrow> pipe_step p q \<Longrightarrow> pipe_inv q"
  by (erule pipeline_stepE) (auto simp: pipe_inv_def)

lemma pipe_decrease: "pipe_step p q \<Longrightarrow> pipe_bound q < pipe_bound p"
  by (erule pipeline_stepE) (auto simp: pipe_bound_def)

lemma pipe_progress: "\<not> (waiting p = [] \<and> travelling p = []) \<Longrightarrow> \<exists>q. pipe_step p q"
proof (cases "travelling p")
  case Nil
  assume "\<not> (waiting p = [] \<and> travelling p = [])"
  with Nil obtain x xs where x: "waiting p = x # xs" by (auto simp: neq_Nil_conv)
  show ?thesis
  proof (cases "accept x")
    case None
    with x show ?thesis by (blast intro: pipeline_step.refuse)
  next
    case (Some y)
    moreover have "length (travelling p) < room" using Nil some_room by simp
    ultimately show ?thesis using x by (blast intro: pipeline_step.enter)
  qed
next
  case (Cons y ys)
  then show ?thesis by (blast intro: pipeline_step.deliver)
qed

lemma pipe_inv_new: "pipe_inv (new_pipeline inputs)"
  by (simp add: pipe_inv_def new_pipeline_def)

end

sublocale pipeline_spec \<subseteq> pipe: step_system pipe_step "new_pipeline inputs" pipe_inv pipe_bound
    "\<lambda>p. waiting p = [] \<and> travelling p = []"
  by unfold_locales (rule pipe_inv_new, erule (1) pipe_inv_step, rule pipe_decrease, assumption, erule pipe_progress)

subsection \<open>Implementations\<close>

locale pipeline_implementation = pipeline_spec accept room inputs +
    step_system step start inv bound final
  for accept :: "'i \<Rightarrow> 'a option" and room inputs
    and step :: "'s \<Rightarrow> 's \<Rightarrow> bool" and start inv bound final +
  fixes matches :: "'s \<Rightarrow> ('i, 'a) pipeline \<Rightarrow> bool"
  assumes match_start: "matches start (new_pipeline inputs)"
    and match_step: "inv s \<Longrightarrow> matches s p \<Longrightarrow> step s t \<Longrightarrow>
      \<exists>q. matches t q \<and> (q = p \<or> pipeline_step accept room p q)"
    and match_final: "inv s \<Longrightarrow> matches s p \<Longrightarrow> final s \<Longrightarrow> waiting p = [] \<and> travelling p = []"
begin

lemma match_steps:
  assumes "step\<^sup>*\<^sup>* s t" and "inv s" and "matches s p"
  shows "\<exists>q. matches t q \<and> pipe_step\<^sup>*\<^sup>* p q"
  using assms(1)
proof (induction rule: rtranclp_induct)
  case base
  with assms(3) show ?case by blast
next
  case (step t u)
  then obtain q where q: "matches t q" "pipe_step\<^sup>*\<^sup>* p q" by blast
  have "inv t" using inv_steps [OF step(1) assms(2)] .
  from match_step [OF this q(1) step(2)] obtain r where "matches u r" "r = q \<or> pipe_step q r" by blast
  with q(2) show ?case by (auto intro: rtranclp.rtrancl_into_rtrancl)
qed

lemma reachable_matches:
  assumes "step\<^sup>*\<^sup>* start s" and "step\<^sup>*\<^sup>* s t"
  shows "\<exists>p q. matches s p \<and> matches t q \<and> pipe_step\<^sup>*\<^sup>* (new_pipeline inputs) p \<and> pipe_step\<^sup>*\<^sup>* p q"
  using match_steps [OF assms(1) inv_start match_start] match_steps [OF assms(2) reachable_inv [OF assms(1)]]
  by blast

lemma final_matches:
  assumes "step\<^sup>*\<^sup>* start s" and "final s" and "matches s p" and "pipe_step\<^sup>*\<^sup>* (new_pipeline inputs) p"
  shows "p = \<lparr>waiting = [], travelling = [], delivered = admitted accept inputs\<rparr>"
  using match_final [OF reachable_inv [OF assms(1)] assms(3,2)] pipe.reachable_inv [OF assms(4)]
  by (simp add: pipe_inv_def)

end

end
