(* ===== verification/Host_Pipeline.thy ===== *)
theory Host_Pipeline
  imports Pipeline_Spec Host_Main
begin

text \<open>
  The host program implements the abstract pipeline: the inputs wait, the decoded frames travel
  through the queue and the hands of the consumer thread, and a frame is delivered when the metrics
  have recorded it. The abstract machine drops what the decoder rejects and holds at most one frame
  more than the queue.
\<close>

subsection \<open>The state of the pipeline in a state of the program\<close>

definition unread :: "'b host_state \<Rightarrow> bytes list" where
  "unread s = (case main_at s of
      M_input bs \<Rightarrow> bs # frames_left s
    | M_parse bs \<Rightarrow> bs # frames_left s
    | M_push bs \<Rightarrow> bs # frames_left s
    | _ \<Rightarrow> frames_left s)"

lemma unread_frame [simp]:
  "unread (s\<lparr>the_buffer := b\<rparr>) = unread s" "unread (s\<lparr>consumer_at := c\<rparr>) = unread s"
  "unread (s\<lparr>the_metrics := m\<rparr>) = unread s"
  by (simp_all add: unread_def split: main_pc.split)

fun in_hand :: "consumer_pc \<Rightarrow> TelemetryFrame list" where
  "in_hand (C_popped (Some q) _) = [decoded q]"
| "in_hand (C_process f _) = [f]"
| "in_hand _ = []"

definition host_shows ::
    "('b \<Rightarrow> bytes list) \<Rightarrow> 'b host_state \<Rightarrow> (bytes, TelemetryFrame) pipeline \<Rightarrow> bool" where
  "host_shows items s p \<longleftrightarrow> waiting p = unread s
     \<and> travelling p = in_hand (consumer_at s) @ map decoded (items (the_buffer s))
     \<and> (\<exists>E. the_metrics s = fold record_processed (delivered p) (fold record_ingest E new_metrics))"

abbreviation accept_frame :: "bytes \<Rightarrow> TelemetryFrame option" where
  "accept_frame bs \<equiv> frame (deserialize bs)"

lemma accept_frame_eq: "accept_frame bs = (if valid_frame bs then Some (decoded bs) else None)"
  by (auto simp: valid_frame_def has_value_def decoded_def split: option.splits)

lemma admitted_frames: "admitted accept_frame inputs = map decoded (filter valid_frame inputs)"
  by (induction inputs) (simp_all add: accept_frame_eq)

lemma shows_same:
  assumes "host_shows items s p" and "unread t = unread s"
    and "in_hand (consumer_at t) @ map decoded (items (the_buffer t))
      = in_hand (consumer_at s) @ map decoded (items (the_buffer s))"
    and "the_metrics t = the_metrics s"
  shows "host_shows items t p"
  using assms by (simp add: host_shows_def)

lemma shows_recorded:
  assumes "host_shows items s p"
  shows "host_shows items (s\<lparr>the_metrics := record_ingest e (the_metrics s)\<rparr>) p"
proof -
  obtain E where "the_metrics s = fold record_processed (delivered p) (fold record_ingest E new_metrics)"
    using assms by (auto simp: host_shows_def)
  then have "record_ingest e (the_metrics s)
      = fold record_processed (delivered p) (fold record_ingest (E @ [e]) new_metrics)"
    by (simp add: host_metrics.left_after_rights)
  then have "\<exists>E. record_ingest e (the_metrics s)
      = fold record_processed (delivered p) (fold record_ingest E new_metrics)" by (rule exI)
  then show ?thesis using assms by (simp add: host_shows_def)
qed

lemmas shows_calls = shows_recorded [of _ _ _ Ev_input, simplified]
  shows_recorded [of _ _ _ Ev_accepted, simplified] shows_recorded [of _ _ _ "Ev_rejected e" for e, simplified]

subsection \<open>Every step is a step of the pipeline or none\<close>

context host_run
begin

abbreviation pipe :: "(bytes, TelemetryFrame) pipeline \<Rightarrow> (bytes, TelemetryFrame) pipeline \<Rightarrow> bool" where
  "pipe \<equiv> pipeline_step accept_frame (capacity + 1)"

lemma parse_matches:
  assumes at: "main_at s = M_parse bs" and match: "host_shows items s p" and "main_step ops s = Some t"
  shows "\<exists>q. host_shows items t q \<and> (q = p \<or> pipe p q)"
proof (cases "valid_frame bs")
  case True
  with assms(3) at have "t = s\<lparr>main_at := M_push bs\<rparr>" by (simp add: main_step_def ingest_parse_cases)
  with at have "host_shows items t p" by (intro shows_same [OF match]) (simp_all add: unread_def)
  then show ?thesis by blast
next
  case False
  let ?q = "p\<lparr>waiting := frames_left s\<rparr>"
  have "waiting p = bs # frames_left s" using match at by (simp add: host_shows_def unread_def)
  moreover have "accept_frame bs = None" using False by (simp add: accept_frame_eq)
  ultimately have "pipe p ?q" by (rule pipeline_step.refuse)
  moreover have "host_shows items t ?q"
    using shows_calls(3) [OF match, of "error (deserialize bs)"] False assms(3) at
    by (auto simp: main_step_def ingest_parse_cases host_shows_def unread_def)
  ultimately show ?thesis by blast
qed

lemma in_hand_one: "length (in_hand pc) \<le> 1"
  by (cases pc rule: in_hand.cases) simp_all

lemma push_matches:
  assumes at: "main_at s = M_push bs" and valid_bs: "valid_frame bs" and match: "host_shows items s p"
    and v: "valid (the_buffer s)" "\<not> closed (the_buffer s)" and step: "main_step ops s = Some t"
  shows "\<exists>q. host_shows items t q \<and> (q = p \<or> pipe p q)"
  using v(1) refl
proof (cases rule: push_cases [of _ bs])
  case waits
  with step at show ?thesis by (simp add: main_step_def)
next
  case (stored b')
  let ?q = "p\<lparr>waiting := frames_left s, travelling := travelling p @ [decoded bs]\<rparr>"
  have "buffer_send ops bs (the_buffer s) = Some b'" using stored by (simp add: buffer_send_def)
  with v have "length (items (the_buffer s)) < capacity" using open_buffer.send_SomeD by blast
  then have "length (travelling p) < capacity + 1"
    using match in_hand_one [of "consumer_at s"] by (simp add: host_shows_def)
  moreover have "waiting p = bs # frames_left s" using match at by (simp add: host_shows_def unread_def)
  moreover have "accept_frame bs = Some (decoded bs)" using valid_bs by (simp add: accept_frame_eq)
  ultimately have "pipe p ?q" by (blast intro: pipeline_step.enter)
  moreover have "host_shows items t ?q"
    using stored step at match by (auto simp: main_step_def host_shows_def unread_def)
  ultimately show ?thesis by blast
next
  case (refused b')
  with v show ?thesis by simp
qed

lemma main_matches:
  assumes inv: "host_inv s" and match: "host_shows items s p" and step: "main_step ops s = Some t"
  shows "\<exists>q. host_shows items t q \<and> (q = p \<or> pipe p q)"
proof -
  from inv obtain E pr Q where
    mv: "main_view inputs (main_at s) (frames_left s) E (pr @ Q) (closed (the_buffer s))" and
    v: "valid (the_buffer s)" unfolding host_inv_def host_at_def by blast
  have same: ?thesis if "host_shows items t p" using that by blast
  note moves = shows_same [OF match] same
  from mv show ?thesis
  proof (cases rule: main_view.cases)
    case (at_input d bs)
    with step show ?thesis
      by (intro shows_same [OF shows_calls(1) [OF match]] same) (auto simp: main_step_def unread_def)
  next
    case (at_parse d bs)
    with match step show ?thesis by (intro parse_matches) simp_all
  next
    case (at_push d bs)
    with match step v show ?thesis by (intro push_matches) simp_all
  next
    case (at_pushed d bs)
    with step show ?thesis
      by (intro shows_same [OF shows_calls(2) [OF match]] same)
        (auto simp: main_step_def unread_def ingest_finish_def)
  next
    case at_close
    with step close_closes [OF v] show ?thesis
      by (intro moves) (auto simp: main_step_def unread_def)
  next
    case at_join
    with step show ?thesis
      by (intro moves) (auto simp: main_step_def unread_def finish_main_def Let_def split: consumer_pc.splits)
  qed (use step in \<open>(intro moves; auto simp: main_step_def unread_def split: list.splits)+\<close>)
qed

lemma consumer_matches:
  assumes inv: "host_inv s" and match: "host_shows items s p" and step: "consumer_step ops s = Some t"
  shows "\<exists>q. host_shows items t q \<and> (q = p \<or> pipe p q)"
proof -
  from inv obtain E pr Q where
    mv: "main_view inputs (main_at s) (frames_left s) E (pr @ Q) (closed (the_buffer s))" and
    cv: "consumer_view (consumer_at s) pr Q (items (the_buffer s)) (closed (the_buffer s))" and
    v: "valid (the_buffer s)" unfolding host_inv_def host_at_def by blast
  have same: ?thesis if "host_shows items t p" using that by blast
  note moves = shows_same [OF match] same
  from cv show ?thesis
  proof (cases rule: consumer_view.cases)
    case at_pop
    show ?thesis
      using v refl
    proof (cases rule: pop_cases)
      case waits
      with step at_pop show ?thesis by (simp add: consumer_step_def)
    qed (use step at_pop in \<open>intro moves; auto simp: consumer_step_def\<close>)+
  next
    case (at_popped q)
    moreover have "valid_frame q" using main_view_valid [OF mv] at_popped by simp
    ultimately show ?thesis
      using step by (intro moves) (auto simp: consumer_step_def)
  next
    case (at_process q)
    let ?q = "p\<lparr>travelling := map decoded (items (the_buffer s)), delivered := delivered p @ [decoded q]\<rparr>"
    have "travelling p = decoded q # map decoded (items (the_buffer s))"
      using match at_process by (simp add: host_shows_def)
    then have "pipe p ?q" by (rule pipeline_step.deliver)
    moreover have "host_shows items t ?q"
      using match step at_process
      by (auto simp: consumer_step_def host_shows_def process_def)
    ultimately show ?thesis by blast
  qed (use step in \<open>(intro moves; auto simp: consumer_step_def)+\<close>)
qed

lemma start_matches: "host_shows items (host_start b0 inputs) (new_pipeline inputs)"
  using initial by (auto simp: host_shows_def host_start_def new_pipeline_def unread_def intro: exI [of _ "[]"])

lemma exit_matches:
  assumes "host_inv s" and "host_shows items s p" and "\<exists>c. main_at s = M_exit c"
  shows "waiting p = [] \<and> travelling p = []"
proof -
  from assms(3) obtain c where c: "main_at s = M_exit c" by blast
  from assms(1) c have "frames_left s = []" by (auto simp: host_inv_def host_at_def elim: main_view_cases)
  moreover from assms(1) c obtain r where "consumer_at s = C_done r"
    by (auto simp: host_inv_def host_at_def output_ok_def)
  ultimately show ?thesis
    using assms(2) exit_state [OF assms(1) c] c by (simp add: host_shows_def unread_def)
qed

end

sublocale host_run \<subseteq> pipeline: pipeline_implementation accept_frame "capacity + 1" inputs
    "host_step ops" "host_start b0 inputs" host_inv host_bound "\<lambda>s. \<exists>c. main_at s = M_exit c" "host_shows items"
proof unfold_locales
  show "\<exists>q. host_shows items t q \<and> (q = p \<or> pipe p q)"
    if "host_inv s" "host_shows items s p" "host_step ops s t" for s p t
    using that main_matches consumer_matches by (auto simp: host_step_iff)
qed (use start_matches exit_matches in auto)

context host_run
begin

lemma reachable_implements:
  assumes "(host_step ops)\<^sup>*\<^sup>* (host_start b0 inputs) s" and "(host_step ops)\<^sup>*\<^sup>* s t"
  shows "\<exists>p q. host_shows items s p \<and> host_shows items t q \<and> pipe\<^sup>*\<^sup>* (new_pipeline inputs) p \<and> pipe\<^sup>*\<^sup>* p q
    \<and> (main_at t = M_exit c \<longrightarrow>
        q = \<lparr>waiting = [], travelling = [], delivered = map decoded (filter valid_frame inputs)\<rparr>)"
proof -
  from pipeline.reachable_matches [OF assms] obtain p q where pq: "host_shows items s p" "host_shows items t q"
    "pipe\<^sup>*\<^sup>* (new_pipeline inputs) p" "pipe\<^sup>*\<^sup>* p q" by blast
  then have "pipe\<^sup>*\<^sup>* (new_pipeline inputs) q" "(host_step ops)\<^sup>*\<^sup>* (host_start b0 inputs) t"
    using assms by auto
  with pq pipeline.final_matches [of t q] show ?thesis by (auto simp: admitted_frames)
qed

end

subsection \<open>Properties\<close>

text \<open>C7: the host program implements the bounded pipeline: between any two states of any run the
  abstract machine makes the same progress, where the inputs not yet judged wait, the frames in the
  queue and in the consumer's hands travel (never more than the capacity and one) and the frames the
  metrics have processed are delivered; at the exit every valid frame has been delivered, once and in
  input order.\<close>

theorem host_implements_pipeline:
  assumes "safe_buffer ops items closed capacity valid" and "valid b0" and "\<not> closed b0"
    and "items b0 = []" and "(host_step ops)\<^sup>*\<^sup>* (host_start b0 inputs) s" and "(host_step ops)\<^sup>*\<^sup>* s t"
  shows "\<exists>p q. host_shows items s p \<and> host_shows items t q
    \<and> (pipeline_step (\<lambda>bs. frame (deserialize bs)) (capacity + 1))\<^sup>*\<^sup>* (new_pipeline inputs) p
    \<and> (pipeline_step (\<lambda>bs. frame (deserialize bs)) (capacity + 1))\<^sup>*\<^sup>* p q
    \<and> (main_at t = M_exit c \<longrightarrow>
        q = \<lparr>waiting = [], travelling = [], delivered = map decoded (filter valid_frame inputs)\<rparr>)"
proof -
  note run = host_runI [OF assms(1-4)]
  from host_run.reachable_implements [OF run assms(5,6)] show ?thesis by blast
qed

theorem host_implements_pipeline_witness:
  "\<exists>t p q. (host_step (list_buffer_ops queue_capacity))\<^sup>*\<^sup>* (host_start empty_list_buffer [[1], frame_layout default_frame]) t
    \<and> main_at t = M_exit 0 \<and> host_shows stored (host_start empty_list_buffer [[1], frame_layout default_frame]) p
    \<and> host_shows stored t q
    \<and> (pipeline_step (\<lambda>bs. frame (deserialize bs)) (queue_capacity + 1))\<^sup>*\<^sup>* p q
    \<and> q = \<lparr>waiting = [], travelling = [], delivered = map decoded (filter valid_frame [[1], frame_layout default_frame])\<rparr>"
proof -
  obtain t where t: "(host_step (list_buffer_ops queue_capacity))\<^sup>*\<^sup>* (host_start empty_list_buffer [[1], frame_layout default_frame]) t"
    "main_at t = M_exit 0"
    using demo_run.every_run_is_short [of 0 "[[1], frame_layout default_frame]"] by auto
  have "safe_buffer (list_buffer_ops queue_capacity) stored is_closed queue_capacity (\<lambda>_. True)"
    by (rule list_buffer_meets_contract) (simp add: queue_capacity_def)
  moreover have "\<not> is_closed empty_list_buffer" "stored empty_list_buffer = []"
    by (simp_all add: empty_list_buffer_def)
  ultimately show ?thesis
    using host_implements_pipeline [OF _ TrueI _ _ rtranclp.rtrancl_refl t(1), of stored is_closed queue_capacity 0] t
    by blast
qed

end
