(* ===== verification/Firmware_Pipeline.thy ===== *)
theory Firmware_Pipeline
  imports Pipeline_Spec Firmware_Outcome
begin

text \<open>
  The firmware implements the same abstract pipeline as the host: the frames of the sensor that are
  not yet pushed wait, those in the message queue and in the transmitter's hands travel, and a frame is
  delivered when its line is on the console. The end marker is no element of the pipeline. At most one
  frame more than the queue holds is on its way.
\<close>

subsection \<open>The state of the pipeline in a state of the firmware\<close>

fun in_production :: "producer_pc \<Rightarrow> bytes list" where
  "in_production (P_sampled f) = [serialize f]"
| "in_production (P_serialize f) = [serialize f]"
| "in_production (P_serialized bs) = [bs]"
| "in_production (P_push bs) = [bs]"
| "in_production _ = []"

definition unsent :: "('q, 's) firmware_state \<Rightarrow> bytes list" where
  "unsent s = in_production (producer_at s) @ map serialize (drain (fw_sensor s))"

definition frames_of_signals :: "bytes option list \<Rightarrow> bytes list" where
  "frames_of_signals xs = List.map_filter (\<lambda>x. x) xs"

fun on_hand :: "transmitter_pc \<Rightarrow> bytes list" where
  "on_hand (T_popped ok item _) = frames_of_signals [signal_of item]"
| "on_hand (T_print bs _) = [bs]"
| "on_hand _ = []"

text \<open>The transmission index counts the printed lines.\<close>

fun line_count :: "transmitter_pc \<Rightarrow> nat \<Rightarrow> bool" where
  "line_count (T_pop i) n \<longleftrightarrow> i = of_nat n"
| "line_count (T_popped _ _ i) n \<longleftrightarrow> i = of_nat n"
| "line_count (T_print _ i) n \<longleftrightarrow> i = of_nat n + 1"
| "line_count (T_printed i) n \<longleftrightarrow> i = of_nat n"
| "line_count _ _ \<longleftrightarrow> True"

definition firmware_shows ::
    "('q \<Rightarrow> TelemetryQueueItem list) \<Rightarrow> ('q, 's) firmware_state \<Rightarrow> (bytes, bytes) pipeline \<Rightarrow> bool" where
  "firmware_shows messages s p \<longleftrightarrow> waiting p = unsent s
     \<and> travelling p = on_hand (transmitter_at s) @ frames_of_signals (map signal_of (messages (fw_queue s)))
     \<and> console s = lines_of (delivered p) @ (case fw_main_at s of F_exit _ \<Rightarrow> final_text | _ \<Rightarrow> [])
     \<and> line_count (transmitter_at s) (length (delivered p))"

lemma frames_of_signals_simps [simp]:
  "frames_of_signals [] = []" "frames_of_signals (Some x # xs) = x # frames_of_signals xs"
  "frames_of_signals (None # xs) = frames_of_signals xs"
  "frames_of_signals (xs @ ys) = frames_of_signals xs @ frames_of_signals ys"
  by (simp_all add: frames_of_signals_def map_filter_def)

lemma length_frames_of_signals: "length (frames_of_signals xs) \<le> length xs"
proof (induction xs)
  case (Cons x xs)
  then show ?case by (cases x) simp_all
qed simp

lemma on_hand_one: "length (on_hand pc) \<le> 1"
  using length_frames_of_signals [of "[x]" for x] by (cases pc rule: on_hand.cases) simp_all

lemma admitted_all: "admitted Some xs = xs"
  by (induction xs) simp_all

context firmware_run
begin

abbreviation pipe :: "(bytes, bytes) pipeline \<Rightarrow> (bytes, bytes) pipeline \<Rightarrow> bool" where
  "pipe \<equiv> pipeline_step Some (telemetry_queue_capacity + 1)"

lemma shows_signals: "firmware_shows messages s p \<longleftrightarrow> waiting p = unsent s
    \<and> travelling p = on_hand (transmitter_at s) @ frames_of_signals (signals (fw_queue s))
    \<and> console s = lines_of (delivered p) @ (case fw_main_at s of F_exit _ \<Rightarrow> final_text | _ \<Rightarrow> [])
    \<and> line_count (transmitter_at s) (length (delivered p))"
  by (simp add: firmware_shows_def signals_def)

lemma drain_next:
  assumes "next_index' m < 8"
  shows "drain m = sensor_frame (next_index' m) # drain (m\<lparr>next_index' := Suc (next_index' m)\<rparr>)"
  using assms by (subst drain.simps) (simp add: has_next_iff next_frame_eq)

lemma producer_matches:
  assumes inv: "firmware_inv s" and match: "firmware_shows messages s p" and step: "producer_step zephyr s = Some t"
  shows "\<exists>q. firmware_shows messages t q \<and> (q = p \<or> pipe p q)"
proof -
  from inv obtain E S rp where pv: "producer_view (producer_at s) (next_index' (fw_sensor s)) E S rp"
    unfolding firmware_inv_def firmware_at_def by blast
  have same: ?thesis if "firmware_shows messages t p" using that by blast
  from pv show ?thesis
  proof (cases rule: producer_view.cases)
    case at_head
    with step match show ?thesis
      by (intro same) (auto simp: producer_step_def shows_signals unsent_def has_next_iff next_frame_eq
          drain_next split: if_splits)
  next
    case (at_push k)
    let ?fr = "serialize (sensor_frame k)"
    from step at_push obtain ok q where q: "push_frame zephyr ?fr (fw_queue s) = Some (ok, q)"
      "t = s\<lparr>fw_queue := q, producer_at := P_pushed ok\<rparr>"
      by (auto simp: producer_step_def split: option.splits)
    then have sent: "length (messages (fw_queue s)) < telemetry_queue_capacity"
      "signals q = signals (fw_queue s) @ [Some ?fr]"
      using push_frame_cases [of "fw_queue s" ?fr] by (auto simp: not_less [symmetric])
    let ?q = "p\<lparr>waiting := map serialize (drain (fw_sensor s)), travelling := travelling p @ [?fr]\<rparr>"
    have "waiting p = ?fr # map serialize (drain (fw_sensor s))"
      using match at_push by (simp add: shows_signals unsent_def)
    moreover have "length (travelling p) < telemetry_queue_capacity + 1"
      using match sent(1) on_hand_one [of "transmitter_at s"]
        length_frames_of_signals [of "signals (fw_queue s)"]
      by (simp add: shows_signals length_signals)
    ultimately have "pipe p ?q" by (intro pipeline_step.enter) simp_all
    moreover have "firmware_shows messages t ?q"
      using match q(2) sent(2) by (simp add: shows_signals unsent_def)
    ultimately show ?thesis by blast
  next
    case at_push_end
    with step obtain ok q where q: "push_end_of_stream zephyr (fw_queue s) = Some (ok, q)"
      "t = s\<lparr>fw_queue := q, producer_at := P_pushed_end ok\<rparr>"
      by (auto simp: producer_step_def split: option.splits)
    then have "signals q = signals (fw_queue s) @ [None]"
      using push_end_cases [of "fw_queue s"] by (auto simp: not_less [symmetric])
    with q(2) match at_push_end show ?thesis
      by (intro same) (simp add: shows_signals unsent_def)
  qed (use step match in \<open>(intro same; auto simp: producer_step_def shows_signals unsent_def)+\<close>)
qed

lemma transmitter_matches:
  assumes inv: "firmware_inv s" and match: "firmware_shows messages s p"
    and step: "transmitter_step zephyr s = Some t"
  shows "\<exists>q. firmware_shows messages t q \<and> (q = p \<or> pipe p q)"
proof -
  from inv obtain S D out rt where
    tv: "transmitter_view (transmitter_at s) S (signals (fw_queue s)) D out rt" and mv: "main_view s"
    unfolding firmware_inv_def firmware_at_def by blast
  have same: ?thesis if "firmware_shows messages t p" using that by blast
  from tv show ?thesis
  proof (cases rule: transmitter_view.cases)
    case (at_pop frs)
    with step obtain ok item q where q: "pop_item zephyr default_item (fw_queue s) = Some (ok, item, q)"
      "t = s\<lparr>fw_queue := q, transmitter_at := T_popped ok item (of_nat (length frs))\<rparr>"
      by (auto simp: transmitter_step_def split: option.splits)
    then obtain x xs where "signals (fw_queue s) = x # xs"
      using pop_item_cases(2) by (cases "signals (fw_queue s)") auto
    with q(1) have "signals (fw_queue s) = signal_of item # signals q"
      using pop_item_cases(1) [of "fw_queue s" x xs default_item] by auto
    with q(2) match at_pop show ?thesis
      by (intro same) (cases "signal_of item"; simp add: shows_signals unsent_def)
  next
    case (at_popped item frs)
    with step match show ?thesis
      by (intro same) (cases "kind item"; auto simp: transmitter_step_def shows_signals unsent_def signal_of_def)
  next
    case (at_print fr frs)
    let ?q = "p\<lparr>travelling := frames_of_signals (signals (fw_queue s)), delivered := delivered p @ [fr]\<rparr>"
    have "travelling p = fr # frames_of_signals (signals (fw_queue s))"
      using match at_print by (simp add: shows_signals)
    then have "pipe p ?q" by (rule pipeline_step.deliver)
    moreover have "(case fw_main_at s of F_exit _ \<Rightarrow> final_text | _ \<Rightarrow> []) = []"
      using mv at_print by (cases "fw_main_at s") (auto simp: main_view_def)
    with match step at_print have "firmware_shows messages t ?q"
      by (auto simp: transmitter_step_def shows_signals unsent_def lines_of_snoc)
    ultimately show ?thesis by blast
  qed (use step match in \<open>(intro same; auto simp: transmitter_step_def shows_signals unsent_def)+\<close>)
qed

lemma main_matches:
  assumes inv: "firmware_inv s" and match: "firmware_shows messages s p"
    and step: "firmware_main_step zephyr s = Some t"
  shows "\<exists>q. firmware_shows messages t q \<and> (q = p \<or> pipe p q)"
proof -
  have "firmware_shows messages t p"
    using match step report_ends [OF inv]
    by (cases "fw_main_at s")
      (auto simp: firmware_main_step_def shows_signals unsent_def split: option.splits)
  then show ?thesis by blast
qed

lemma start_matches: "firmware_shows messages (firmware_start zephyr q0 sp st) (new_pipeline encoded)"
  using drain_from [of 0] construct_empties [of q0]
  by (simp add: shows_signals firmware_start_def new_pipeline_def unsent_def new_sensor_model_def
      encoded_def lines_of_def)

lemma exit_matches:
  assumes "firmware_inv s" and "firmware_shows messages s p" and "\<exists>c. fw_main_at s = F_exit c"
  shows "waiting p = [] \<and> travelling p = []"
proof -
  from assms(1) obtain E S D out rp rt where
    pv: "producer_view (producer_at s) (next_index' (fw_sensor s)) E S rp" and
    tv: "transmitter_view (transmitter_at s) S (signals (fw_queue s)) D out rt" and mv: "main_view s"
    unfolding firmware_inv_def firmware_at_def by blast
  from mv assms(3) have fin: "producer_at s = P_finished" "transmitter_at s = T_finished"
    by (auto simp: main_view_def split: if_splits)
  moreover from pv fin(1) have "next_index' (fw_sensor s) = 8" by (auto elim: producer_view_cases)
  then have "drain (fw_sensor s) = []" by (subst drain.simps) (simp add: has_next_iff)
  ultimately show ?thesis
    using assms(2) finished_run(4) [OF pv [unfolded fin] tv [unfolded fin]]
    by (simp add: shows_signals unsent_def)
qed

end

sublocale firmware_run \<subseteq> pipeline: pipeline_implementation Some "telemetry_queue_capacity + 1" encoded
    "firmware_step zephyr" "firmware_start zephyr q0 sp st" firmware_inv firmware_bound
    "\<lambda>s. \<exists>c. fw_main_at s = F_exit c" "firmware_shows messages"
proof unfold_locales
  show "\<exists>q. firmware_shows messages t q \<and> (q = p \<or> pipe p q)"
    if "firmware_inv s" "firmware_shows messages s p" "firmware_step zephyr s t" for s p t
    using that producer_matches transmitter_matches main_matches by (auto simp: firmware_step_iff)
qed (use start_matches exit_matches in auto)

context firmware_run
begin

lemma reachable_implements:
  assumes "(firmware_step zephyr)\<^sup>*\<^sup>* (firmware_start zephyr q0 sp st) s" and "(firmware_step zephyr)\<^sup>*\<^sup>* s t"
  shows "\<exists>p q. firmware_shows messages s p \<and> firmware_shows messages t q
    \<and> pipe\<^sup>*\<^sup>* (new_pipeline encoded) p \<and> pipe\<^sup>*\<^sup>* p q
    \<and> (fw_main_at t = F_exit c \<longrightarrow> q = \<lparr>waiting = [], travelling = [], delivered = encoded\<rparr>)"
proof -
  from pipeline.reachable_matches [OF assms] obtain p q where
    pq: "firmware_shows messages s p" "firmware_shows messages t q"
      "pipe\<^sup>*\<^sup>* (new_pipeline encoded) p" "pipe\<^sup>*\<^sup>* p q" by blast
  then have "pipe\<^sup>*\<^sup>* (new_pipeline encoded) q" "(firmware_step zephyr)\<^sup>*\<^sup>* (firmware_start zephyr q0 sp st) t"
    using assms by auto
  with pq pipeline.final_matches [of t q] show ?thesis by (auto simp: admitted_all)
qed

end

subsection \<open>Properties\<close>

text \<open>C8: the firmware implements the bounded pipeline: between any two states of any run the
  abstract machine makes the same progress, where the encodings of the sensor's frames that are not
  yet pushed wait, those in the message queue and in the transmitter's hands travel (never more than
  five) and the console shows the lines of those delivered; at the exit all eight have been
  delivered, once and in order.\<close>

theorem firmware_implements_pipeline:
  assumes "kernel_services zephyr messages count telemetry_queue_capacity 1"
    and "count sp = 0" and "count st = 0"
    and "(firmware_step zephyr)\<^sup>*\<^sup>* (firmware_start zephyr q0 sp st) s" and "(firmware_step zephyr)\<^sup>*\<^sup>* s t"
  shows "\<exists>p q. firmware_shows messages s p \<and> firmware_shows messages t q
    \<and> (pipeline_step Some (telemetry_queue_capacity + 1))\<^sup>*\<^sup>* (new_pipeline (map serialize sensor_frames)) p
    \<and> (pipeline_step Some (telemetry_queue_capacity + 1))\<^sup>*\<^sup>* p q
    \<and> (fw_main_at t = F_exit c \<longrightarrow>
        q = \<lparr>waiting = [], travelling = [], delivered = map serialize sensor_frames\<rparr>)"
  using firmware_run.reachable_implements [OF firmware_runI [OF assms(1-3)] assms(4,5)]
  unfolding encoded_def by blast

theorem firmware_implements_pipeline_witness:
  "\<exists>t p q. (firmware_step (list_kernel telemetry_queue_capacity 1))\<^sup>*\<^sup>*
      (firmware_start (list_kernel telemetry_queue_capacity 1) [default_item] 0 0) t
    \<and> fw_main_at t = F_exit 0
    \<and> firmware_shows (\<lambda>q. q) (firmware_start (list_kernel telemetry_queue_capacity 1) [default_item] 0 0) p
    \<and> firmware_shows (\<lambda>q. q) t q \<and> (pipeline_step Some (telemetry_queue_capacity + 1))\<^sup>*\<^sup>* p q
    \<and> q = \<lparr>waiting = [], travelling = [], delivered = map serialize sensor_frames\<rparr>"
proof -
  obtain t where t: "(firmware_step (list_kernel telemetry_queue_capacity 1))\<^sup>*\<^sup>*
      (firmware_start (list_kernel telemetry_queue_capacity 1) [default_item] 0 0) t" "fw_main_at t = F_exit 0"
    using demo_firmware.firmware_run_is_short [of 0] by auto
  from firmware_implements_pipeline [OF demo_kernel_contract refl refl rtranclp.rtrancl_refl t(1), of 0] t
  show ?thesis by blast
qed

end
