(* ===== verification/Firmware_Suite.thy ===== *)
theory Firmware_Suite
  imports Firmware_Robustness
begin

text \<open>
  The scenarios of the firmware's test suite, \<^verbatim>\<open>tests/firmware/src/main.cpp\<close>. Its drain scenario runs
  the producer of the program against a consumer of its own, which stores the frames in an array. The
  state is that of the firmware, whose transmitter and main thread stand still, with the context of
  the consumer. Every step of the scenario is simulated by steps of the firmware, the consumer in the
  place of the transmitter, so the invariant of the firmware holds and the expectations of the suite
  follow for every schedule.
\<close>

subsection \<open>The code\<close>

datatype drain_pc =
    D_pop                               \<comment> \<open>head of the loop\<close>
  | D_popped bool TelemetryQueueItem    \<comment> \<open>\<^verbatim>\<open>pop\<close> has returned\<close>
  | D_done                              \<comment> \<open>returned\<close>

record drain_context =
  drain_at :: drain_pc
  drained :: "bytes list"
  end_marker_count :: nat
  drain_succeeded :: bool

definition drain_entry ::
    "('q, 's) kernel_ops \<Rightarrow> ('q, 's) firmware_state \<times> drain_context
      \<Rightarrow> (('q, 's) firmware_state \<times> drain_context) option" where
  "drain_entry zephyr = (\<lambda>(s, d).
     case drain_at d of
       D_pop \<Rightarrow>
         (case pop_item zephyr default_item (fw_queue s) of
            None \<Rightarrow> None
          | Some (popped, item, q) \<Rightarrow> Some (s\<lparr>fw_queue := q\<rparr>, d\<lparr>drain_at := D_popped popped item\<rparr>))
     | D_popped popped item \<Rightarrow>
         if \<not> popped
         then Some (s\<lparr>fw_metrics := record_queue_pop_failure (fw_metrics s)\<rparr>,
                    d\<lparr>drain_succeeded := False, drain_at := D_done\<rparr>)
         else if kind item = end_of_stream
         then Some (s\<lparr>fw_metrics := record_end_marker_received (fw_metrics s)\<rparr>,
                    d\<lparr>end_marker_count := end_marker_count d + 1, drain_at := D_done\<rparr>)
         else if length (drained d) \<ge> deterministic_sample_count
         then Some (s, d\<lparr>drain_succeeded := False, drain_at := D_done\<rparr>)
         else Some (s\<lparr>fw_metrics := record_frame_transmitted (fw_metrics s)\<rparr>,
                    d\<lparr>drained := drained d @ [item_bytes item], drain_at := D_pop\<rparr>)
     | D_done \<Rightarrow> None)"

text \<open>The producer's thread of the suite ends when \<^verbatim>\<open>run\<close> has returned.\<close>

definition producer_entry ::
    "('q, 's) kernel_ops \<Rightarrow> ('q, 's) firmware_state \<times> drain_context
      \<Rightarrow> (('q, 's) firmware_state \<times> drain_context) option" where
  "producer_entry zephyr = (\<lambda>(s, d).
     case producer_at s of
       P_returned _ \<Rightarrow> None
     | _ \<Rightarrow> (case producer_step zephyr s of None \<Rightarrow> None | Some t \<Rightarrow> Some (t, d)))"

definition run_drain_scenario ::
    "('q, 's) kernel_ops \<Rightarrow> 'q \<Rightarrow> 's \<Rightarrow> 's \<Rightarrow> ('q, 's) firmware_state \<times> drain_context" where
  "run_drain_scenario zephyr q sp st = (firmware_start zephyr q sp st,
     \<lparr>drain_at = D_pop, drained = [], end_marker_count = 0, drain_succeeded = True\<rparr>)"

inductive scenario_step ::
    "('q, 's) kernel_ops \<Rightarrow> ('q, 's) firmware_state \<times> drain_context
      \<Rightarrow> ('q, 's) firmware_state \<times> drain_context \<Rightarrow> bool" for zephyr where
  "producer_entry zephyr x = Some y \<Longrightarrow> scenario_step zephyr x y"
| "drain_entry zephyr x = Some y \<Longrightarrow> scenario_step zephyr x y"

lemma scenario_step_iff:
  "scenario_step zephyr x y \<longleftrightarrow> producer_entry zephyr x = Some y \<or> drain_entry zephyr x = Some y"
  by (auto intro: scenario_step.intros elim: scenario_step.cases)

subsection \<open>The scenario as a run of the firmware\<close>

definition as_program :: "('q, 's) firmware_state \<times> drain_context \<Rightarrow> ('q, 's) firmware_state" where
  "as_program = (\<lambda>(s, d). s\<lparr>transmitter_at := (case drain_at d of
         D_pop \<Rightarrow> T_pop (of_nat (length (drained d)))
       | D_popped popped item \<Rightarrow> T_popped popped item (of_nat (length (drained d)))
       | D_done \<Rightarrow> T_returned True),
     transmitter_succeeded := (drain_at d = D_done), console := lines_of (drained d)\<rparr>)"

definition scenario_ended :: "('q, 's) firmware_state \<times> drain_context \<Rightarrow> bool" where
  "scenario_ended x \<longleftrightarrow> producer_at (fst x) = P_returned True \<and> drain_at (snd x) = D_done"

lemma as_program_simps [simp]:
  "fw_queue (as_program (s, d)) = fw_queue s" "producer_at (as_program (s, d)) = producer_at s"
  "fw_sensor (as_program (s, d)) = fw_sensor s" "fw_metrics (as_program (s, d)) = fw_metrics s"
  "transmitter_at (as_program (s, d)) = (case drain_at d of
       D_pop \<Rightarrow> T_pop (of_nat (length (drained d)))
     | D_popped popped item \<Rightarrow> T_popped popped item (of_nat (length (drained d)))
     | D_done \<Rightarrow> T_returned True)"
  by (simp_all add: as_program_def)

lemma producer_simulated:
  assumes "producer_entry zephyr (s, d) = Some y"
  shows "firmware_step zephyr (as_program (s, d)) (as_program y)"
  using assms
  by (intro firmware_step.producer_thread)
    (auto simp: producer_entry_def producer_step_def as_program_def
      split: producer_pc.splits option.splits if_splits prod.splits)

lemma received_signal:
  assumes "producer_view pc k E S rp" and "S = map Some frs @ x # qs"
  shows "frs = take (length frs) encoded \<and> length frs \<le> 8
    \<and> (case x of None \<Rightarrow> length frs = 8 | Some fr \<Rightarrow> length frs < 8 \<and> fr = encoded ! length frs)"
proof -
  from sent_prefix [OF put_works [OF assms(1)]] obtain r where
    eq: "map Some encoded @ [None] = map Some frs @ x # qs @ r"
    using assms(2) by (auto simp: sent_all_def sent_frames_def)
  have "length (map Some encoded @ [None]) = length (map Some frs @ x # qs @ r)" by (simp only: eq)
  then have le: "length frs \<le> 8" by simp
  have nth: "(map Some encoded @ [None]) ! i = (map Some frs @ x # qs @ r) ! i" for i by (simp only: eq)
  have "encoded ! i = frs ! i" if "i < length frs" for i
    using nth [of i] that le by (simp add: nth_append)
  then have "frs = take (length frs) encoded" using le by (intro nth_equalityI) simp_all
  moreover have "x = (if length frs < 8 then Some (encoded ! length frs) else None)"
    using nth [of "length frs"] le by (cases "length frs < 8") (simp_all add: nth_append)
  ultimately show ?thesis using le by (auto split: option.splits)
qed

context firmware_run
begin

definition scenario_inv :: "('q, 's) firmware_state \<times> drain_context \<Rightarrow> bool" where
  "scenario_inv x \<longleftrightarrow> firmware_inv (as_program x) \<and> producer_at (fst x) \<noteq> P_finished \<and> (let d = snd x in
     drain_succeeded d \<and> length (drained d) \<le> 8 \<and> drained d = take (length (drained d)) encoded
     \<and> (if drain_at d = D_done then length (drained d) = 8 \<and> end_marker_count d = 1
        else end_marker_count d = 0))"

text \<open>What the consumer of the suite has in its hands is what the producer has sent next.\<close>

lemma popped_signal:
  assumes inv: "scenario_inv (s, d)" and pc: "drain_at d = D_popped popped item"
  shows "popped \<and> (case signal_of item of
      None \<Rightarrow> length (drained d) = 8
    | Some fr \<Rightarrow> length (drained d) < 8 \<and> fr = encoded ! length (drained d))"
proof -
  from inv obtain E S D out rp rt where
    pv: "producer_view (producer_at s) (next_index' (fw_sensor s)) E S rp" and
    tv: "transmitter_view (T_popped popped item (of_nat (length (drained d)))) S (signals (fw_queue s)) D out rt"
    unfolding scenario_inv_def firmware_inv_def firmware_at_def by (auto simp: pc)
  from tv obtain frs where frs: "popped" "S = map Some frs @ signal_of item # signals (fw_queue s)"
    "(of_nat (length frs) :: u32) = of_nat (length (drained d))"
    by (auto elim: transmitter_view_cases)
  note received = received_signal [OF pv frs(2)]
  moreover have "length (drained d) \<le> 8" using inv by (simp add: scenario_inv_def Let_def)
  ultimately have "length frs = length (drained d)"
    using arg_cong [OF frs(3), of unat] by (simp add: unsigned_of_nat take_bit_nat_eq_self)
  with received frs(1) show ?thesis by (auto split: option.splits)
qed

lemma frame_taken:
  assumes inv: "scenario_inv (s, d)" and pc: "drain_at d = D_popped True item" and fr: "kind item = frame_item"
    and t: "t = (s\<lparr>fw_metrics := record_frame_transmitted (fw_metrics s)\<rparr>,
      d\<lparr>drained := drained d @ [item_bytes item], drain_at := D_pop\<rparr>)"
  shows "(firmware_step zephyr)\<^sup>+\<^sup>+ (as_program (s, d)) (as_program t)"
proof -
  let ?n = "of_nat (length (drained d)) + 1 :: u32"
  let ?s1 = "(as_program (s, d))\<lparr>transmitter_at := T_print (item_bytes item) ?n\<rparr>"
  let ?s2 = "?s1\<lparr>console := console ?s1 @ frame_line ?n (format (item_bytes item)), transmitter_at := T_printed ?n\<rparr>"
  have "transmitter_step zephyr (as_program (s, d)) = Some ?s1"
    using pc fr by (simp add: transmitter_step_def as_program_def)
  moreover have "transmitter_step zephyr ?s1 = Some ?s2" by (simp add: transmitter_step_def)
  moreover have "transmitter_step zephyr ?s2 = Some (as_program t)"
    using pc t by (simp add: transmitter_step_def as_program_def lines_of_snoc add.commute)
  ultimately show ?thesis
    by (meson firmware_step.transmitter_thread tranclp.r_into_trancl tranclp.trancl_into_trancl)
qed

lemma drain_simulated:
  assumes inv: "scenario_inv (s, d)" and step: "drain_entry zephyr (s, d) = Some t"
  shows "(firmware_step zephyr)\<^sup>+\<^sup>+ (as_program (s, d)) (as_program t)"
proof (cases "drain_at d")
  case D_pop
  with step have "transmitter_step zephyr (as_program (s, d)) = Some (as_program t)"
    by (auto simp: drain_entry_def transmitter_step_def as_program_def split: option.splits)
  then show ?thesis by (blast intro: firmware_step.transmitter_thread)
next
  case (D_popped popped item)
  note got = popped_signal [OF inv D_popped]
  show ?thesis
  proof (cases "kind item")
    case frame_item
    with got D_popped step have "t = (s\<lparr>fw_metrics := record_frame_transmitted (fw_metrics s)\<rparr>,
        d\<lparr>drained := drained d @ [item_bytes item], drain_at := D_pop\<rparr>)"
      by (simp add: drain_entry_def signal_of_def deterministic_sample_count_def)
    with got D_popped frame_item show ?thesis by (intro frame_taken [OF inv]) simp_all
  next
    case end_of_stream
    with got D_popped step have "transmitter_step zephyr (as_program (s, d)) = Some (as_program t)"
      by (auto simp: drain_entry_def transmitter_step_def as_program_def)
    then show ?thesis by (blast intro: firmware_step.transmitter_thread)
  qed
next
  case D_done
  with step show ?thesis by (simp add: drain_entry_def)
qed

lemma scenario_simulated:
  assumes "scenario_inv x" and "scenario_step zephyr x y"
  shows "(firmware_step zephyr)\<^sup>+\<^sup>+ (as_program x) (as_program y)"
  using assms producer_simulated [of zephyr "fst x" "snd x" y] drain_simulated [of "fst x" "snd x" y]
  by (auto simp: scenario_step_iff)

lemma scenario_inv_step:
  assumes inv: "scenario_inv x" and step: "scenario_step zephyr x y"
  shows "scenario_inv y"
proof -
  obtain s d where x: "x = (s, d)" by fastforce
  have "firmware_inv (as_program x)" using inv by (simp add: scenario_inv_def)
  with tranclp_into_rtranclp [OF scenario_simulated [OF inv step]] have fw: "firmware_inv (as_program y)"
    by (rule fw.inv_steps)
  from step consider (producer) s' where "y = (s', d)" "producer_at s' \<noteq> P_finished"
    | (drain) "drain_entry zephyr (s, d) = Some y"
    unfolding x by (auto simp: scenario_step_iff producer_entry_def producer_step_def
        split: producer_pc.splits option.splits if_splits prod.splits)
  then show ?thesis
  proof cases
    case producer
    with inv fw show ?thesis by (simp add: scenario_inv_def x)
  next
    case drain
    show ?thesis
    proof (cases "drain_at d")
      case (D_popped popped item)
      from popped_signal [OF inv [unfolded x] D_popped] inv fw drain D_popped show ?thesis
        by (cases "kind item")
          (auto simp: scenario_inv_def x drain_entry_def signal_of_def Let_def deterministic_sample_count_def
            take_Suc_conv_app_nth)
    qed (use inv fw drain in \<open>auto simp: scenario_inv_def x drain_entry_def Let_def split: option.splits\<close>)
  qed
qed

lemma scenario_inv_start: "scenario_inv (run_drain_scenario zephyr q0 sp st)"
proof -
  have "as_program (run_drain_scenario zephyr q0 sp st) = firmware_start zephyr q0 sp st"
    by (simp add: as_program_def run_drain_scenario_def firmware_start_def lines_of_def)
  then show ?thesis using firmware_inv_start by (simp add: scenario_inv_def run_drain_scenario_def firmware_start_def)
qed

lemma scenario_decreases:
  assumes "scenario_inv x" and "scenario_step zephyr x y"
  shows "firmware_bound (as_program y) < firmware_bound (as_program x)"
  using scenario_simulated [OF assms]
proof (induction rule: tranclp_induct)
  case (step t u)
  then show ?case using firmware_step_decreases by (meson order.strict_trans)
qed (rule firmware_step_decreases)

lemma drain_waits:
  assumes "scenario_inv (s, d)" and "drain_entry zephyr (s, d) = None"
  shows "drain_at d = D_done \<or> (drain_at d = D_pop \<and> signals (fw_queue s) = [])"
proof (cases "drain_at d")
  case D_pop
  with assms(2) have "pop_item zephyr default_item (fw_queue s) = None"
    by (auto simp: drain_entry_def split: option.splits)
  then show ?thesis
    using D_pop pop_item_cases(1) [of "fw_queue s" _ _ default_item] by (cases "signals (fw_queue s)") auto
qed (use assms(2) in \<open>auto simp: drain_entry_def split: if_splits\<close>)

lemma scenario_progress:
  assumes inv: "scenario_inv x" and "\<not> scenario_ended x"
  shows "\<exists>y. scenario_step zephyr x y"
proof (rule ccontr)
  obtain s d where x: "x = (s, d)" by fastforce
  assume "\<nexists>y. scenario_step zephyr x y"
  then have p: "producer_entry zephyr (s, d) = None" and c: "drain_entry zephyr (s, d) = None"
    unfolding scenario_step_iff x by (metis not_None_eq)+
  from inv obtain E S D out rp rt where
    pv: "producer_view (producer_at s) (next_index' (fw_sensor s)) E S rp" and
    tv: "transmitter_view (transmitter_at (as_program (s, d))) S (signals (fw_queue s)) D out rt"
    unfolding scenario_inv_def firmware_inv_def firmware_at_def x by auto
  have consumer: "drain_at d = D_done \<and> None \<in> set S
      \<or> drain_at d = D_pop \<and> signals (fw_queue s) = [] \<and> None \<notin> set S"
    using drain_waits [OF inv [unfolded x] c] tv by (auto elim!: transmitter_view_cases)
  show False
  proof (cases "\<exists>ok. producer_at s = P_returned ok")
    case True
    with pv have "producer_at s = P_returned True" "None \<in> set S"
      by (auto elim!: producer_view_cases simp: sent_all_def)
    with consumer assms(2) show False by (auto simp: scenario_ended_def x)
  next
    case False
    with p have "producer_step zephyr s = None"
      by (auto simp: producer_entry_def split: producer_pc.splits option.splits)
    with producer_waits [OF pv] consumer inv show False by (auto simp: scenario_inv_def x)
  qed
qed

lemma scenario_result:
  assumes inv: "scenario_inv (s, d)" and ended: "scenario_ended (s, d)"
  shows "drained d = encoded \<and> end_marker_count d = 1 \<and> drain_succeeded d \<and> queue_empty zephyr (fw_queue s)
    \<and> metrics_are_valid (firmware_snapshot (fw_metrics s))"
proof -
  from inv obtain E S D out rp rt where at: "firmware_at (as_program (s, d)) E S D out rp rt"
    unfolding scenario_inv_def firmware_inv_def by blast
  with ended have "producer_view (P_returned True) (next_index' (fw_sensor s)) E S rp"
    "transmitter_view (T_returned True) S (signals (fw_queue s)) D out rt"
    by (simp_all add: firmware_at_def scenario_ended_def)
  then have "producer_view P_finished (next_index' (fw_sensor s)) E S rp"
    "transmitter_view T_finished S (signals (fw_queue s)) D out rt"
    using producer_view.at_finished transmitter_view.at_finished
    by (fastforce elim: producer_view_cases, metis transmitter_view_cases(5))
  note run = finished_run [OF this]
  with at have "queue_empty zephyr (fw_queue s)" by (simp add: firmware_at_def queue_empty_iff)
  moreover from at run have "metrics_are_valid (firmware_snapshot (fw_metrics s))"
    by (simp add: firmware_at_def final_counts metrics_are_valid_def deterministic_sample_count_def)
  moreover have "drained d = take 8 encoded"
    using inv ended by (auto simp: scenario_inv_def scenario_ended_def Let_def)
  then have "drained d = encoded" by simp
  ultimately show ?thesis using inv ended by (simp add: scenario_inv_def scenario_ended_def Let_def)
qed

end

sublocale firmware_run \<subseteq> scenario: step_system "scenario_step zephyr" "run_drain_scenario zephyr q0 sp st"
    scenario_inv "\<lambda>x. firmware_bound (as_program x)" scenario_ended
  by unfold_locales (rule scenario_inv_start, erule (1) scenario_inv_step, erule (1) scenario_decreases,
    erule (1) scenario_progress)

context firmware_run
begin

lemma scenario_system:
  "step_system (scenario_step zephyr) (run_drain_scenario zephyr q0 sp st) scenario_inv
    (\<lambda>x. firmware_bound (as_program x)) scenario_ended"
  by (rule scenario.step_system_axioms)

end

subsection \<open>The expectations of the suite\<close>

text \<open>The drain scenario passes on every schedule: it makes at most 177 steps, and it stops only when
  both threads have returned, with the eight frames in order, one end marker, no failure and an empty
  queue.\<close>

theorem drain_scenario_passes:
  assumes "kernel_services zephyr messages count telemetry_queue_capacity 1"
    and "count sp = 0" and "count st = 0"
    and run: "(scenario_step zephyr ^^ n) (run_drain_scenario zephyr q0 sp st) x"
  shows "n \<le> 177 \<and> ((\<exists>y. scenario_step zephyr x y)
    \<or> (producer_at (fst x) = P_returned True \<and> drain_at (snd x) = D_done \<and> drain_succeeded (snd x)
      \<and> drained (snd x) = map serialize sensor_frames \<and> end_marker_count (snd x) = 1
      \<and> queue_empty zephyr (fw_queue (fst x)) \<and> metrics_are_valid (firmware_snapshot (fw_metrics (fst x)))))"
proof -
  note program = firmware_runI [OF assms(1-3)]
  have start: "as_program (run_drain_scenario zephyr q0 sp st) = firmware_start zephyr q0 sp st"
    by (simp add: as_program_def run_drain_scenario_def firmware_start_def lines_of_def)
  note system = firmware_run.scenario_system [OF program, of q0]
  from step_system.run_bounded [OF system run] have "n \<le> 177"
    by (simp add: start firmware_run.firmware_bound_start [OF program])
  moreover have reach: "(scenario_step zephyr)\<^sup>*\<^sup>* (run_drain_scenario zephyr q0 sp st) x"
    using run by (rule relpowp_imp_rtranclp)
  note inv = step_system.reachable_inv [OF system reach]
  have "scenario_ended x" if "\<nexists>y. scenario_step zephyr x y"
    using step_system.stuck_is_final [OF system reach that] .
  then have "(\<exists>y. scenario_step zephyr x y) \<or> scenario_ended x" by blast
  moreover have "scenario_ended x \<Longrightarrow> ?thesis"
    using firmware_run.scenario_result [OF program, of "fst x" "snd x"] inv \<open>n \<le> 177\<close>
    by (simp add: scenario_ended_def encoded_def)
  ultimately show ?thesis by blast
qed

text \<open>The sensor and the formatter, on the inputs of the suite.\<close>

lemma suite_sensor:
  "remaining new_sensor_model = 8" "has_next new_sensor_model"
  "\<not> has_next (((\<lambda>m. snd (next_frame m)) ^^ 8) new_sensor_model)"
  "map (\<lambda>(number, _). number) (map row_of (drain new_sensor_model)) = [1000..<1008]"
  "map (\<lambda>(_, time, _). time) (map row_of (drain new_sensor_model)) = map (\<lambda>k. 1000000 + k * 250000) [0..<8]"
  "\<exists>(_, _, temperature, _) \<in> set (map row_of (drain new_sensor_model)). temperature < 0"
  "\<exists>(_, _, _, _, _, flags) \<in> set (map row_of (drain new_sensor_model)). flags = []"
  "\<exists>(_, _, _, _, _, flags) \<in> set (map row_of (drain new_sensor_model)). length flags > 1"
  "\<forall>flag \<in> {sensor_warning, voltage_warning, communication_warning, watchdog_event}.
    \<exists>(_, _, _, _, _, flags) \<in> set (map row_of (drain new_sensor_model)). flag \<in> set flags"
proof -
  have rows: "map row_of (drain new_sensor_model) = documented_rows"
    using drain_from [of 0] rows_documented by (simp add: new_sensor_model_def)
  show "remaining new_sensor_model = 8" "has_next new_sensor_model"
    by (simp_all add: remaining_def has_next_iff new_sensor_model_def length_samples deterministic_sample_count_def)
  show "\<not> has_next (((\<lambda>m. snd (next_frame m)) ^^ 8) new_sensor_model)"
    using remaining_counts_frames [OF refl, of 8] by (metis diff_self_eq_0)
  show "map (\<lambda>(number, _). number) (map row_of (drain new_sensor_model)) = [1000..<1008]"
    "map (\<lambda>(_, time, _). time) (map row_of (drain new_sensor_model)) = map (\<lambda>k. 1000000 + k * 250000) [0..<8]"
    unfolding rows by (simp_all add: documented_rows_def upt_rec)
  show "\<exists>(_, _, temperature, _) \<in> set (map row_of (drain new_sensor_model)). temperature < 0"
    "\<exists>(_, _, _, _, _, flags) \<in> set (map row_of (drain new_sensor_model)). flags = []"
    "\<exists>(_, _, _, _, _, flags) \<in> set (map row_of (drain new_sensor_model)). length flags > 1"
    "\<forall>flag \<in> {sensor_warning, voltage_warning, communication_warning, watchdog_event}.
      \<exists>(_, _, _, _, _, flags) \<in> set (map row_of (drain new_sensor_model)). flag \<in> set flags"
    unfolding rows by (simp_all add: documented_rows_def)
qed

lemma suite_formatter:
  "take 6 (format ([0xAB, 0xCD, 0xEF] @ replicate 31 0)) = ''ABCDEF''"
  "take 2 (format (1 # replicate 33 0)) = ''01''"
  "format (replicate 34 0) = replicate 68 (CHR ''0'') @ [CHR 0x00]"
  "format (replicate 34 0xFF) = replicate 68 (CHR ''F'') @ [CHR 0x00]"
  by code_simp+

end
