(* ===== verification/Metrics_Threads.thy ===== *)
theory Metrics_Threads
  imports Processing_Summary
begin

unbundle bit_operations_syntax

text \<open>
  The two threads of the host on the members of one \<^verbatim>\<open>TelemetryMetrics\<close> object,
  \<^verbatim>\<open>host/src/telemetry_metrics.cpp\<close>, one memory access at a time. The ingesting thread executes
  \<^verbatim>\<open>fetch_add(1)\<close> on atomic members, each of which is one access. The consuming thread executes
  \<^verbatim>\<open>record_processed\<close> on plain members: a member is loaded into a register, and a later access
  stores the new value. \<open>ingest_code\<close> and \<open>processed_code\<close> list the accesses of a call in the order
  of the statements, and \<open>fetch_add\<close> and \<open>member_access\<close> execute one access; a run is any
  interleaving of the accesses of both threads. An access that its branch does not reach changes
  nothing.

  Accesses are atomic and take effect in their interleaved order. The atomics are relaxed, but each
  member is written by one thread only, and the snapshot is taken after \<^verbatim>\<open>join\<close>.
\<close>

subsection \<open>The accesses of the ingesting thread\<close>

datatype atomic_member =
    At_inputs_received | At_frames_accepted | At_frames_rejected | At_queue_closed_rejections
  | At_invalid_frame_size | At_invalid_magic | At_unsupported_version
  | At_unsupported_message_type | At_invalid_payload_size | At_checksum_mismatch

fun fetch_add :: "atomic_member \<Rightarrow> TelemetryMetrics \<Rightarrow> TelemetryMetrics" where
  "fetch_add At_inputs_received m = m\<lparr>inputs_received' := inputs_received' m + 1\<rparr>"
| "fetch_add At_frames_accepted m = m\<lparr>frames_accepted' := frames_accepted' m + 1\<rparr>"
| "fetch_add At_frames_rejected m = m\<lparr>frames_rejected' := frames_rejected' m + 1\<rparr>"
| "fetch_add At_queue_closed_rejections m =
     m\<lparr>queue_closed_rejections' := queue_closed_rejections' m + 1\<rparr>"
| "fetch_add At_invalid_frame_size m = m\<lparr>invalid_frame_size' := invalid_frame_size' m + 1\<rparr>"
| "fetch_add At_invalid_magic m = m\<lparr>invalid_magic' := invalid_magic' m + 1\<rparr>"
| "fetch_add At_unsupported_version m = m\<lparr>unsupported_version' := unsupported_version' m + 1\<rparr>"
| "fetch_add At_unsupported_message_type m =
     m\<lparr>unsupported_message_type' := unsupported_message_type' m + 1\<rparr>"
| "fetch_add At_invalid_payload_size m = m\<lparr>invalid_payload_size' := invalid_payload_size' m + 1\<rparr>"
| "fetch_add At_checksum_mismatch m = m\<lparr>checksum_mismatch' := checksum_mismatch' m + 1\<rparr>"

fun cause_code :: "ParseError \<Rightarrow> atomic_member list" where
  "cause_code PE_invalid_frame_size = [At_invalid_frame_size]"
| "cause_code PE_invalid_magic = [At_invalid_magic]"
| "cause_code PE_unsupported_version = [At_unsupported_version]"
| "cause_code PE_unsupported_message_type = [At_unsupported_message_type]"
| "cause_code PE_invalid_payload_size = [At_invalid_payload_size]"
| "cause_code PE_checksum_mismatch = [At_checksum_mismatch]"
| "cause_code PE_none = []"

fun ingest_code :: "IngestEvent \<Rightarrow> atomic_member list" where
  "ingest_code Ev_input = [At_inputs_received]"
| "ingest_code Ev_accepted = [At_frames_accepted]"
| "ingest_code (Ev_rejected e) = At_frames_rejected # cause_code e"
| "ingest_code Ev_queue_closed = [At_frames_rejected, At_queue_closed_rejections]"

subsection \<open>The accesses of the consuming thread\<close>

text \<open>The registers hold the values loaded last: a counter, and the optionals of the current part.\<close>

record registers =
  counter :: u64
  total :: i64
  first_last :: "u32 option \<times> u32 option"
  coldest_hottest :: "i32 option \<times> i32 option"
  lowest_highest :: "u16 option \<times> u16 option"

datatype member_access =
    Load_processed | Store_processed
  | Load_first_last | Store_first u32 | Load_gap u32 | Store_gap u32 | Store_last u32
  | Load_sensor u16 | Store_sensor u16 | Load_voltage u16 | Store_voltage u16
  | Load_communication u16 | Store_communication u16 | Load_watchdog u16 | Store_watchdog u16
  | Load_temperatures | Store_minimum_temperature i32 | Store_maximum_temperature i32
  | Load_temperature_sum | Store_temperature_sum i32
  | Load_supplies | Store_minimum_supply u16 | Store_maximum_supply u16
  | Load_supply_sum | Store_supply_sum u16

definition processed_code :: "TelemetryFrame \<Rightarrow> member_access list" where
  "processed_code f =
     (let seq = sequence (header f);
          flags = status_flags (payload f);
          t = temperature_millicelsius (payload f);
          v = supply_millivolts (payload f)
      in [Load_processed, Store_processed,
          Load_first_last, Store_first seq, Load_gap seq, Store_gap seq, Store_last seq,
          Load_sensor flags, Store_sensor flags, Load_voltage flags, Store_voltage flags,
          Load_communication flags, Store_communication flags, Load_watchdog flags,
          Store_watchdog flags,
          Load_temperatures, Store_minimum_temperature t, Store_maximum_temperature t,
          Load_temperature_sum, Store_temperature_sum t,
          Load_supplies, Store_minimum_supply v, Store_maximum_supply v,
          Load_supply_sum, Store_supply_sum v])"

text \<open>
  Which counter of the sequence analysis a number changes, and by how much: the branches of
  \<^verbatim>\<open>record_processed\<close> on \<^verbatim>\<open>first_sequence_\<close> and \<^verbatim>\<open>*last_sequence_\<close>.
\<close>

datatype sequence_branch = First_one | Duplicate | Ahead u32 | Late

definition branch_of :: "u32 option \<times> u32 option \<Rightarrow> u32 \<Rightarrow> sequence_branch" where
  "branch_of fl seq =
     (if fst fl = None then First_one
      else if seq = the (snd fl) then Duplicate
      else if seq > the (snd fl) then Ahead (seq - the (snd fl))
      else Late)"

fun access :: "member_access \<Rightarrow> registers \<times> TelemetryMetrics \<Rightarrow> registers \<times> TelemetryMetrics" where
  "access Load_processed (r, m) = (r\<lparr>counter := frames_processed' m\<rparr>, m)"
| "access Store_processed (r, m) = (r, m\<lparr>frames_processed' := counter r + 1\<rparr>)"
| "access Load_first_last (r, m) =
     (r\<lparr>first_last := (first_sequence' m, last_sequence' m)\<rparr>, m)"
| "access (Store_first seq) (r, m) =
     (case branch_of (first_last r) seq of
         First_one \<Rightarrow> (r, m\<lparr>first_sequence' := Some seq\<rparr>) | _ \<Rightarrow> (r, m))"
| "access (Load_gap seq) (r, m) =
     (case branch_of (first_last r) seq of
         First_one \<Rightarrow> (r, m)
       | Duplicate \<Rightarrow> (r\<lparr>counter := duplicate_sequences' m\<rparr>, m)
       | Ahead distance \<Rightarrow>
           if distance > 1 then (r\<lparr>counter := missing_sequences' m\<rparr>, m) else (r, m)
       | Late \<Rightarrow> (r\<lparr>counter := out_of_order_sequences' m\<rparr>, m))"
| "access (Store_gap seq) (r, m) =
     (case branch_of (first_last r) seq of
         First_one \<Rightarrow> (r, m)
       | Duplicate \<Rightarrow> (r, m\<lparr>duplicate_sequences' := counter r + 1\<rparr>)
       | Ahead distance \<Rightarrow>
           if distance > 1 then (r, m\<lparr>missing_sequences' := counter r + ucast (distance - 1)\<rparr>)
           else (r, m)
       | Late \<Rightarrow> (r, m\<lparr>out_of_order_sequences' := counter r + 1\<rparr>))"
| "access (Store_last seq) (r, m) =
     (case branch_of (first_last r) seq of
         First_one \<Rightarrow> (r, m\<lparr>last_sequence' := Some seq\<rparr>)
       | Ahead distance \<Rightarrow> (r, m\<lparr>last_sequence' := Some seq\<rparr>)
       | _ \<Rightarrow> (r, m))"
| "access (Load_sensor flags) (r, m) =
     (if has_flag flags sensor_warning then (r\<lparr>counter := sensor_warnings' m\<rparr>, m) else (r, m))"
| "access (Store_sensor flags) (r, m) =
     (if has_flag flags sensor_warning then (r, m\<lparr>sensor_warnings' := counter r + 1\<rparr>) else (r, m))"
| "access (Load_voltage flags) (r, m) =
     (if has_flag flags voltage_warning then (r\<lparr>counter := voltage_warnings' m\<rparr>, m) else (r, m))"
| "access (Store_voltage flags) (r, m) =
     (if has_flag flags voltage_warning then (r, m\<lparr>voltage_warnings' := counter r + 1\<rparr>) else (r, m))"
| "access (Load_communication flags) (r, m) =
     (if has_flag flags communication_warning
      then (r\<lparr>counter := communication_warnings' m\<rparr>, m) else (r, m))"
| "access (Store_communication flags) (r, m) =
     (if has_flag flags communication_warning
      then (r, m\<lparr>communication_warnings' := counter r + 1\<rparr>) else (r, m))"
| "access (Load_watchdog flags) (r, m) =
     (if has_flag flags watchdog_event then (r\<lparr>counter := watchdog_events' m\<rparr>, m) else (r, m))"
| "access (Store_watchdog flags) (r, m) =
     (if has_flag flags watchdog_event then (r, m\<lparr>watchdog_events' := counter r + 1\<rparr>) else (r, m))"
| "access Load_temperatures (r, m) =
     (r\<lparr>coldest_hottest :=
          (minimum_temperature_millicelsius' m, maximum_temperature_millicelsius' m)\<rparr>, m)"
| "access (Store_minimum_temperature t) (r, m) =
     (r, m\<lparr>minimum_temperature_millicelsius' :=
            Some (if fst (coldest_hottest r) = None then t
                  else min_i32 (the (fst (coldest_hottest r))) t)\<rparr>)"
| "access (Store_maximum_temperature t) (r, m) =
     (r, m\<lparr>maximum_temperature_millicelsius' :=
            Some (if fst (coldest_hottest r) = None then t
                  else max_i32 (the (snd (coldest_hottest r))) t)\<rparr>)"
| "access Load_temperature_sum (r, m) =
     (r\<lparr>total := temperature_sum_millicelsius' m\<rparr>, m)"
| "access (Store_temperature_sum t) (r, m) =
     (r, m\<lparr>temperature_sum_millicelsius' := total r + scast t\<rparr>)"
| "access Load_supplies (r, m) =
     (r\<lparr>lowest_highest := (minimum_supply_millivolts' m, maximum_supply_millivolts' m)\<rparr>, m)"
| "access (Store_minimum_supply v) (r, m) =
     (r, m\<lparr>minimum_supply_millivolts' :=
            Some (if fst (lowest_highest r) = None then v
                  else min (the (fst (lowest_highest r))) v)\<rparr>)"
| "access (Store_maximum_supply v) (r, m) =
     (r, m\<lparr>maximum_supply_millivolts' :=
            Some (if fst (lowest_highest r) = None then v
                  else max (the (snd (lowest_highest r))) v)\<rparr>)"
| "access Load_supply_sum (r, m) = (r\<lparr>counter := supply_sum_millivolts' m\<rparr>, m)"
| "access (Store_supply_sum v) (r, m) =
     (r, m\<lparr>supply_sum_millivolts' := counter r + ucast v\<rparr>)"

text \<open>An atomic access does not use the registers.\<close>

definition atomic_access ::
    "atomic_member \<Rightarrow> registers \<times> TelemetryMetrics \<Rightarrow> registers \<times> TelemetryMetrics" where
  "atomic_access c rm = (fst rm, fetch_add c (snd rm))"

subsection \<open>The accesses of the threads are independent\<close>

lemma access_keeps_atomics:
  "access a (r, fetch_add c m) = (fst (access a (r, m)), fetch_add c (snd (access a (r, m))))"
  by (cases c; cases a; simp split: sequence_branch.split)

interpretation accesses: independent_updates atomic_access access
proof
  fix c a rm
  show "atomic_access c (access a rm) = access a (atomic_access c rm)"
    by (cases rm) (simp add: atomic_access_def access_keeps_atomics)
qed

subsection \<open>The accesses of a call are the call\<close>

lemma fetch_adds: "fold fetch_add (ingest_code e) m = record_ingest e m"
  by (rule ingest_event_cases [of _ e]) (simp_all add: ingest_defs Let_def)

lemma atomic_accesses: "fold atomic_access cs rm = (fst rm, fold fetch_add cs (snd rm))"
  by (induction cs arbitrary: rm) (simp_all add: atomic_access_def)

lemma ingest_fetch_adds: "fold fetch_add (concat (map ingest_code es)) m = fold record_ingest es m"
  by (induction es arbitrary: m) (simp_all add: fetch_adds)

lemma ingest_accesses:
  "fold atomic_access (concat (map ingest_code es)) rm = (fst rm, fold record_ingest es (snd rm))"
  by (simp add: atomic_accesses ingest_fetch_adds)

text \<open>Each part of \<^verbatim>\<open>record_processed\<close>, whatever the registers hold before it.\<close>

lemma sequence_accesses:
  "snd (fold access [Load_first_last, Store_first q, Load_gap q, Store_gap q, Store_last q] (r, m))
    = record_sequence q m"
proof -
  consider "first_sequence' m = None" | "first_sequence' m \<noteq> None" "q = the (last_sequence' m)"
    | "first_sequence' m \<noteq> None" "q > the (last_sequence' m)"
    | "first_sequence' m \<noteq> None" "q < the (last_sequence' m)" by (metis linorder_cases)
  then show ?thesis
  proof cases
    case 1
    then have "branch_of (first_sequence' m, last_sequence' m) q = First_one" by (simp add: branch_of_def)
    with 1 show ?thesis by (simp add: record_sequence_def)
  next
    case 2
    then have "branch_of (first_sequence' m, last_sequence' m) q = Duplicate" by (simp add: branch_of_def)
    with 2 show ?thesis by (auto simp: record_sequence_def)
  next
    case 3
    then have "branch_of (first_sequence' m, last_sequence' m) q = Ahead (q - the (last_sequence' m))"
      by (auto simp: branch_of_def)
    with 3 show ?thesis by (auto simp: record_sequence_def Let_def)
  next
    case 4
    then have "branch_of (first_sequence' m, last_sequence' m) q = Late" by (auto simp: branch_of_def)
    with 4 show ?thesis by (auto simp: record_sequence_def)
  qed
qed

lemma flag_accesses:
  "snd (fold access [Load_sensor w, Store_sensor w, Load_voltage w, Store_voltage w,
      Load_communication w, Store_communication w, Load_watchdog w, Store_watchdog w] (r, m))
    = record_flags w m"
  by (cases "has_flag w sensor_warning"; cases "has_flag w voltage_warning";
      cases "has_flag w communication_warning"; cases "has_flag w watchdog_event")
    (simp_all add: record_flags_def)

lemma temperature_accesses:
  "snd (fold access [Load_temperatures, Store_minimum_temperature t, Store_maximum_temperature t,
      Load_temperature_sum, Store_temperature_sum t] (r, m)) = record_temperature t m"
  by (cases "minimum_temperature_millicelsius' m") (simp_all add: record_temperature_def)

lemma supply_accesses:
  "snd (fold access [Load_supplies, Store_minimum_supply v, Store_maximum_supply v,
      Load_supply_sum, Store_supply_sum v] (r, m)) = record_supply v m"
  by (cases "minimum_supply_millivolts' m") (simp_all add: record_supply_def)

lemma count_accesses:
  "snd (fold access [Load_processed, Store_processed] (r, m)) = m\<lparr>frames_processed' := frames_processed' m + 1\<rparr>"
  by simp

lemma part_accesses:
  assumes "\<And>r m. snd (fold access xs (r, m)) = f m" and "\<And>r m. snd (fold access ys (r, m)) = g m"
  shows "snd (fold access (xs @ ys) (r, m)) = g (f m)"
  using assms(1) [of r m] assms(2) [of "fst (fold access xs (r, m))" "f m"]
  by (cases "fold access xs (r, m)") simp

lemma processed_parts:
  "processed_code f = [Load_processed, Store_processed]
    @ (let q = sequence (header f)
       in [Load_first_last, Store_first q, Load_gap q, Store_gap q, Store_last q])
    @ (let w = status_flags (payload f)
       in [Load_sensor w, Store_sensor w, Load_voltage w, Store_voltage w,
           Load_communication w, Store_communication w, Load_watchdog w, Store_watchdog w])
    @ (let t = temperature_millicelsius (payload f)
       in [Load_temperatures, Store_minimum_temperature t, Store_maximum_temperature t,
           Load_temperature_sum, Store_temperature_sum t])
    @ (let v = supply_millivolts (payload f)
       in [Load_supplies, Store_minimum_supply v, Store_maximum_supply v,
           Load_supply_sum, Store_supply_sum v])"
  by (simp add: processed_code_def Let_def)

lemma frame_accesses: "snd (fold access (processed_code f) (r, m)) = record_processed f m"
  unfolding processed_parts record_processed_def Let_def
  by (intro part_accesses count_accesses sequence_accesses flag_accesses temperature_accesses
      supply_accesses)

lemma processed_accesses:
  "snd (fold access (concat (map processed_code fs)) (r, m)) = fold record_processed fs m"
proof (induction fs arbitrary: r m)
  case (Cons f fs)
  with part_accesses [OF frame_accesses [of f], of "concat (map processed_code fs)"] show ?case by simp
qed simp

lemma interleaved_accesses:
  assumes "lefts zs = concat (map ingest_code es)" and "rights zs = concat (map processed_code fs)"
  shows "snd (run_interleaved atomic_access access zs (r, m))
    = fold record_processed fs (fold record_ingest es m)"
  using assms by (simp add: accesses.interleaving_is_sequential ingest_accesses processed_accesses)

subsection \<open>The counters\<close>

text \<open>The events that increment a counter.\<close>

fun increments :: "atomic_member \<Rightarrow> IngestEvent \<Rightarrow> bool" where
  "increments At_inputs_received e = (e = Ev_input)"
| "increments At_frames_accepted e = (e = Ev_accepted)"
| "increments At_frames_rejected e = (e \<noteq> Ev_input \<and> e \<noteq> Ev_accepted)"
| "increments At_queue_closed_rejections e = (e = Ev_queue_closed)"
| "increments At_invalid_frame_size e = (e = Ev_rejected PE_invalid_frame_size)"
| "increments At_invalid_magic e = (e = Ev_rejected PE_invalid_magic)"
| "increments At_unsupported_version e = (e = Ev_rejected PE_unsupported_version)"
| "increments At_unsupported_message_type e = (e = Ev_rejected PE_unsupported_message_type)"
| "increments At_invalid_payload_size e = (e = Ev_rejected PE_invalid_payload_size)"
| "increments At_checksum_mismatch e = (e = Ev_rejected PE_checksum_mismatch)"

fun member_value :: "atomic_member \<Rightarrow> TelemetryMetrics \<Rightarrow> u64" where
  "member_value At_inputs_received m = inputs_received' m"
| "member_value At_frames_accepted m = frames_accepted' m"
| "member_value At_frames_rejected m = frames_rejected' m"
| "member_value At_queue_closed_rejections m = queue_closed_rejections' m"
| "member_value At_invalid_frame_size m = invalid_frame_size' m"
| "member_value At_invalid_magic m = invalid_magic' m"
| "member_value At_unsupported_version m = unsupported_version' m"
| "member_value At_unsupported_message_type m = unsupported_message_type' m"
| "member_value At_invalid_payload_size m = invalid_payload_size' m"
| "member_value At_checksum_mismatch m = checksum_mismatch' m"

lemma member_new: "member_value c new_metrics = 0"
  by (cases c) (simp_all add: new_metrics_def)

lemma member_fetch_add: "member_value c (fetch_add d m) = member_value c m + of_bool (c = d)"
  by (cases d; cases c) simp_all

lemma member_processed: "member_value c (fold record_processed fs m) = member_value c m"
proof (induction fs arbitrary: m)
  case (Cons f fs)
  have "member_value c (record_processed f m) = member_value c m"
    by (cases c) (simp_all add: record_processed_def record_sequence_def record_flags_eq
        record_temperature_def record_supply_def Let_def)
  with Cons show ?case by simp
qed simp

lemma member_fetch_adds: "member_value c (fold fetch_add cs m) = member_value c m + of_nat (count_list cs c)"
  by (induction cs arbitrary: m) (simp_all add: member_fetch_add)

lemma count_code: "count_list (ingest_code e) c = of_bool (increments c e)"
  by (rule ingest_event_cases [of _ e]; cases c) simp_all

lemma count_codes: "count_list (concat (map ingest_code es)) c = length (filter (increments c) es)"
  by (induction es) (simp_all add: count_code)

lemma member_after:
  assumes "length es < 2 ^ 64"
  shows "unat (member_value c (fold record_processed fs (fold record_ingest es new_metrics)))
    = length (filter (increments c) es)"
proof -
  have "length (filter (increments c) es) < 2 ^ 64"
    using assms length_filter_le [of "increments c" es] by linarith
  then show ?thesis
    by (simp add: member_processed member_fetch_adds member_new count_codes unsigned_of_nat
        take_bit_nat_eq_self
        flip: ingest_fetch_adds)
qed

subsection \<open>Properties\<close>

text \<open>C29: the two threads need no lock: let the ingesting thread make any calls and the consuming
  thread process any frames, with their accesses to the members of the object interleaved in any
  way, in the middle of each other's calls and between a load and its store. No update is lost:
  the object ends as if the calls had been made one after the other, each atomic counter is the
  number of the calls that increment it, and the statistics are those of the processed frames.\<close>

theorem host_metrics_interleaving:
  assumes "lefts zs = concat (map ingest_code es)" and "rights zs = concat (map processed_code fs)"
    and "length es < 2 ^ 64" and "length fs < 2 ^ 32"
    and "m = snd (run_interleaved atomic_access access zs (r, new_metrics))"
  shows "m = fold record_processed fs (fold record_ingest es new_metrics)
    \<and> (\<forall>c. unat (member_value c m) = length (filter (increments c) es))
    \<and> summary m = summary_of fs"
  unfolding assms(5) interleaved_accesses [OF assms(1,2)]
  using member_after [OF assms(3)] summary_of_processing [OF unprocessed_ingested assms(4)] by simp

definition racing_accesses :: "(atomic_member + member_access) list" where
  "racing_accesses = [Inl At_frames_rejected, Inr Load_processed, Inl At_checksum_mismatch,
     Inr Store_processed, Inl At_inputs_received] @ map Inr (drop 2 (processed_code default_frame))"

definition blank_registers :: registers where
  "blank_registers = \<lparr>counter = 0, total = 0, first_last = (None, None),
     coldest_hottest = (None, None), lowest_highest = (None, None)\<rparr>"

theorem host_metrics_interleaving_witness:
  "\<exists>m. m = snd (run_interleaved atomic_access access racing_accesses (blank_registers, new_metrics))
    \<and> m = fold record_processed [default_frame]
        (fold record_ingest [Ev_rejected PE_checksum_mismatch, Ev_input] new_metrics)
    \<and> (\<forall>c. unat (member_value c m)
        = length (filter (increments c) [Ev_rejected PE_checksum_mismatch, Ev_input]))
    \<and> summary m = summary_of [default_frame]"
proof -
  define m where "m = snd (run_interleaved atomic_access access racing_accesses (blank_registers, new_metrics))"
  have "lefts (map Inr xs) = []" and "rights (map Inr xs) = xs" for xs :: "member_access list"
    by (induction xs) simp_all
  then have "lefts racing_accesses = concat (map ingest_code [Ev_rejected PE_checksum_mismatch, Ev_input])"
    "rights racing_accesses = concat (map processed_code [default_frame])"
    by (simp_all add: racing_accesses_def processed_code_def Let_def)
  moreover have "length [Ev_rejected PE_checksum_mismatch, Ev_input] < (2 ^ 64 :: nat)"
    "length [default_frame] < (2 ^ 32 :: nat)" by simp_all
  ultimately have "m = fold record_processed [default_frame]
        (fold record_ingest [Ev_rejected PE_checksum_mismatch, Ev_input] new_metrics)
    \<and> (\<forall>c. unat (member_value c m)
        = length (filter (increments c) [Ev_rejected PE_checksum_mismatch, Ev_input]))
    \<and> summary m = summary_of [default_frame]"
    using m_def by (rule host_metrics_interleaving)
  with m_def show ?thesis by blast
qed

end
