(* ===== verification/Spec2Isabelle.thy ===== *)
theory Spec2Isabelle
  imports Transcript Host_Demo Host_Accounting Metrics_Wellformed Host_Exceptions Host_Robustness
    Firmware_Robustness Firmware_Scheduling Capture_Acceptance Noisy_Link Test_Suites
    Host_Pipeline Firmware_Pipeline Firmware_Suite Metrics_Threads
begin

text \<open>
  A verification library for the embedded telemetry laboratory.

  \<^bold>\<open>The program.\<close> A protocol core (\<^verbatim>\<open>protocol/\<close>) encodes a telemetry frame into 34 bytes with a
  CRC-32 and decodes untrusted bytes. The host (\<^verbatim>\<open>host/\<close>) is a two-thread pipeline: the main thread
  takes the raw frames of a simulated source, the ingestor decodes each and pushes the valid ones
  into a bounded buffer; a consumer thread pops, decodes again and updates the metrics; main then
  checks the outcome and prints a report. The firmware (\<^verbatim>\<open>firmware/\<close>) is a three-thread Zephyr
  program: the producer thread encodes the frames of a deterministic sensor into a message queue,
  the transmitter thread prints them as hexadecimal lines, and main waits for both and prints a
  summary. The two programs share the protocol core; the firmware's console is what a receiver
  of the frames reads. The simulation suite (\<^verbatim>\<open>renode/\<close>) captures that console and checks it in
  Python, with a second implementation of the protocol's checks.

  \<^bold>\<open>Theories, in dependency order.\<close>

  \<^item> \<open>Telemetry_Prelude\<close>: machine integers, checked accesses, big-endian strings, decimal numerals.
  \<^item> \<open>Protocol_Types\<close>: \<^verbatim>\<open>protocol_types.hpp\<close>, every type, enumeration and layout constant.
  \<^item> \<open>Crc32\<close>: \<^verbatim>\<open>crc32.cpp\<close>; equal to the textbook CRC, burst errors are detected.
  \<^item> \<open>Serializer\<close>, \<open>Deserializer\<close>: \<^verbatim>\<open>serializer.cpp\<close> and \<^verbatim>\<open>deserializer.cpp\<close>; the documented layout,
    round trips in both directions, error order, accesses in bounds, corruption rejected;
    \<open>Bit_Errors\<close>: one to three flipped bits are rejected, wherever they are.
  \<^item> \<open>Interleaving\<close>: the contract of two threads that update one object without a lock.
  \<^item> \<open>Host_Metrics\<close>: \<^verbatim>\<open>telemetry_metrics.cpp\<close>; \<open>Sequence_Analysis\<close> and \<open>Processing_Summary\<close> hold the
    reference for the statistics over unbounded numbers and the refinement; \<open>Metrics_Wellformed\<close> the
    well-formedness of the object; \<open>Metrics_Threads\<close> the two threads' accesses to its members, one at
    a time and interleaved in any way: no update is lost, so that the calls can be steps elsewhere.
  \<^item> \<open>Host_Report\<close>: \<^verbatim>\<open>telemetry_report.cpp\<close>; exact averages, the report determines the snapshot.
  \<^item> \<open>Step_System\<close>, \<open>Bounded_Channel\<close>: the contracts of a terminating step relation and of a
    bounded first-in first-out channel.
  \<^item> \<open>Buffer_Interface\<close>: the external buffer as a parameter, with its documented contract and the
    weaker one in which \<^verbatim>\<open>pop\<close> may throw.
  \<^item> \<open>Host_Ingestor\<close>, \<open>Host_Processor\<close>: \<^verbatim>\<open>frame_ingestor.cpp\<close> and \<^verbatim>\<open>telemetry_processor.cpp\<close>.
  \<^item> \<open>Host_Main\<close>: \<^verbatim>\<open>host/src/main.cpp\<close> as two threads; every schedule ends with the right report.
  \<^item> \<open>Host_Accounting\<close>: what the counters and the statistics of a finished run are of its inputs.
  \<^item> \<open>Host_Exceptions\<close>: the host program in which any construction, allocation or push of the
    main thread throws.
  \<^item> \<open>Host_Robustness\<close>: the same program over a buffer of which nothing is assumed, and over one
    whose \<^verbatim>\<open>pop\<close> may throw at any call: the failure of the consumer is reported, or main waits for
    ever, depending on how many valid frames are left.
  \<^item> \<open>Simulated_Source\<close>, \<open>Host_Demo\<close>: \<^verbatim>\<open>simulated_frame_source.cpp\<close> and the demo's printed report.
  \<^item> \<open>Sensor_Model\<close>, \<open>Firmware_Metrics\<close>, \<open>Hex_Formatter\<close>: the firmware's files of these names.
  \<^item> \<open>Kernel_Interface\<close>, \<open>Telemetry_Queue\<close>: the Zephyr services as a parameter with their documented
    contract, and \<^verbatim>\<open>telemetry_queue.cpp\<close> over them.
  \<^item> \<open>Firmware_Threads\<close>: \<^verbatim>\<open>telemetry_producer.cpp\<close>, \<^verbatim>\<open>telemetry_transmitter.cpp\<close> and
    \<^verbatim>\<open>firmware/src/main.cpp\<close> as three threads; \<open>Firmware_Outcome\<close>: every schedule;
    \<open>Firmware_Robustness\<close>: every schedule over a message queue whose calls may fail;
    \<open>Firmware_Scheduling\<close>: the schedules under the priorities of the threads.
  \<^item> \<open>Pipeline_Spec\<close>: the abstract pipeline that both programs promise to be; \<open>Host_Pipeline\<close> and
    \<open>Firmware_Pipeline\<close>: the simulations, every step of a program is one of the pipeline or none.
  \<^item> \<open>Transcript\<close>: reading the firmware's console; \<open>Noisy_Link\<close>: a link that loses and damages
    frames between the two programs, and what the host's statistics say of it.
  \<^item> \<open>Test_Suites\<close>: expectations of the unit tests under \<^verbatim>\<open>tests/\<close>, evaluated on the model;
    \<open>Firmware_Suite\<close>: the drain scenario of the firmware's suite, simulated by the firmware.
  \<^item> \<open>Capture_Validator\<close>: \<^verbatim>\<open>renode/tests/resources/telemetry_validation.py\<close>, the Python checks of the
    simulated board's output; \<open>Capture_Proofs\<close>: its arithmetic and its frame checks are the decoder's;
    \<open>Capture_Acceptance\<close>: what it accepts. This theory: the programs end to end.

  \<^bold>\<open>State and operations.\<close> A class is a record of its data members, a member \<^verbatim>\<open>name_\<close> being the
  field \<open>name'\<close>; a member function maps the object to its result and the updated object. An
  atomic \<^verbatim>\<open>fetch_add\<close> is the wrapping increment. A thread is a program counter with one
  constructor per point between two calls on shared objects, and a step function whose value is
  \<open>None\<close> while its call waits; a program is an inductive relation, one step of any thread, so a
  reachable state is one of any interleaving. An exception of the external buffer is the value
  \<open>Raises\<close> and takes the code's handlers. Accesses of arrays and spans are modelled twice where
  it matters: as the code computes, and over checked accesses that are \<open>None\<close> out of range; the
  two are proved equal.

  \<^bold>\<open>Interfaces.\<close> What the code relies on from outside the repository is a locale:
  \<open>safe_buffer\<close> (from \<^verbatim>\<open>docs/HOST_PIPELINE.md\<close>) and \<open>kernel_services\<close> (Zephyr's documentation of
  message queues and semaphores). Both are shown to be \<open>bounded_channel\<close>s, are met by a list
  implementation at the code's capacities (3 and 4), and appear as a hypothesis of every theorem
  about the programs. \<open>safe_buffer\<close> extends \<open>raising_buffer\<close>, in which \<^verbatim>\<open>pop\<close> may throw and then leaves
  the buffer unchanged; a buffer that fails after a number of calls meets it. \<open>unreliable_kernel\<close> and \<open>losing_kernel\<close> are weaker contracts, implied by
  \<open>kernel_services\<close>, for calls that return error codes. \<open>priority_scheduler\<close> is the kernel's choice
  of the next thread, met by the scheduler that tries the threads in the order of their priorities.
  \<open>independent_updates\<close> is interpreted on both metrics classes, by calls and, on the host's, by single
  accesses, \<open>step_system\<close> and \<open>pipeline_implementation\<close> on both programs, \<open>xor_linear\<close> on the CRC step.

  \<^bold>\<open>Bounds.\<close> There is no fuel. The consumer loop is a partial function and the threads are
  relations; that they return is proved: a host run on \<open>n\<close> inputs has at most \<open>10 n + 6\<close> steps, a
  firmware run at most 177. The loop of a scheduler's choices is a partial function as well, and
  returns. The statistics equal their unbounded meaning up to \<open>2 ^ 32\<close> frames.

  \<^bold>\<open>Not modelled.\<close> Weak memory: accesses take effect in one order, of single members for the host's
  metrics and of whole calls for the firmware's (the threads write disjoint members, and the
  snapshots are taken when the threads have finished); stack sizes and thread names; stream failure of the standard output; the build system,
  the scripts under \<^verbatim>\<open>tools/\<close>, the platform description and Robot files of the simulation, the
  validator's command line and file reading, and the test frameworks.
  A scoped enumeration holds one of its enumerators, which is all the code stores.
\<close>

subsection \<open>Properties that span components\<close>

text \<open>C14: from the sensor to the host's decoder nothing is lost: after any schedule of the firmware,
  on any kernel that meets its documentation, the frame lines read back from the console decode,
  in order and bit for bit, to the frames the sensor produced.\<close>

theorem console_decodes_to_sensor_frames:
  assumes "kernel_services zephyr messages count telemetry_queue_capacity 1"
    and "count sp = 0" and "count st = 0"
    and "(firmware_step zephyr)\<^sup>*\<^sup>* (firmware_start zephyr q0 sp st) s" and "\<nexists>t. firmware_step zephyr s t"
  shows "map (\<lambda>bs. frame (deserialize bs)) (received (console s)) = map Some (drain new_sensor_model)"
proof -
  have "console s = lines_of encoded @ final_text"
    using firmware_run.firmware_every_run [OF firmware_runI [OF assms(1-3)] assms(4,5)] by simp
  then show ?thesis
    using drain_from [of 0] by (simp add: received_console encoded_decodes new_sensor_model_def)
qed

theorem console_decodes_to_sensor_frames_witness:
  "\<exists>s. (firmware_step (list_kernel telemetry_queue_capacity 1))\<^sup>*\<^sup>*
      (firmware_start (list_kernel telemetry_queue_capacity 1) [] 0 0) s
    \<and> map (\<lambda>bs. frame (deserialize bs)) (received (console s)) = map Some (drain new_sensor_model)"
proof -
  obtain s where s: "(firmware_step (list_kernel telemetry_queue_capacity 1))\<^sup>*\<^sup>*
      (firmware_start (list_kernel telemetry_queue_capacity 1) [] 0 0) s"
    "\<nexists>t. firmware_step (list_kernel telemetry_queue_capacity 1) s t"
    by (rule demo_firmware_ends)
  then show ?thesis
    using console_decodes_to_sensor_frames [OF demo_kernel_contract refl refl s] by blast
qed

text \<open>C9: the firmware's frames go through the host without a fault: the host program run on the
  frames read from the firmware's console, on any schedule of both, exits with 0 and prints the
  report of eight accepted and processed frames, sequence 1000 to 1007 without a gap, and the
  warnings and extremes of the sensor table.\<close>

theorem firmware_frames_through_host:
  assumes "kernel_services zephyr messages count telemetry_queue_capacity 1"
    and "count sp = 0" and "count st = 0"
    and "(firmware_step zephyr)\<^sup>*\<^sup>* (firmware_start zephyr q0 sp st) s" and "\<nexists>t. firmware_step zephyr s t"
    and "safe_buffer ops items closed capacity valid" and "valid b0" and "\<not> closed b0" and "items b0 = []"
    and "(host_step ops)\<^sup>*\<^sup>* (host_start b0 (received (console s))) h" and "\<nexists>g. host_step ops h g"
  shows "main_at h = M_exit 0 \<and> cerr h = [] \<and> cout h = make_text_report received_snapshot"
proof -
  have "console s = lines_of encoded @ final_text"
    using firmware_run.firmware_every_run [OF firmware_runI [OF assms(1-3)] assms(4,5)] by simp
  then have "(host_step ops)\<^sup>*\<^sup>* (host_start b0 encoded) h"
    using assms(10) by (simp add: received_console)
  from host_run.every_run_ends [OF host_runI [OF assms(6-9)] this] assms(11) show ?thesis
    by (simp add: received_metrics)
qed

theorem firmware_frames_through_host_witness:
  "\<exists>s h. (firmware_step (list_kernel telemetry_queue_capacity 1))\<^sup>*\<^sup>*
      (firmware_start (list_kernel telemetry_queue_capacity 1) [] 0 0) s
    \<and> (host_step (list_buffer_ops queue_capacity))\<^sup>*\<^sup>* (host_start empty_list_buffer (received (console s))) h
    \<and> main_at h = M_exit 0 \<and> cerr h = [] \<and> cout h = make_text_report received_snapshot"
proof -
  have b: "safe_buffer (list_buffer_ops queue_capacity) stored is_closed queue_capacity (\<lambda>_. True)"
    by (rule list_buffer_meets_contract) (simp add: queue_capacity_def)
  obtain s where s: "(firmware_step (list_kernel telemetry_queue_capacity 1))\<^sup>*\<^sup>*
      (firmware_start (list_kernel telemetry_queue_capacity 1) [] 0 0) s"
    "\<nexists>t. firmware_step (list_kernel telemetry_queue_capacity 1) s t"
    by (rule demo_firmware_ends)
  obtain h where h: "(host_step (list_buffer_ops queue_capacity))\<^sup>*\<^sup>*
      (host_start empty_list_buffer (received (console s))) h"
    "\<nexists>g. host_step (list_buffer_ops queue_capacity) h g"
    using demo_run.run.reaches_stuck [of "received (console s)", OF rtranclp.rtrancl_refl] by blast
  have "main_at h = M_exit 0 \<and> cerr h = [] \<and> cout h = make_text_report received_snapshot"
    by (rule firmware_frames_through_host [OF demo_kernel_contract _ _ s b TrueI _ _ h])
      (simp_all add: empty_list_buffer_def)
  with s h show ?thesis by blast
qed



text \<open>C24: the validator accepts the firmware: for every finished run, on any schedule and any kernel
  that meets its documentation, a capture that reads as a clean boot followed by the console passes
  every check of \<open>validate_capture\<close>.\<close>

theorem firmware_capture_is_accepted:
  assumes "kernel_services zephyr messages count telemetry_queue_capacity 1"
    and "count sp = 0" and "count st = 0"
    and "(firmware_step zephyr)\<^sup>*\<^sup>* (firmware_start zephyr q0 sp st) s" and "\<nexists>t. firmware_step zephyr s t"
    and "clean_boot boot" and "universal_newlines capture = unlines boot @ console s"
  shows "validate_capture capture None = Inr ()"
proof -
  have "console s = lines_of encoded @ final_text"
    using firmware_run.firmware_every_run [OF firmware_runI [OF assms(1-3)] assms(4,5)] by simp
  with assms(6,7) show ?thesis by (intro console_accepted) simp_all
qed

theorem firmware_capture_is_accepted_witness:
  "\<exists>s. (firmware_step (list_kernel telemetry_queue_capacity 1))\<^sup>*\<^sup>*
      (firmware_start (list_kernel telemetry_queue_capacity 1) [] 0 0) s
    \<and> validate_capture (terminal_text (unlines demo_boot @ console s)) None = Inr ()"
proof -
  obtain s where s: "(firmware_step (list_kernel telemetry_queue_capacity 1))\<^sup>*\<^sup>*
      (firmware_start (list_kernel telemetry_queue_capacity 1) [] 0 0) s"
    "\<nexists>t. firmware_step (list_kernel telemetry_queue_capacity 1) s t"
    by (rule demo_firmware_ends)
  have "console s = lines_of encoded @ final_text"
    using demo_firmware.firmware_every_run [OF s] by simp
  then have "universal_newlines (terminal_text (unlines demo_boot @ console s)) = unlines demo_boot @ console s"
    by (rule terminal_capture [OF demo_boot_clean])
  from firmware_capture_is_accepted [OF demo_kernel_contract refl refl s demo_boot_clean this] s(1)
  show ?thesis by blast
qed

end
